(* ===== verification/Prelude.thy ===== *)
theory Prelude
  imports Main "HOL-Library.AList" "HOL-Library.Char_ord" "HOL-Library.List_Lexorder"
begin

text \<open>
  Vocabulary shared by every component: the type synonyms of the model, the abstractions of the
  standard collections, generic list lemmas, and the two machine contracts (an invariant kept by
  every step; a load that stays under a capacity) that the stateful components interpret.

  Strings are Rust's UTF-8 strings, one \<open>char\<close> per byte, so \<open>length\<close> is Rust's \<open>len()\<close>.
  A \<open>HashMap\<close> is an association list with distinct keys, whose order carries no meaning; a
  \<open>BTreeMap\<close> is one sorted by key. A fallible operation returns \<open>error + value\<close>.
\<close>

type_synonym ustring = string
type_synonym 'v hash_map = "(ustring \<times> 'v) list"
type_synonym nanos = nat

abbreviation ok :: "'a \<Rightarrow> 'e + 'a" where
  "ok \<equiv> Inr"

abbreviation err :: "'e \<Rightarrow> 'e + 'a" where
  "err \<equiv> Inl"

named_theorems component_inv "invariant preservation, one fact per operation"
named_theorems component_defs "unfoldings of the definitions of a component"

section \<open>Association lists as hash maps\<close>

definition map_ok :: "(ustring \<times> 'v) list \<Rightarrow> bool" where
  "map_ok m \<longleftrightarrow> distinct (map fst m)"

lemma map_ok_Nil [simp, intro]: "map_ok []"
  by (simp add: map_ok_def)

lemma map_ok_update [simp, intro]: "map_ok m \<Longrightarrow> map_ok (AList.update k v m)"
  by (simp add: map_ok_def distinct_update)

lemma map_ok_delete [simp, intro]: "map_ok m \<Longrightarrow> map_ok (AList.delete k m)"
  by (simp add: map_ok_def distinct_delete)

lemma map_of_delete_iff [simp]: "map_of (AList.delete k m) x = (if x = k then None else map_of m x)"
  by (simp add: delete_conv')

lemma map_of_update_iff [simp]: "map_of (AList.update k v m) x = (if x = k then Some v else map_of m x)"
  by (simp add: update_conv')

lemma map_of_Cons_iff: "map_of ((k, v) # m) x = (if x = k then Some v else map_of m x)"
  by simp

text \<open>A fresh key is appended, an entry is removed once: the sizes a capacity check counts.\<close>

lemma update_fresh: "map_of m k = None \<Longrightarrow> AList.update k v m = m @ [(k, v)]"
  by (induction m) (auto split: if_splits)

lemma delete_absent: "map_of m k = None \<Longrightarrow> AList.delete k m = m"
  by (induction m) (auto simp: AList.delete_eq split: if_splits)

lemma length_delete_le: "length (AList.delete k m) \<le> length m"
  by (simp add: AList.delete_eq)

lemma length_filter_delete_le:
  "length (filter P (AList.delete k m)) \<le> length (filter P m)"
  by (induction m) (auto simp: AList.delete_eq)

section \<open>Lists\<close>

lemma length_filter_filter_le: "length (filter P (filter Q xs)) \<le> length (filter P xs)"
  by (induction xs) auto

lemma sorted_filter_map: "sorted (map f xs) \<Longrightarrow> sorted (map f (filter P xs))"
  by (rule sorted_filter)

lemma distinct_map_drop: "distinct (map f xs) \<Longrightarrow> distinct (map f (drop n xs))"
  by (simp add: drop_map [symmetric])

lemma sorted_map_drop: "sorted (map f xs) \<Longrightarrow> sorted (map f (drop n xs))"
  by (simp add: drop_map [symmetric])

lemma drop_takeWhile_length: "drop (length (takeWhile P xs)) xs = dropWhile P xs"
  by (metis dropWhile_eq_drop)

lemma find_append_absent:
  "(\<And>x. x \<in> set xs \<Longrightarrow> \<not> P x) \<Longrightarrow> List.find P (xs @ ys) = List.find P ys"
  by (induction xs) auto

lemma in_map_filter: "z \<in> set (List.map_filter f xs) \<longleftrightarrow> (\<exists>y\<in>set xs. f y = Some z)"
  by (induction xs) (auto simp: List.map_filter_simps split: option.split)

text \<open>On a list split at one point by the predicate, dropping the prefix is filtering.\<close>

lemma dropWhile_filter_antimono:
  assumes "sorted (map f xs)" "\<And>x y. f x \<le> f y \<Longrightarrow> P y \<Longrightarrow> P x"
  shows "dropWhile P xs = filter (\<lambda>x. \<not> P x) xs"
  using assms(1)
proof (induction xs)
  case Nil
  then show ?case by simp
next
  case (Cons x xs)
  show ?case
  proof (cases "P x")
    case True
    with Cons show ?thesis by simp
  next
    case False
    then have "\<forall>y \<in> set xs. \<not> P y" using Cons.prems assms(2) by auto
    with False show ?thesis by (simp add: filter_id_conv)
  qed
qed

text \<open>
  \<open>VecDeque::partition_point\<close>: the index of the first element that fails the predicate. The
  standard library leaves the result open on a queue the predicate does not split at one point;
  the callers' invariants establish that it does.
\<close>

definition partition_point :: "('a \<Rightarrow> bool) \<Rightarrow> 'a list \<Rightarrow> nat" where
  "partition_point P xs = length (takeWhile P xs)"

definition partitioned :: "('a \<Rightarrow> bool) \<Rightarrow> 'a list \<Rightarrow> bool" where
  "partitioned P xs \<longleftrightarrow> takeWhile P xs = filter P xs"

section \<open>Machines\<close>

text \<open>
  The contract of a stateful component: an invariant that each of its operations keeps. Its client
  lemma lifts the invariant to every sequence of operations.
\<close>

locale step_invariant =
  fixes step :: "'c \<Rightarrow> 's \<Rightarrow> 's"
    and inv :: "'s \<Rightarrow> bool"
  assumes step_inv: "inv s \<Longrightarrow> inv (step c s)"
begin

lemma run_inv: "inv s \<Longrightarrow> inv (fold step cs s)"
  by (induction cs arbitrary: s) (auto simp: step_inv)

text \<open>A fact every step keeps under the invariant holds after every run.\<close>

lemma run_frame:
  assumes "inv s" "P s" "\<And>c s. inv s \<Longrightarrow> P s \<Longrightarrow> c \<in> set cs \<Longrightarrow> P (step c s)"
  shows "P (fold step cs s)"
  using assms
proof (induction cs arbitrary: s)
  case Nil
  then show ?case by simp
next
  case (Cons c cs)
  have "P (step c s)" using Cons.prems by simp
  moreover have "inv (step c s)" using Cons.prems(1) by (rule step_inv)
  ultimately show ?case using Cons.IH [of "step c s"] Cons.prems(3) by simp
qed

end

text \<open>A component with a fixed capacity: under the invariant the load never exceeds it.\<close>

locale bounded_machine = step_invariant +
  fixes load :: "'s \<Rightarrow> nat"
    and capacity :: "'s \<Rightarrow> nat"
  assumes load_le: "inv s \<Longrightarrow> load s \<le> capacity s"
    and capacity_step: "capacity (step c s) = capacity s"
begin

lemma run_capacity: "capacity (fold step cs s) = capacity s"
  by (induction cs arbitrary: s) (auto simp: capacity_step)

lemma run_load: "inv s \<Longrightarrow> load (fold step cs s) \<le> capacity s"
  using load_le [OF run_inv] by (simp add: run_capacity)

end

text \<open>
  A keyed table of owned values: what its clients rely on when they insert, look up and remove. The
  client lemma is the guarded removal: taking an entry out only while it holds a given value never
  disturbs any other entry.
\<close>

locale owned_table =
  fixes lookup :: "'t \<Rightarrow> ustring \<Rightarrow> 'a option"
    and insert :: "'t \<Rightarrow> ustring \<Rightarrow> ustring option \<Rightarrow> 'a \<Rightarrow> 't option"
    and remove :: "'t \<Rightarrow> ustring \<Rightarrow> 't"
    and wf :: "'t \<Rightarrow> bool"
  assumes insert_fresh: "insert t k owner v = Some t' \<Longrightarrow> lookup t k = None"
    and lookup_insert: "insert t k owner v = Some t' \<Longrightarrow> lookup t' x = (if x = k then Some v else lookup t x)"
    and insert_wf: "wf t \<Longrightarrow> insert t k owner v = Some t' \<Longrightarrow> wf t'"
    and lookup_remove: "lookup (remove t k) x = (if x = k then None else lookup t x)"
    and remove_wf: "wf t \<Longrightarrow> wf (remove t k)"
begin

lemma guarded_remove:
  "lookup (if lookup t k = Some v then remove t k else t) x =
     (if x = k \<and> lookup t k = Some v then None else lookup t x)"
  by (simp add: lookup_remove)

lemma guarded_remove_wf: "wf t \<Longrightarrow> wf (if b then remove t k else t)"
  by (simp add: remove_wf)

lemma insert_keeps: "insert t k owner v = Some t' \<Longrightarrow> lookup t x = Some u \<Longrightarrow> lookup t' x = Some u"
  using insert_fresh lookup_insert by fastforce

end

end
