(* ===== verification/Operations.thy ===== *)
theory Operations
  imports Prelude
begin

text \<open>
  \<open>shelllist-daemon-core/src/operation.rs\<close>: owner-scoped active operations (\<open>OwnedOperations\<close>)
  and the bounded store of terminal results (\<open>RecentResults\<close>). The caller synchronises, so each
  method is one atomic state transition. \<open>Instant\<close> is a number of nanoseconds, and
  \<open>Instant::now()\<close> an argument of the operation that reads the clock.
\<close>

section \<open>Active operations\<close>

record operation_limits =
  total :: nat
  per_owner :: nat

datatype operation_admission_error = OpFull | OpDuplicateId

record 'a owned_operation =
  op_owner :: "ustring option"
  op_value :: 'a

record 'a owned_operations =
  active :: "'a owned_operation hash_map"
  limits :: operation_limits

definition ops_new :: "operation_limits \<Rightarrow> 'a owned_operations" where
  "ops_new lim = \<lparr>active = [], limits = lim\<rparr>"

definition owner_count :: "'a owned_operations \<Rightarrow> ustring option \<Rightarrow> nat" where
  "owner_count ops owner = length (filter (\<lambda>(_, entry). op_owner entry = owner) (active ops))"

definition admit :: "'a owned_operations \<Rightarrow> ustring option \<Rightarrow> operation_admission_error + unit" where
  "admit ops owner =
     (if total (limits ops) \<le> length (active ops) \<or> per_owner (limits ops) \<le> owner_count ops owner
      then err OpFull else ok ())"

text \<open>
  \<open>insert_with\<close> runs the factory under the caller's lock; the factory may act on the world
  (the task registry spawns a worker in it), so the world is threaded through.
\<close>

definition insert_with ::
  "'a owned_operations \<Rightarrow> ustring \<Rightarrow> ustring option \<Rightarrow> (ustring \<Rightarrow> 'w \<Rightarrow> 'a \<times> 'w) \<Rightarrow> 'w
    \<Rightarrow> (operation_admission_error + 'a owned_operations) \<times> 'w" where
  "insert_with ops rid owner create w =
     (if map_of (active ops) rid \<noteq> None then (err OpDuplicateId, w)
      else case admit ops owner of
        Inl e \<Rightarrow> (err e, w)
      | Inr _ \<Rightarrow>
          let (value, w') = create rid w
          in (ok (ops\<lparr>active := AList.update rid \<lparr>op_owner = owner, op_value = value\<rparr> (active ops)\<rparr>), w'))"

definition ops_insert ::
  "'a owned_operations \<Rightarrow> ustring \<Rightarrow> ustring option \<Rightarrow> 'a
    \<Rightarrow> operation_admission_error + 'a owned_operations" where
  "ops_insert ops rid owner value = fst (insert_with ops rid owner (\<lambda>_ w. (value, w)) ())"

definition ops_get_owned :: "'a owned_operations \<Rightarrow> ustring \<Rightarrow> ustring option \<Rightarrow> 'a option" where
  "ops_get_owned ops rid owner =
     (case map_of (active ops) rid of
        Some entry \<Rightarrow> if op_owner entry = owner then Some (op_value entry) else None
      | None \<Rightarrow> None)"

text \<open>\<open>get_mut\<close> hands out a mutable reference: reading through it, and writing through it.\<close>

definition ops_get_mut :: "'a owned_operations \<Rightarrow> ustring \<Rightarrow> 'a option" where
  "ops_get_mut ops rid = map_option op_value (map_of (active ops) rid)"

definition ops_set_mut :: "'a owned_operations \<Rightarrow> ustring \<Rightarrow> 'a \<Rightarrow> 'a owned_operations" where
  "ops_set_mut ops rid value =
     (case map_of (active ops) rid of
        Some entry \<Rightarrow> ops\<lparr>active := AList.update rid (entry\<lparr>op_value := value\<rparr>) (active ops)\<rparr>
      | None \<Rightarrow> ops)"

definition claim ::
  "'a owned_operations \<Rightarrow> ustring \<Rightarrow> 'a owned_operation option \<times> 'a owned_operations" where
  "claim ops rid = (map_of (active ops) rid, ops\<lparr>active := AList.delete rid (active ops)\<rparr>)"

definition claim_owned ::
  "'a owned_operations \<Rightarrow> ustring \<Rightarrow> ustring option
    \<Rightarrow> 'a owned_operation option \<times> 'a owned_operations" where
  "claim_owned ops rid owner =
     (case ops_get_owned ops rid owner of None \<Rightarrow> (None, ops) | Some _ \<Rightarrow> claim ops rid)"

definition ops_iter :: "'a owned_operations \<Rightarrow> (ustring \<times> 'a owned_operation) list" where
  "ops_iter ops = active ops"

text \<open>Dropping the iterator removes the entries it has not yielded, so the map is left empty.\<close>

definition drain :: "'a owned_operations \<Rightarrow> 'a owned_operation list \<times> 'a owned_operations" where
  "drain ops = (map snd (active ops), ops\<lparr>active := []\<rparr>)"

lemmas ops_defs [component_defs] =
  ops_new_def owner_count_def admit_def insert_with_def ops_insert_def ops_get_owned_def
  ops_get_mut_def ops_set_mut_def claim_def claim_owned_def ops_iter_def drain_def

section \<open>Commands and the invariant\<close>

datatype 'a ops_command =
    OpsInsert ustring "ustring option" 'a
  | OpsSet ustring 'a
  | OpsClaim ustring
  | OpsClaimOwned ustring "ustring option"
  | OpsDrain

fun ops_step :: "'a ops_command \<Rightarrow> 'a owned_operations \<Rightarrow> 'a owned_operations" where
  "ops_step (OpsInsert rid owner v) ops =
     (case ops_insert ops rid owner v of Inl _ \<Rightarrow> ops | Inr ops' \<Rightarrow> ops')"
| "ops_step (OpsSet rid v) ops = ops_set_mut ops rid v"
| "ops_step (OpsClaim rid) ops = snd (claim ops rid)"
| "ops_step (OpsClaimOwned rid owner) ops = snd (claim_owned ops rid owner)"
| "ops_step OpsDrain ops = snd (drain ops)"

text \<open>One entry per ID, at most \<open>total\<close> entries, at most \<open>per_owner\<close> for each owner.\<close>

definition ops_inv :: "'a owned_operations \<Rightarrow> bool" where
  "ops_inv ops \<longleftrightarrow> map_ok (active ops) \<and> length (active ops) \<le> total (limits ops)
     \<and> (\<forall>owner. owner_count ops owner \<le> per_owner (limits ops))"

lemma ops_inv_new [component_inv]: "ops_inv (ops_new lim)"
  by (simp add: ops_inv_def ops_new_def owner_count_def)

lemma insert_with_ok_iff:
  "fst (insert_with ops rid owner create w) = Inr ops' \<longleftrightarrow>
     map_of (active ops) rid = None \<and> length (active ops) < total (limits ops)
     \<and> owner_count ops owner < per_owner (limits ops)
     \<and> ops' = ops\<lparr>active := active ops @ [(rid, \<lparr>op_owner = owner, op_value = fst (create rid w)\<rparr>)]\<rparr>"
  by (auto simp: insert_with_def admit_def update_fresh split: prod.splits)

lemma ops_inv_insert [component_inv]:
  assumes "ops_inv ops" "fst (insert_with ops rid owner create w) = Inr ops'"
  shows "ops_inv ops'"
  using assms
  by (auto simp: insert_with_ok_iff ops_inv_def owner_count_def map_ok_def map_of_eq_None_iff
      split: if_splits)

lemma ops_inv_delete [component_inv]:
  assumes "ops_inv ops"
  shows "ops_inv (ops\<lparr>active := AList.delete rid (active ops)\<rparr>)"
proof -
  have len: "length (AList.delete rid (active ops)) \<le> total (limits ops)"
    using assms length_delete_le [of rid "active ops"] by (simp add: ops_inv_def)
  have per: "length (filter P (AList.delete rid (active ops))) \<le> n"
    if "length (filter P (active ops)) \<le> n" for P n
    using length_filter_delete_le [of P rid "active ops"] that by linarith
  show ?thesis
    using assms len per by (simp add: ops_inv_def owner_count_def)
qed

lemma update_same_owner:
  assumes "map_of m rid = Some entry" "\<And>x. P (rid, x) = Q x"  "Q v = Q entry" "map_ok m"
  shows "length (AList.update rid v m) = length m
     \<and> length (filter P (AList.update rid v m)) = length (filter P m)"
  using assms(1,4)
proof (induction m)
  case Nil
  then show ?case by simp
next
  case (Cons kv m)
  then show ?case using assms(2,3) by (cases kv) (auto simp: map_ok_def split: if_splits)
qed

lemma ops_inv_set_mut [component_inv]:
  assumes "ops_inv ops"
  shows "ops_inv (ops_set_mut ops rid v)"
proof (cases "map_of (active ops) rid")
  case None
  with assms show ?thesis by (simp add: ops_set_mut_def)
next
  case (Some entry)
  let ?e = "entry\<lparr>op_value := v\<rparr>"
  have "length (AList.update rid ?e (active ops)) = length (active ops)
      \<and> length (filter (\<lambda>(_, e). op_owner e = owner) (AList.update rid ?e (active ops)))
        = length (filter (\<lambda>(_, e). op_owner e = owner) (active ops))" for owner
    by (rule update_same_owner [OF Some, where Q = "\<lambda>e. op_owner e = owner"])
      (use assms in \<open>auto simp: ops_inv_def\<close>)
  with assms Some show ?thesis by (simp add: ops_inv_def ops_set_mut_def owner_count_def)
qed

lemma ops_inv_claim [component_inv]: "ops_inv ops \<Longrightarrow> ops_inv (snd (claim ops rid))"
  by (simp add: claim_def ops_inv_delete)

lemma ops_inv_claim_owned [component_inv]: "ops_inv ops \<Longrightarrow> ops_inv (snd (claim_owned ops rid owner))"
  by (simp add: claim_owned_def ops_inv_claim split: option.splits)

lemma ops_inv_drain [component_inv]: "ops_inv ops \<Longrightarrow> ops_inv (snd (drain ops))"
  by (simp add: ops_inv_def drain_def owner_count_def)

lemma ops_inv_step [component_inv]: "ops_inv ops \<Longrightarrow> ops_inv (ops_step c ops)"
  by (cases c) (auto simp: ops_insert_def component_inv split: sum.splits)

lemma limits_step [simp]: "limits (ops_step c ops) = limits ops"
  by (cases c)
    (auto simp: ops_insert_def ops_set_mut_def claim_def claim_owned_def drain_def insert_with_ok_iff
      split: sum.splits option.splits)

interpretation ops_machine: bounded_machine ops_step ops_inv "\<lambda>ops. length (active ops)"
  "\<lambda>ops. total (limits ops)"
  by unfold_locales (simp_all add: ops_inv_step, simp add: ops_inv_def)

text \<open>The table contract, on which the task registry rests.\<close>

definition ops_try_insert ::
  "'a owned_operations \<Rightarrow> ustring \<Rightarrow> ustring option \<Rightarrow> 'a \<Rightarrow> 'a owned_operations option" where
  "ops_try_insert ops rid owner v = (case ops_insert ops rid owner v of Inl _ \<Rightarrow> None | Inr ops' \<Rightarrow> Some ops')"

lemma ops_try_insert_iff:
  "ops_try_insert ops rid owner v = Some ops' \<longleftrightarrow>
     map_of (active ops) rid = None \<and> length (active ops) < total (limits ops)
     \<and> owner_count ops owner < per_owner (limits ops)
     \<and> ops' = ops\<lparr>active := active ops @ [(rid, \<lparr>op_owner = owner, op_value = v\<rparr>)]\<rparr>"
proof -
  have "ops_try_insert ops rid owner v = Some ops' \<longleftrightarrow>
      fst (insert_with ops rid owner (\<lambda>_ w. (v, w)) ()) = Inr ops'"
    by (simp add: ops_try_insert_def ops_insert_def split: sum.split)
  then show ?thesis by (simp only: insert_with_ok_iff fst_conv)
qed

lemma insert_with_table:
  "insert_with ops rid owner create w =
     (case ops_try_insert ops rid owner (fst (create rid w)) of
        Some t \<Rightarrow> (Inr t, snd (create rid w))
      | None \<Rightarrow> (Inl (if map_of (active ops) rid \<noteq> None then OpDuplicateId else OpFull), w))"
  by (auto simp: ops_try_insert_def ops_insert_def insert_with_def admit_def split: prod.split)

interpretation ops_table: owned_table ops_get_mut ops_try_insert "\<lambda>ops rid. snd (claim ops rid)" ops_inv
proof unfold_locales
  fix ops ops' :: "'a owned_operations" and k owner v x
  assume ins: "ops_try_insert ops k owner v = Some ops'"
  show "ops_get_mut ops k = None" using ins by (simp add: ops_try_insert_iff ops_get_mut_def)
  show "ops_get_mut ops' x = (if x = k then Some v else ops_get_mut ops x)"
    using ins by (auto simp: ops_try_insert_iff ops_get_mut_def map_add_def split: option.split)
  show "ops_inv ops \<Longrightarrow> ops_inv ops'"
    using ins ops_inv_insert [of ops k owner "\<lambda>_ w. (v, w)" "()" ops']
    by (simp add: ops_try_insert_def ops_insert_def split: sum.splits)
qed (simp_all add: ops_get_mut_def claim_def ops_inv_delete)

section \<open>Terminal claims and owner isolation\<close>

lemma claim_result [simp]: "fst (claim ops rid) = map_of (active ops) rid"
  by (simp add: claim_def)

lemma claim_owned_cases:
  "claim_owned ops rid owner =
     (case map_of (active ops) rid of
        Some entry \<Rightarrow> if op_owner entry = owner
          then (Some entry, ops\<lparr>active := AList.delete rid (active ops)\<rparr>) else (None, ops)
      | None \<Rightarrow> (None, ops))"
  by (simp add: claim_owned_def ops_get_owned_def claim_def split: option.splits)

fun inserts_id :: "ustring \<Rightarrow> 'a ops_command \<Rightarrow> bool" where
  "inserts_id rid (OpsInsert rid' _ _) \<longleftrightarrow> rid' = rid"
| "inserts_id rid _ \<longleftrightarrow> False"

lemma step_keeps_absent:
  "map_of (active ops) rid = None \<Longrightarrow> \<not> inserts_id rid c \<Longrightarrow> map_of (active (ops_step c ops)) rid = None"
  by (cases c)
    (auto simp: ops_insert_def insert_with_ok_iff ops_set_mut_def claim_def claim_owned_cases drain_def
      map_add_def split: sum.splits option.splits)

text \<open>The commands that act under an owner other than \<open>owner\<close>: admissions and owned claims.\<close>

fun foreign_to :: "ustring option \<Rightarrow> 'a ops_command \<Rightarrow> bool" where
  "foreign_to owner (OpsInsert _ owner' _) \<longleftrightarrow> owner' \<noteq> owner"
| "foreign_to owner (OpsClaimOwned _ owner') \<longleftrightarrow> owner' \<noteq> owner"
| "foreign_to owner _ \<longleftrightarrow> False"

lemma foreign_step_get_owned:
  "foreign_to owner c \<Longrightarrow> ops_get_owned (ops_step c ops) rid owner = ops_get_owned ops rid owner"
  by (cases c)
    (auto simp: ops_insert_def insert_with_ok_iff claim_owned_cases ops_get_owned_def map_add_def
      split: sum.splits option.splits if_splits)

lemma owner_count_delete_foreign:
  assumes "map_of m rid = Some entry" "op_owner entry \<noteq> owner" "map_ok m"
  shows "length (filter (\<lambda>(_, e). op_owner e = owner) (AList.delete rid m))
    = length (filter (\<lambda>(_, e). op_owner e = owner) m)"
  using assms
proof (induction m)
  case Nil
  then show ?case by simp
next
  case (Cons kv m)
  show ?case
  proof (cases "fst kv = rid")
    case True
    with Cons.prems have "map_of m rid = None" by (auto simp: map_ok_def map_of_eq_None_iff)
    with True Cons.prems show ?thesis by (cases kv) (simp add: delete_absent)
  next
    case False
    with Cons show ?thesis by (cases kv) (auto simp: map_ok_def)
  qed
qed

lemma foreign_step_owner_count:
  assumes "foreign_to owner c" "ops_inv ops"
  shows "owner_count (ops_step c ops) owner = owner_count ops owner"
proof (cases c)
  case (OpsClaimOwned rid owner')
  with assms show ?thesis
    by (auto simp: claim_owned_cases owner_count_def ops_inv_def owner_count_delete_foreign
        split: option.splits)
qed (use assms in \<open>auto simp: ops_insert_def insert_with_ok_iff owner_count_def split: sum.splits\<close>)

section \<open>Recent terminal results\<close>

record 'a finished =
  fin_id :: ustring
  fin_owner :: "ustring option"
  fin_value :: 'a
  fin_recorded :: nanos

record 'a recent_results =
  entries :: "'a finished list"
  limit :: nat
  retention :: "nanos option"

definition recent_new :: "nat \<Rightarrow> nanos option \<Rightarrow> 'a recent_results" where
  "recent_new lim ttl = \<lparr>entries = [], limit = lim, retention = ttl\<rparr>"

text \<open>\<open>saturating_duration_since\<close> is truncated subtraction.\<close>

definition expired_at :: "nanos \<Rightarrow> nanos \<Rightarrow> 'a finished \<Rightarrow> bool" where
  "expired_at now ttl entry \<longleftrightarrow> ttl \<le> now - fin_recorded entry"

definition recent_prune :: "nanos \<Rightarrow> 'a recent_results \<Rightarrow> 'a recent_results" where
  "recent_prune now r =
     (case retention r of
        None \<Rightarrow> r
      | Some ttl \<Rightarrow> r\<lparr>entries := drop (partition_point (expired_at now ttl) (entries r)) (entries r)\<rparr>)"

text \<open>The loop \<open>while self.entries.len() > self.limit { pop_front }\<close>.\<close>

fun pop_excess :: "nat \<Rightarrow> 'a list \<Rightarrow> 'a list" where
  "pop_excess lim [] = []"
| "pop_excess lim (x # xs) = (if lim < length (x # xs) then pop_excess lim xs else x # xs)"

definition recent_record ::
  "nanos \<Rightarrow> ustring \<Rightarrow> ustring option \<Rightarrow> 'a \<Rightarrow> 'a recent_results \<Rightarrow> 'a recent_results" where
  "recent_record now rid owner v r =
     (let r1 = recent_prune now r;
          kept = filter (\<lambda>e. fin_id e \<noteq> rid) (entries r1);
          pushed = kept @ [\<lparr>fin_id = rid, fin_owner = owner, fin_value = v, fin_recorded = now\<rparr>]
      in r1\<lparr>entries := pop_excess (limit r1) pushed\<rparr>)"

definition recent_get_owned ::
  "nanos \<Rightarrow> ustring \<Rightarrow> ustring option \<Rightarrow> 'a recent_results \<Rightarrow> 'a option \<times> 'a recent_results" where
  "recent_get_owned now rid owner r =
     (let r1 = recent_prune now r
      in (map_option fin_value (List.find (\<lambda>e. fin_id e = rid \<and> fin_owner e = owner) (entries r1)), r1))"

definition recent_values :: "nanos \<Rightarrow> 'a recent_results \<Rightarrow> 'a list \<times> 'a recent_results" where
  "recent_values now r = (let r1 = recent_prune now r in (map fin_value (entries r1), r1))"

definition recent_is_empty :: "'a recent_results \<Rightarrow> bool" where
  "recent_is_empty r \<longleftrightarrow> entries r = []"

lemma pop_excess_drop: "pop_excess lim xs = drop (length xs - lim) xs"
  by (induction xs) (auto simp: Suc_diff_le drop_Cons' not_less)

text \<open>
  A store and the clock it was last used at. The clock is monotonic, so each command carries the
  time that passed since the previous one.
\<close>

datatype 'a recent_command =
    RecentRecord ustring "ustring option" 'a
  | RecentGet ustring "ustring option"
  | RecentValues
  | RecentPrune

fun recent_step :: "nanos \<times> 'a recent_command \<Rightarrow> nanos \<times> 'a recent_results \<Rightarrow> nanos \<times> 'a recent_results"
where
  "recent_step (dt, RecentRecord rid owner v) (t, r) = (t + dt, recent_record (t + dt) rid owner v r)"
| "recent_step (dt, RecentGet rid owner) (t, r) = (t + dt, snd (recent_get_owned (t + dt) rid owner r))"
| "recent_step (dt, RecentValues) (t, r) = (t + dt, snd (recent_values (t + dt) r))"
| "recent_step (dt, RecentPrune) (t, r) = (t + dt, recent_prune (t + dt) r)"

definition entries_ok :: "nanos \<Rightarrow> 'a finished list \<Rightarrow> bool" where
  "entries_ok t xs \<longleftrightarrow> distinct (map fin_id xs) \<and> sorted (map fin_recorded xs)
     \<and> list_all (\<lambda>e. fin_recorded e \<le> t) xs"

definition recent_inv :: "nanos \<times> 'a recent_results \<Rightarrow> bool" where
  "recent_inv = (\<lambda>(t, r). entries_ok t (entries r) \<and> length (entries r) \<le> limit r)"

lemma entries_ok_drop: "entries_ok t xs \<Longrightarrow> entries_ok t (drop n xs)"
  by (auto simp: entries_ok_def list_all_iff distinct_map_drop sorted_map_drop dest: in_set_dropD)

lemma entries_ok_later: "entries_ok t xs \<Longrightarrow> entries_ok (t + dt) xs"
  by (auto simp: entries_ok_def list_all_iff)

lemma entries_ok_push:
  assumes "entries_ok t xs" "fin_recorded e = t"
  shows "entries_ok t (filter (\<lambda>x. fin_id x \<noteq> fin_id e) xs @ [e])"
  using assms
  by (auto simp: entries_ok_def list_all_iff distinct_map_filter sorted_append sorted_filter_map)

lemma recent_inv_later: "recent_inv (t, r) \<Longrightarrow> recent_inv (t + dt, r)"
  by (simp add: recent_inv_def entries_ok_later)

lemma limit_prune [simp]: "limit (recent_prune now r) = limit r"
  and retention_prune [simp]: "retention (recent_prune now r) = retention r"
  by (simp_all add: recent_prune_def split: option.splits)

lemma prune_subset: "set (entries (recent_prune now r)) \<subseteq> set (entries r)"
  by (auto simp: recent_prune_def split: option.splits dest: in_set_dropD)

lemma recent_inv_prune [component_inv]:
  assumes "recent_inv (t, r)"
  shows "recent_inv (t, recent_prune now r)"
proof (cases "retention r")
  case None
  with assms show ?thesis by (simp add: recent_prune_def)
next
  case (Some ttl)
  then show ?thesis using assms
    by (auto simp: recent_inv_def recent_prune_def entries_ok_drop)
qed

lemma recent_inv_record [component_inv]:
  assumes "recent_inv (t, r)"
  shows "recent_inv (t + dt, recent_record (t + dt) rid owner v r)"
proof -
  let ?new = "\<lparr>fin_id = rid, fin_owner = owner, fin_value = v, fin_recorded = t + dt\<rparr>"
  have "recent_inv (t + dt, recent_prune (t + dt) r)"
    using assms by (intro recent_inv_prune recent_inv_later)
  then have "entries_ok (t + dt)
      (filter (\<lambda>e. fin_id e \<noteq> rid) (entries (recent_prune (t + dt) r)) @ [?new])"
    using entries_ok_push [of "t + dt" _ ?new] by (simp add: recent_inv_def)
  then show ?thesis
    by (simp add: recent_inv_def recent_record_def Let_def pop_excess_drop entries_ok_drop
        del: drop_append)
qed

lemma recent_inv_step [component_inv]: "recent_inv s \<Longrightarrow> recent_inv (recent_step c s)"
  by (cases s; cases c; cases "snd c")
    (auto simp: recent_get_owned_def recent_values_def Let_def component_inv recent_inv_later)

lemma limit_step [simp]: "limit (snd (recent_step c s)) = limit (snd s)"
  by (cases s; cases c; cases "snd c")
    (auto simp: recent_record_def recent_get_owned_def recent_values_def Let_def)

interpretation recent_machine: bounded_machine recent_step recent_inv
  "\<lambda>(_, r). length (entries r)" "\<lambda>(_, r). limit r"
proof unfold_locales
  fix s :: "nanos \<times> 'a recent_results" and c
  show "recent_inv s \<Longrightarrow> recent_inv (recent_step c s)" by (rule recent_inv_step)
  show "recent_inv s \<Longrightarrow> (case s of (_, r) \<Rightarrow> length (entries r)) \<le> (case s of (_, r) \<Rightarrow> limit r)"
    by (auto simp: recent_inv_def)
  show "(case recent_step c s of (_, r) \<Rightarrow> limit r) = (case s of (_, r) \<Rightarrow> limit r)"
    using limit_step [of c s] by (simp add: case_prod_beta)
qed

text \<open>Under the invariant the queue is split at one point, so pruning is filtering.\<close>

lemma expired_partitioned:
  assumes "recent_inv (t, r)"
  shows "partitioned (expired_at now ttl) (entries r)"
proof -
  have "sorted (map fin_recorded (entries r))" using assms by (simp add: recent_inv_def entries_ok_def)
  then show ?thesis unfolding partitioned_def
  proof (induction "entries r" arbitrary: r)
    case Nil
    then show ?case by simp
  next
    case (Cons e es)
    have *: "takeWhile (expired_at now ttl) es = filter (expired_at now ttl) es"
      using Cons.hyps(1) [of "r\<lparr>entries := es\<rparr>"] Cons.prems Cons.hyps(2) [symmetric] by simp
    show ?case
    proof (cases "expired_at now ttl e")
      case True
      with * Cons.hyps(2) [symmetric] show ?thesis by simp
    next
      case False
      have "\<not> expired_at now ttl x" if "x \<in> set es" for x
        using False Cons.prems Cons.hyps(2) [symmetric] that by (force simp: expired_at_def)
      with False Cons.hyps(2) [symmetric] show ?thesis by simp
    qed
  qed
qed

lemma prune_filter:
  assumes "recent_inv (t, r)" "retention r = Some ttl"
  shows "entries (recent_prune now r) = filter (\<lambda>e. \<not> expired_at now ttl e) (entries r)"
proof -
  have "sorted (map fin_recorded (entries r))" using assms(1) by (simp add: recent_inv_def entries_ok_def)
  then have "dropWhile (expired_at now ttl) (entries r)
      = filter (\<lambda>e. \<not> expired_at now ttl e) (entries r)"
    by (rule dropWhile_filter_antimono) (simp add: expired_at_def)
  with assms(2) show ?thesis
    by (simp add: recent_prune_def partition_point_def drop_takeWhile_length)
qed

section \<open>Properties\<close>

text \<open>
  C1. Admission bounds. Whatever sequence of insertions, value updates, claims and drains is run
  on a new table, its IDs stay distinct and neither the total nor any owner's share exceeds its
  limit.
\<close>

theorem ops_run_bounded:
  "map_ok (active (fold ops_step cs (ops_new lim)))
   \<and> length (active (fold ops_step cs (ops_new lim))) \<le> total lim
   \<and> (\<forall>owner. owner_count (fold ops_step cs (ops_new lim)) owner \<le> per_owner lim)"
proof -
  have "ops_inv (fold ops_step cs (ops_new lim))"
    by (rule ops_machine.run_inv) (rule ops_inv_new)
  moreover have "limits (fold ops_step cs (ops_new lim)) = lim"
    by (induction cs rule: rev_induct) (auto simp: ops_new_def)
  ultimately show ?thesis by (simp add: ops_inv_def)
qed

text \<open>
  C2. Single winner. Once a claim of an ID has returned its entry, no later claim of that ID,
  owned or not, returns one, whatever happened in between, unless the ID was inserted again.
\<close>

theorem claim_single_winner:
  assumes "ops_inv ops" "claim ops rid = (Some entry, ops')"
    and "list_all (\<lambda>c. \<not> inserts_id rid c) cs"
  shows "fst (claim (fold ops_step cs ops') rid) = None
    \<and> fst (claim_owned (fold ops_step cs ops') rid owner) = None"
proof -
  have "map_of (active ops') rid = None" "ops_inv ops'"
    using assms(1,2) ops_inv_delete [of ops rid] by (auto simp: claim_def)
  then have "map_of (active (fold ops_step cs ops')) rid = None"
    using assms(3)
    by (intro ops_machine.run_frame [where P = "\<lambda>s. map_of (active s) rid = None"])
      (simp_all add: step_keeps_absent list_all_iff)
  then show ?thesis by (simp add: claim_owned_cases)
qed

theorem claim_single_winner_witness:
  "fst (claim (fold ops_step [OpsInsert ''b'' None (2::nat), OpsClaim ''a''] (ops_new \<lparr>total = 2, per_owner = 2\<rparr>)) ''a'') = None
   \<and> fst (claim_owned (fold ops_step [OpsInsert ''b'' None (2::nat), OpsClaim ''a''] (ops_new \<lparr>total = 2, per_owner = 2\<rparr>)) ''a'' None) = None"
proof -
  let ?t = "ops_step (OpsInsert ''a'' None (1::nat)) (ops_new \<lparr>total = 2, per_owner = 2\<rparr>)"
  have "claim ?t ''a'' = (Some \<lparr>op_owner = None, op_value = 1\<rparr>, ops_new \<lparr>total = 2, per_owner = 2\<rparr>)"
    by (simp add: ops_defs)
  moreover have "ops_inv ?t" by (intro ops_inv_step ops_inv_new)
  ultimately show ?thesis by (intro claim_single_winner) simp_all
qed

text \<open>
  Owner isolation. Admissions and owned claims issued under other owners, in any number and
  order, change neither what an owner can look up nor how much of its quota it has used.
\<close>

lemma ops_owner_isolation:
  assumes "ops_inv ops" "list_all (foreign_to owner) cs"
  shows "ops_get_owned (fold ops_step cs ops) rid owner = ops_get_owned ops rid owner
    \<and> owner_count (fold ops_step cs ops) owner = owner_count ops owner"
proof -
  let ?P = "\<lambda>s. ops_get_owned s rid owner = ops_get_owned ops rid owner
    \<and> owner_count s owner = owner_count ops owner"
  have "?P (fold ops_step cs ops)"
    using assms(2)
    by (intro ops_machine.run_frame [where P = ?P, OF assms(1)])
      (auto simp: list_all_iff foreign_step_get_owned foreign_step_owner_count)
  then show ?thesis .
qed

theorem ops_owner_isolation_witness:
  "ops_get_owned (fold ops_step [OpsInsert ''a'' (Some ''o'') (2::nat), OpsClaimOwned ''a'' (Some ''o'')]
      (ops_step (OpsInsert ''a'' None 1) (ops_new \<lparr>total = 2, per_owner = 2\<rparr>))) ''a'' None = Some 1"
proof -
  let ?t = "ops_step (OpsInsert ''a'' None (1::nat)) (ops_new \<lparr>total = 2, per_owner = 2\<rparr>)"
  have "ops_inv ?t" by (intro ops_inv_step ops_inv_new)
  moreover have "ops_get_owned ?t ''a'' None = Some 1" by (simp add: ops_defs)
  ultimately show ?thesis
    using ops_owner_isolation [of ?t None "[OpsInsert ''a'' (Some ''o'') 2, OpsClaimOwned ''a'' (Some ''o'')]" "''a''"]
    by simp
qed

text \<open>
  Recent results stay bounded and ordered. Under a monotonic clock every sequence of records,
  lookups, listings and prunes keeps at most \<open>limit\<close> results, one per ID, in timestamp order, so
  that the binary search of \<open>prune\<close> is always applied to a queue it is defined on.
\<close>

lemma recent_run_bounded:
  "case fold recent_step cs (t0, recent_new lim ttl) of (t, r) \<Rightarrow>
     length (entries r) \<le> lim \<and> distinct (map fin_id (entries r)) \<and> sorted (map fin_recorded (entries r))
     \<and> partitioned (expired_at now d) (entries r)"
proof -
  obtain t r where s: "fold recent_step cs (t0, recent_new lim ttl) = (t, r)" by fastforce
  have init: "recent_inv (t0, recent_new lim ttl)"
    by (simp add: recent_inv_def recent_new_def entries_ok_def)
  have inv: "recent_inv (t, r)" using recent_machine.run_inv [OF init, of cs] by (simp add: s)
  have "length (entries r) \<le> lim"
    using recent_machine.run_load [OF init, of cs] by (simp add: s) (simp add: recent_new_def)
  with inv expired_partitioned [OF inv, of now d] s show ?thesis
    by (simp add: recent_inv_def entries_ok_def)
qed

text \<open>
  A recorded result is found until it expires. After \<open>record\<close>, the result is returned to its
  owner, and to no other, for exactly the retention time; recording replaces an earlier result of
  the same ID, and the eviction of the oldest results never removes the new one.
\<close>

lemma recent_record_lookup:
  assumes "recent_inv (t, r)" "0 < limit r"
  shows "fst (recent_get_owned (t + dt + dt') rid owner' (recent_record (t + dt) rid owner v r)) =
    (if owner' = owner \<and> (case retention r of None \<Rightarrow> True | Some ttl \<Rightarrow> dt' < ttl) then Some v else None)"
proof -
  let ?e = "\<lparr>fin_id = rid, fin_owner = owner, fin_value = v, fin_recorded = t + dt\<rparr>"
  let ?kept = "filter (\<lambda>e. fin_id e \<noteq> rid) (entries (recent_prune (t + dt) r))"
  let ?r = "recent_record (t + dt) rid owner v r"
  let ?n = "length ?kept + 1 - limit r"
  have ent: "entries ?r = drop ?n ?kept @ [?e]"
    using assms(2) by (simp add: recent_record_def Let_def pop_excess_drop)
  have ret: "retention ?r = retention r" by (simp add: recent_record_def Let_def)
  have other: "fin_id e \<noteq> rid" if "e \<in> set (drop ?n ?kept)" for e
    using in_set_dropD [OF that] by simp
  have find_old: "List.find (\<lambda>e. fin_id e = rid \<and> fin_owner e = owner') (filter P (drop ?n ?kept) @ xs)
      = List.find (\<lambda>e. fin_id e = rid \<and> fin_owner e = owner') xs" for P xs
  proof (rule find_append_absent)
    fix x assume "x \<in> set (filter P (drop ?n ?kept))"
    then have "x \<in> set (drop ?n ?kept)" by simp
    then have "fin_id x \<noteq> rid" by (rule other)
    then show "\<not> (fin_id x = rid \<and> fin_owner x = owner')" by simp
  qed
  show ?thesis
  proof (cases "retention r")
    case None
    then show ?thesis
      using find_old [of "\<lambda>_. True" "[?e]"]
      by (simp only: filter_True simp_thms recent_get_owned_def Let_def recent_prune_def [of _ ?r] ret ent
          option.case fst_conv) simp
  next
    case (Some ttl)
    have inv: "recent_inv (t + dt, ?r)" using assms(1) by (rule recent_inv_record)
    let ?P = "\<lambda>e. \<not> expired_at (t + dt + dt') ttl e"
    have "entries (recent_prune (t + dt + dt') ?r) = filter ?P (drop ?n ?kept) @ filter ?P [?e]"
      using prune_filter [OF inv, of ttl] Some by (simp only: ret ent filter_append)
    then have "fst (recent_get_owned (t + dt + dt') rid owner' ?r)
        = map_option fin_value
            (List.find (\<lambda>e. fin_id e = rid \<and> fin_owner e = owner') (filter ?P [?e]))"
      by (simp only: recent_get_owned_def Let_def fst_conv find_old)
    with Some show ?thesis by (simp add: expired_at_def)
  qed
qed

theorem recent_record_lookup_witness:
  "fst (recent_get_owned (0 + 3 + 4) ''a'' None (recent_record (0 + 3) ''a'' None (7::nat) (recent_new 1 (Some 5)))) = Some 7"
  using recent_record_lookup [of 0 "recent_new 1 (Some 5) :: nat recent_results" 3 4 "''a''" None None 7]
  by (simp add: recent_inv_def recent_new_def entries_ok_def)

end
