(* ===== verification/Json_Value.thy ===== *)
theory Json_Value
  imports Prelude
begin

text \<open>
  JSON documents as the code handles them: \<open>serde_json::Value\<close> is a public enum of six variants
  and its \<open>Map\<close> (built without \<open>preserve_order\<close>) is a \<open>BTreeMap\<close>, so an object is an association
  list that insertion keeps sorted by key. Only data and the accessors the sources call are here;
  parsing and printing of JSON text belong to \<open>serde_json\<close> and are parameters where they are used.
\<close>

datatype jnumber = PosInt nat | NegInt int | FloatBits nat

datatype json =
    JNull
  | JBool bool
  | JNumber jnumber
  | JString ustring
  | JArray "json list"
  | JObject "(ustring \<times> json) list"

type_synonym jobject = "(ustring \<times> json) list"

text \<open>\<open>Map::insert\<close>: replace the value of a present key, else insert in key order.\<close>

fun obj_insert :: "ustring \<Rightarrow> 'v \<Rightarrow> (ustring \<times> 'v) list \<Rightarrow> (ustring \<times> 'v) list" where
  "obj_insert k v [] = [(k, v)]"
| "obj_insert k v ((k', v') # m) =
     (if k = k' then (k, v) # m
      else if k < k' then (k, v) # (k', v') # m
      else (k', v') # obj_insert k v m)"

definition obj_of :: "(ustring \<times> 'v) list \<Rightarrow> (ustring \<times> 'v) list" where
  "obj_of kvs = fold (\<lambda>(k, v). obj_insert k v) kvs []"

definition sorted_map :: "(ustring \<times> 'v) list \<Rightarrow> bool" where
  "sorted_map m \<longleftrightarrow> sorted_wrt (<) (map fst m)"

lemma map_of_obj_insert [simp]: "map_of (obj_insert k v m) x = (if x = k then Some v else map_of m x)"
  by (induction k v m rule: obj_insert.induct) auto

lemma keys_obj_insert [simp]: "fst ` set (obj_insert k v m) = insert k (fst ` set m)"
  by (induction k v m rule: obj_insert.induct) auto

lemma sorted_map_insert [simp, intro]:
  assumes "sorted_map m"
  shows "sorted_map (obj_insert k v m)"
  using assms
proof (induction k v m rule: obj_insert.induct)
  case (1 k v)
  show ?case by (simp add: sorted_map_def)
next
  case (2 k v k' v' m)
  have "k' < x" if "k' < k" "x \<in> fst ` set (obj_insert k v m)" for x
    using that 2(2) by (auto simp: sorted_map_def)
  with 2 show ?case
    by (auto simp: sorted_map_def image_iff not_less order_le_less dest: order.strict_trans)
qed

lemma sorted_map_obj_of [simp, intro]: "sorted_map (obj_of kvs)"
proof -
  have "sorted_map (fold (\<lambda>(k, v). obj_insert k v) kvs m)" if "sorted_map m" for m
    using that by (induction kvs arbitrary: m) auto
  then show ?thesis by (simp add: obj_of_def sorted_map_def)
qed

lemma map_of_fold_insert:
  "map_of (fold (\<lambda>(k, v). obj_insert k v) kvs m) x
    = (case map_of (rev kvs) x of None \<Rightarrow> map_of m x | Some v \<Rightarrow> Some v)"
  by (induction kvs arbitrary: m) (auto simp: map_add_def split: option.splits)

lemma map_of_obj_of [simp]: "map_of (obj_of kvs) x = map_of (rev kvs) x"
  by (simp add: obj_of_def map_of_fold_insert split: option.splits)

section \<open>Accessors\<close>

fun as_str :: "json \<Rightarrow> ustring option" where
  "as_str (JString s) = Some s"
| "as_str _ = None"

fun as_bool :: "json \<Rightarrow> bool option" where
  "as_bool (JBool b) = Some b"
| "as_bool _ = None"

fun as_u64 :: "json \<Rightarrow> nat option" where
  "as_u64 (JNumber (PosInt n)) = Some n"
| "as_u64 _ = None"

fun as_array :: "json \<Rightarrow> json list option" where
  "as_array (JArray xs) = Some xs"
| "as_array _ = None"

fun as_object :: "json \<Rightarrow> jobject option" where
  "as_object (JObject m) = Some m"
| "as_object _ = None"

text \<open>\<open>value.get(key)\<close>, and \<open>value[key]\<close>, which reads a missing member as \<open>null\<close>.\<close>

fun json_get :: "ustring \<Rightarrow> json \<Rightarrow> json option" where
  "json_get k (JObject m) = map_of m k"
| "json_get k _ = None"

definition json_index :: "ustring \<Rightarrow> json \<Rightarrow> json" where
  "json_index k j = (case json_get k j of None \<Rightarrow> JNull | Some v \<Rightarrow> v)"

text \<open>\<open>value[key] = v\<close>: \<open>null\<close> becomes an object first; on any other non-object it panics.\<close>

fun json_set :: "ustring \<Rightarrow> json \<Rightarrow> json \<Rightarrow> json option" where
  "json_set k v (JObject m) = Some (JObject (obj_insert k v m))"
| "json_set k v JNull = Some (JObject [(k, v)])"
| "json_set k v _ = None"

text \<open>\<open>value.pointer("/a/b")\<close>, for tokens that are not array indices.\<close>

fun json_pointer :: "ustring list \<Rightarrow> json \<Rightarrow> json option" where
  "json_pointer [] j = Some j"
| "json_pointer (k # ks) j = Option.bind (json_get k j) (json_pointer ks)"

text \<open>\<open>json!({ ... })\<close>\<close>

definition jobj :: "(ustring \<times> json) list \<Rightarrow> json" where
  "jobj kvs = JObject (obj_of kvs)"

lemma json_get_jobj [simp]: "json_get k (jobj kvs) = map_of (rev kvs) k"
  by (simp add: jobj_def)

lemma json_set_jobj: "json_set k v (jobj kvs) = Some (jobj (kvs @ [(k, v)]))"
  by (simp add: jobj_def obj_of_def)

lemma json_get_set: "json_set k v j = Some j' \<Longrightarrow> json_get x j' = (if x = k then Some v else json_get x j)"
  by (induction k v j rule: json_set.induct) auto

end
