(* ===== verification/Jsonl_Wire.thy ===== *)
theory Jsonl_Wire
  imports Json_Value
begin

text \<open>
  \<open>shelllist-daemon-core/src/jsonl_wire.rs\<close>: the requests a bridge client sends, their routes, the
  validation applied before dispatch, and the records written back. Decoding a request from its
  JSON text is derived by \<open>serde\<close> and is not modelled.
\<close>

definition default_jsonl_request_bytes :: nat where
  "default_jsonl_request_bytes = 1024 * 1024"

definition max_jsonl_request_bytes :: nat where
  "max_jsonl_request_bytes = 128 * 1024 * 1024"

datatype client_request =
    Call (req_id: ustring) (call_method: ustring) (call_params: json)
  | Subscribe (req_id: ustring) (sub_streams: "ustring list")
  | Cancel (req_id: ustring) (cancel_request_id: ustring)
  | Release (req_id: ustring)
  | Shutdown (req_id: ustring)

datatype route_kind = RouteCall | RouteSubscription | RouteBaseSubscription | RouteControl

record client_route =
  consumer_id :: ustring
  local_id :: ustring
  generation :: nat
  kind :: route_kind

record client_message =
  request :: client_request
  route :: "client_route option"

datatype route_error = ReleaseNeedsRoute | BadIdentifierLength | KindMismatch

fun is_release :: "client_request \<Rightarrow> bool" where
  "is_release (Release _) = True"
| "is_release _ = False"

fun kind_matches :: "client_request \<Rightarrow> route_kind \<Rightarrow> bool" where
  "kind_matches (Call _ _ _) RouteCall = True"
| "kind_matches (Subscribe _ _) RouteSubscription = True"
| "kind_matches (Subscribe _ _) RouteBaseSubscription = True"
| "kind_matches (Cancel _ _) RouteControl = True"
| "kind_matches (Release _) RouteControl = True"
| "kind_matches _ _ = False"

definition validate :: "client_message \<Rightarrow> route_error + unit" where
  "validate m =
     (case route m of
        None \<Rightarrow> if is_release (request m) then err ReleaseNeedsRoute else ok ()
      | Some r \<Rightarrow>
          if \<not> (1 \<le> length (consumer_id r) \<and> length (consumer_id r) \<le> 256)
             \<or> \<not> (1 \<le> length (local_id r) \<and> length (local_id r) \<le> 1024)
          then err BadIdentifierLength
          else if kind_matches (request m) (kind r) then ok () else err KindMismatch)"

section \<open>Records written to the client\<close>

fun route_kind_json :: "route_kind \<Rightarrow> json" where
  "route_kind_json RouteCall = JString ''call''"
| "route_kind_json RouteSubscription = JString ''subscription''"
| "route_kind_json RouteBaseSubscription = JString ''base-subscription''"
| "route_kind_json RouteControl = JString ''control''"

definition route_json :: "client_route \<Rightarrow> json" where
  "route_json r = jobj [(''consumerId'', JString (consumer_id r)), (''localId'', JString (local_id r)),
     (''generation'', JNumber (PosInt (generation r))), (''kind'', route_kind_json (kind r))]"

text \<open>\<open>None\<close> is the panic of indexing into a message that is neither an object nor \<open>null\<close>.\<close>

definition addressed_message :: "json \<Rightarrow> client_route option \<Rightarrow> json option" where
  "addressed_message message r =
     (case r of None \<Rightarrow> Some message | Some rt \<Rightarrow> json_set ''route'' (route_json rt) message)"

definition response_message :: "ustring \<Rightarrow> json \<Rightarrow> json" where
  "response_message rid response =
     jobj [(''kind'', JString ''response''), (''id'', JString rid), (''ok'', JBool True), (''response'', response)]"

definition response_error_message :: "ustring \<Rightarrow> ustring \<Rightarrow> json" where
  "response_error_message rid e =
     jobj [(''kind'', JString ''response''), (''id'', JString rid), (''ok'', JBool False), (''error'', JString e)]"

definition event_record :: "ustring \<Rightarrow> json \<Rightarrow> json" where
  "event_record stream event =
     jobj [(''kind'', JString ''event''), (''stream'', JString stream), (''event'', event)]"

definition protocol_error_message :: "ustring \<Rightarrow> json" where
  "protocol_error_message e = jobj [(''kind'', JString ''protocol-error''), (''error'', JString e)]"

definition transport_error_message :: "ustring \<Rightarrow> json" where
  "transport_error_message e =
     jobj [(''kind'', JString ''transport-error''), (''outcome'', JString ''transport-generation-failure''),
       (''error'', JString e)]"

definition shutdown_message :: "ustring \<Rightarrow> json" where
  "shutdown_message rid = response_message rid (jobj [(''shutdown'', JBool True)])"

lemmas wire_defs [component_defs] =
  response_message_def response_error_message_def event_record_def protocol_error_message_def
  transport_error_message_def shutdown_message_def

text \<open>A route is added to a record built by \<open>json!\<close>, and never panics there.\<close>

lemma addressed_jobj:
  "addressed_message (jobj kvs) r =
     Some (jobj (kvs @ (case r of None \<Rightarrow> [] | Some rt \<Rightarrow> [(''route'', route_json rt)])))"
  by (simp add: addressed_message_def json_set_jobj split: option.split)

lemma addressed_get:
  "addressed_message m r = Some m' \<Longrightarrow> k \<noteq> ''route'' \<Longrightarrow> json_get k m' = json_get k m"
  by (auto simp: addressed_message_def json_get_set split: option.splits)

lemma route_json_inj: "route_json r = route_json s \<longleftrightarrow> r = s"
proof
  assume eq: "route_json r = route_json s"
  have "json_get k (route_json r) = json_get k (route_json s)" for k using eq by simp
  from this [of "''consumerId''"] this [of "''localId''"] this [of "''generation''"] this [of "''kind''"]
  have "consumer_id r = consumer_id s" "local_id r = local_id s" "generation r = generation s"
    "route_kind_json (kind r) = route_kind_json (kind s)"
    by (simp_all add: route_json_def)
  moreover from this(4) have "kind r = kind s"
    by (cases "kind r"; cases "kind s") auto
  ultimately show "r = s" by simp
qed simp

section \<open>Properties\<close>

text \<open>
  What validation admits. A routed message is accepted exactly when both identifiers are within
  their byte bounds and the route kind is the one of its operation; an unrouted message exactly
  when it is not a release. A routed shutdown is never accepted.
\<close>

lemma validate_accepts:
  "validate m = Inr () \<longleftrightarrow>
     (case route m of
        None \<Rightarrow> (\<forall>rid. request m \<noteq> Release rid)
      | Some r \<Rightarrow> length (consumer_id r) \<in> {1..256} \<and> length (local_id r) \<in> {1..1024}
          \<and> (case request m of
               Call _ _ _ \<Rightarrow> kind r = RouteCall
             | Subscribe _ _ \<Rightarrow> kind r = RouteSubscription \<or> kind r = RouteBaseSubscription
             | Cancel _ _ \<Rightarrow> kind r = RouteControl
             | Release _ \<Rightarrow> kind r = RouteControl
             | Shutdown _ \<Rightarrow> False))"
proof (cases "route m")
  case None
  then show ?thesis by (cases "request m") (simp_all add: validate_def)
next
  case (Some r)
  then show ?thesis by (cases "request m"; cases "kind r") (auto simp: validate_def)
qed

end
