(* ===== verification/Output_Actor.thy ===== *)
theory Output_Actor
  imports Jsonl_Wire
begin

text \<open>
  \<open>shelllist-daemon-tokio/src/output_actor.rs\<close>: the actor that owns a client's output stream. It
  correlates responses with the events of the operations and subscriptions they acknowledge: events
  that arrive before the acknowledgement are buffered, events of cancelled IDs are suppressed, and
  exhausting the buffer ends the transport.

  The correlation policy is the domain's trait object, a record of functions here. The writer is a
  parameter \<open>wr\<close>: \<open>wr out v\<close> says whether writing and flushing the record \<open>v\<close> succeeds after the
  records \<open>out\<close> have been written. A record is one JSON value; its encoding is \<open>serde_json\<close>'s.
\<close>

datatype tracked_kind = Operation | Subscription

record tracked_id =
  tr_id :: ustring
  tr_kind :: tracked_kind

record correlation_policy =
  operation_id :: "json \<Rightarrow> ustring option"
  response_id :: "json \<Rightarrow> tracked_id option"
  event_id :: "ustring \<Rightarrow> json \<Rightarrow> ustring option"
  is_terminal :: "ustring \<Rightarrow> json \<Rightarrow> bool"

text \<open>The trait's default methods: an operation ID takes precedence over the subscription ID.\<close>

definition default_response_id :: "(json \<Rightarrow> ustring option) \<Rightarrow> json \<Rightarrow> tracked_id option" where
  "default_response_id op_id response =
     (case op_id response of
        Some i \<Rightarrow> Some \<lparr>tr_id = i, tr_kind = Operation\<rparr>
      | None \<Rightarrow>
          (case Option.bind (json_pointer [''data'', ''subscription'', ''id''] response) as_str of
             Some i \<Rightarrow> Some \<lparr>tr_id = i, tr_kind = Subscription\<rparr>
           | None \<Rightarrow> None))"

definition default_event_id :: "ustring \<Rightarrow> json \<Rightarrow> ustring option" where
  "default_event_id stream event = Option.bind (json_get ''subscription_id'' event) as_str"

definition basic_correlation :: correlation_policy where
  "basic_correlation =
     \<lparr>operation_id = (\<lambda>_. None), response_id = default_response_id (\<lambda>_. None),
      event_id = default_event_id, is_terminal = (\<lambda>_ _. False)\<rparr>"

datatype output_command =
    RequestError ustring ustring ustring "client_route option"
  | Response ustring "ustring + json" "ustring option" "client_route option"
  | ActiveIds "(ustring \<times> nat) option"
  | Cancelled ustring
  | Event ustring json
  | ProtocolError ustring
  | TransportError ustring
  | ResetCorrelation
  | OutShutdown ustring

type_synonym pending_event = "ustring \<times> ustring \<times> json"

record output_state =
  policy :: correlation_policy
  active_ids :: "client_route option hash_map"
  pending_events :: "pending_event list"
  suppressed_ids :: "ustring set"
  suppressed_order :: "ustring list"
  pending_limit :: nat

datatype actor_error = CapacityExhausted | WriteFailed | IndexPanic

definition output_new :: "correlation_policy \<Rightarrow> nat \<Rightarrow> output_state" where
  "output_new p lim = \<lparr>policy = p, active_ids = [], pending_events = [], suppressed_ids = {},
     suppressed_order = [], pending_limit = lim\<rparr>"

section \<open>State operations\<close>

definition take_pending :: "ustring \<Rightarrow> output_state \<Rightarrow> pending_event list \<times> output_state" where
  "take_pending i s =
     (filter (\<lambda>(e, _, _). e = i) (pending_events s),
      s\<lparr>pending_events := filter (\<lambda>(e, _, _). e \<noteq> i) (pending_events s)\<rparr>)"

definition activate ::
  "tracked_id option \<Rightarrow> client_route option \<Rightarrow> output_state \<Rightarrow> pending_event list \<times> output_state"
where
  "activate tracked rt s =
     (case tracked of
        None \<Rightarrow> ([], s)
      | Some t \<Rightarrow>
          if tr_id t \<in> suppressed_ids s then ([], s)
          else
            let (pending, s1) = take_pending (tr_id t) s;
                current = (case map_of (active_ids s1) (tr_id t) of Some r \<Rightarrow> r | None \<Rightarrow> None);
                updated = (case rt of
                    Some r \<Rightarrow> if tr_kind t = Subscription then Some r else current
                  | None \<Rightarrow> current)
            in (pending, s1\<lparr>active_ids := AList.update (tr_id t) updated (active_ids s1)\<rparr>))"

definition buffer :: "ustring \<Rightarrow> ustring \<Rightarrow> json \<Rightarrow> output_state \<Rightarrow> actor_error + output_state" where
  "buffer i stream event s =
     (if length (pending_events s) < pending_limit s
      then ok (s\<lparr>pending_events := pending_events s @ [(i, stream, event)]\<rparr>)
      else err CapacityExhausted)"

definition suppress :: "ustring \<Rightarrow> output_state \<Rightarrow> output_state" where
  "suppress i s =
     (if pending_limit s = 0 \<or> i \<in> suppressed_ids s then s
      else
        let s1 = s\<lparr>suppressed_ids := insert i (suppressed_ids s)\<rparr>;
            s2 = (if pending_limit s1 \<le> length (suppressed_order s1)
                  then (case suppressed_order s1 of
                      oldest # rest \<Rightarrow> s1\<lparr>suppressed_order := rest, suppressed_ids := suppressed_ids s1 - {oldest}\<rparr>
                    | [] \<Rightarrow> s1)
                  else s1)
        in s2\<lparr>suppressed_order := suppressed_order s2 @ [i]\<rparr>)"

definition cancelled :: "ustring \<Rightarrow> output_state \<Rightarrow> output_state" where
  "cancelled i s =
     suppress i (s\<lparr>active_ids := AList.delete i (active_ids s),
       pending_events := filter (\<lambda>(e, _, _). e \<noteq> i) (pending_events s)\<rparr>)"

definition active_id_list :: "output_state \<Rightarrow> ustring list" where
  "active_id_list s = sort (map fst (active_ids s))"

definition owned_ids :: "ustring \<Rightarrow> nat \<Rightarrow> output_state \<Rightarrow> ustring list" where
  "owned_ids consumer gen s =
     map fst (filter (\<lambda>(_, r). case r of Some rt \<Rightarrow> consumer_id rt = consumer \<and> generation rt = gen
                                        | None \<Rightarrow> False) (active_ids s))"

text \<open>The route of the event's own subscription, read before a terminal event is cancelled.\<close>

definition event_route :: "json \<Rightarrow> output_state \<Rightarrow> client_route option" where
  "event_route event s =
     (case Option.bind (json_get ''subscription_id'' event) as_str of
        Some i \<Rightarrow> (case map_of (active_ids s) i of Some r \<Rightarrow> r | None \<Rightarrow> None)
      | None \<Rightarrow> None)"

definition event_message ::
  "ustring \<Rightarrow> json \<Rightarrow> ustring option \<Rightarrow> output_state \<Rightarrow> (actor_error + json) \<times> output_state"
where
  "event_message stream event i s =
     (let terminal = (case i of Some x \<Rightarrow> if is_terminal (policy s) stream event then Some x else None
                              | None \<Rightarrow> None)
      in case addressed_message (event_record stream event) (event_route event s) of
           None \<Rightarrow> (err IndexPanic, s)
         | Some message \<Rightarrow>
             (ok message, (case terminal of Some x \<Rightarrow> cancelled x s | None \<Rightarrow> s)))"

definition accept_event ::
  "ustring option \<Rightarrow> ustring \<Rightarrow> json \<Rightarrow> output_state \<Rightarrow> (actor_error + json option) \<times> output_state"
where
  "accept_event i stream event s =
     (let deliver = (case event_message stream event i s of
                         (Inl e, s') \<Rightarrow> (err e, s')
                       | (Inr m, s') \<Rightarrow> (ok (Some m), s'))
      in case i of
           None \<Rightarrow> deliver
         | Some x \<Rightarrow>
             if x \<in> suppressed_ids s then (ok None, s)
             else if map_of (active_ids s) x = None
             then (case buffer x stream event s of Inl e \<Rightarrow> (err e, s) | Inr s' \<Rightarrow> (ok None, s'))
             else deliver)"

definition reset_correlation :: "output_state \<Rightarrow> output_state" where
  "reset_correlation s =
     s\<lparr>active_ids := [], pending_events := [], suppressed_ids := {}, suppressed_order := []\<rparr>"

lemmas output_state_defs [component_defs] =
  take_pending_def activate_def buffer_def suppress_def cancelled_def event_message_def accept_event_def
  reset_correlation_def

section \<open>Commands\<close>

text \<open>
  The actor: the records written so far, the ID lists it replied with, and its state. A command
  that fails ends the actor, so nothing is processed after an error.
\<close>

record actor =
  written :: "json list"
  replies :: "ustring list list"
  ostate :: output_state

type_synonym line_writer = "json list \<Rightarrow> json \<Rightarrow> bool"

definition emit_line :: "line_writer \<Rightarrow> json \<Rightarrow> actor \<Rightarrow> (actor_error + unit) \<times> actor" where
  "emit_line wr v a = (if wr (written a) v then (ok (), a\<lparr>written := written a @ [v]\<rparr>) else (err WriteFailed, a))"

fun emit_pending :: "line_writer \<Rightarrow> pending_event list \<Rightarrow> actor \<Rightarrow> (actor_error + unit) \<times> actor" where
  "emit_pending wr [] a = (ok (), a)"
| "emit_pending wr ((i, stream, event) # rest) a =
     (case accept_event (Some i) stream event (ostate a) of
        (Inl e, s') \<Rightarrow> (err e, a\<lparr>ostate := s'\<rparr>)
      | (Inr None, s') \<Rightarrow> emit_pending wr rest (a\<lparr>ostate := s'\<rparr>)
      | (Inr (Some m), s') \<Rightarrow>
          (case emit_line wr m (a\<lparr>ostate := s'\<rparr>) of
             (Inl e, a') \<Rightarrow> (err e, a')
           | (Inr _, a') \<Rightarrow> emit_pending wr rest a'))"

definition emit_response ::
  "line_writer \<Rightarrow> ustring \<Rightarrow> ustring + json \<Rightarrow> ustring option \<Rightarrow> client_route option \<Rightarrow> actor
    \<Rightarrow> (actor_error + unit) \<times> actor"
where
  "emit_response wr rid result cancelled_request_id rt a =
     (let s1 = (case cancelled_request_id of Some c \<Rightarrow> cancelled c (ostate a) | None \<Rightarrow> ostate a);
          (line, tracked) = (case result of
              Inr response \<Rightarrow> (response_message rid response, response_id (policy s1) response)
            | Inl e \<Rightarrow> (response_error_message rid e, None))
      in case addressed_message line rt of
           None \<Rightarrow> (err IndexPanic, a\<lparr>ostate := s1\<rparr>)
         | Some line' \<Rightarrow>
             let (pending, s2) = activate tracked rt s1
             in case emit_line wr line' (a\<lparr>ostate := s2\<rparr>) of
                  (Inl e, a') \<Rightarrow> (err e, a')
                | (Inr _, a') \<Rightarrow> emit_pending wr pending a')"

definition emit_message :: "line_writer \<Rightarrow> json option \<Rightarrow> actor \<Rightarrow> (actor_error + unit) \<times> actor" where
  "emit_message wr m a = (case m of None \<Rightarrow> (ok (), a) | Some v \<Rightarrow> emit_line wr v a)"

text \<open>The text of the logical overflow, as the anyhow error prints it.\<close>

definition overflow_text :: ustring where
  "overflow_text = ''pre-acknowledgement event capacity exhausted; reconnect and reconcile state''"

fun emit_command :: "line_writer \<Rightarrow> output_command \<Rightarrow> actor \<Rightarrow> (actor_error + unit) \<times> actor" where
  "emit_command wr (RequestError rid outcome message rt) a =
     (case json_set ''outcome'' (JString outcome) (response_error_message rid message) of
        None \<Rightarrow> (err IndexPanic, a)
      | Some m \<Rightarrow> (case addressed_message m rt of
            None \<Rightarrow> (err IndexPanic, a)
          | Some m' \<Rightarrow> emit_line wr m' a))"
| "emit_command wr (Response rid result cancelled_request_id rt) a =
     emit_response wr rid result cancelled_request_id rt a"
| "emit_command wr (ActiveIds owner) a =
     (let ids = (case owner of None \<Rightarrow> active_id_list (ostate a)
                             | Some (consumer, gen) \<Rightarrow> owned_ids consumer gen (ostate a))
      in (ok (), a\<lparr>replies := replies a @ [ids]\<rparr>))"
| "emit_command wr (Cancelled i) a = (ok (), a\<lparr>ostate := cancelled i (ostate a)\<rparr>)"
| "emit_command wr (Event stream event) a =
     (case accept_event (event_id (policy (ostate a)) stream event) stream event (ostate a) of
        (Inr m, s') \<Rightarrow> emit_message wr m (a\<lparr>ostate := s'\<rparr>)
      | (Inl IndexPanic, s') \<Rightarrow> (err IndexPanic, a\<lparr>ostate := s'\<rparr>)
      | (Inl e, s') \<Rightarrow>
          (case emit_line wr (transport_error_message overflow_text) (a\<lparr>ostate := s'\<rparr>) of
             (Inl e', a') \<Rightarrow> (err e', a')
           | (Inr _, a') \<Rightarrow> (err e, a')))"
| "emit_command wr (ProtocolError e) a = emit_line wr (protocol_error_message e) a"
| "emit_command wr (TransportError e) a = emit_line wr (transport_error_message e) a"
| "emit_command wr ResetCorrelation a = (ok (), a\<lparr>ostate := reset_correlation (ostate a)\<rparr>)"
| "emit_command wr (OutShutdown rid) a = emit_line wr (shutdown_message rid) a"

text \<open>
  The loop over the two queues, \<open>biased\<close> towards the priority one. Between two commands the senders
  may enqueue more: \<open>arrivals\<close> lists what reaches each queue before each turn. The loop ends when
  both queues are empty and closed, or with the first error.
\<close>

type_synonym queues = "output_command list \<times> output_command list"

fun pick :: "queues \<Rightarrow> (output_command \<times> queues) option" where
  "pick (c # ps, es) = Some (c, (ps, es))"
| "pick ([], c # es) = Some (c, ([], es))"
| "pick ([], []) = None"

fun drain_queues :: "line_writer \<Rightarrow> nat \<Rightarrow> queues \<Rightarrow> actor \<Rightarrow> (actor_error + unit) \<times> actor" where
  "drain_queues wr 0 q a = (ok (), a)"
| "drain_queues wr (Suc n) q a =
     (case pick q of
        None \<Rightarrow> (ok (), a)
      | Some (c, q') \<Rightarrow>
          (case emit_command wr c a of
             (Inl e, a') \<Rightarrow> (err e, a')
           | (Inr _, a') \<Rightarrow> drain_queues wr n q' a'))"

fun run_output_actor :: "line_writer \<Rightarrow> queues list \<Rightarrow> queues \<Rightarrow> actor \<Rightarrow> (actor_error + unit) \<times> actor" where
  "run_output_actor wr [] q a = drain_queues wr (length (fst q) + length (snd q)) q a"
| "run_output_actor wr ((ps, es) # arrivals) q a =
     (case pick (fst q @ ps, snd q @ es) of
        None \<Rightarrow> run_output_actor wr arrivals q a
      | Some (c, q') \<Rightarrow>
          (case emit_command wr c a of
             (Inl e, a') \<Rightarrow> (err e, a')
           | (Inr _, a') \<Rightarrow> run_output_actor wr arrivals q' a'))"

section \<open>The correlation invariant\<close>

text \<open>
  The two bounded queues respect the limit; the suppression set and its eviction order agree; an ID
  is in at most one of the three places: acknowledged, buffered, suppressed.
\<close>

definition out_inv :: "output_state \<Rightarrow> bool" where
  "out_inv s \<longleftrightarrow> map_ok (active_ids s)
     \<and> suppressed_ids s = set (suppressed_order s) \<and> distinct (suppressed_order s)
     \<and> length (suppressed_order s) \<le> pending_limit s \<and> length (pending_events s) \<le> pending_limit s
     \<and> fst ` set (pending_events s) \<inter> (dom (map_of (active_ids s)) \<union> suppressed_ids s) = {}
     \<and> dom (map_of (active_ids s)) \<inter> suppressed_ids s = {}"

lemma out_inv_new [component_inv]: "out_inv (output_new p lim)"
  by (simp add: out_inv_def output_new_def)

lemma out_inv_active_pending:
  "out_inv s \<Longrightarrow> map_of (active_ids s) i \<noteq> None \<Longrightarrow> filter (\<lambda>(e, _, _). e = i) (pending_events s) = []"
  by (force simp: out_inv_def filter_empty_conv)

lemma filter_pending_le: "out_inv s \<Longrightarrow> length (filter P (pending_events s)) \<le> pending_limit s"
  unfolding out_inv_def using length_filter_le [of P "pending_events s"] by linarith

lemma out_inv_suppress [component_inv]:
  assumes "out_inv s" "map_of (active_ids s) i = None" "i \<notin> fst ` set (pending_events s)"
  shows "out_inv (suppress i s)"
proof (cases "pending_limit s = 0 \<or> i \<in> suppressed_ids s")
  case True
  with assms show ?thesis by (auto simp: suppress_def)
next
  case False
  with assms show ?thesis
    by (cases "suppressed_order s") (auto simp: suppress_def out_inv_def Let_def)
qed

lemma suppress_frame [simp]:
  "active_ids (suppress i s) = active_ids s" "pending_events (suppress i s) = pending_events s"
  "pending_limit (suppress i s) = pending_limit s" "policy (suppress i s) = policy s"
  by (auto simp: suppress_def Let_def split: list.splits)

lemma out_inv_cancelled [component_inv]:
  assumes "out_inv s"
  shows "out_inv (cancelled i s)"
  unfolding cancelled_def
proof (rule out_inv_suppress)
  have "length (filter P (pending_events s)) \<le> pending_limit s" for P
    by (rule filter_pending_le) (use assms in auto)
  then show "out_inv (s\<lparr>active_ids := AList.delete i (active_ids s),
      pending_events := filter (\<lambda>(e, _, _). e \<noteq> i) (pending_events s)\<rparr>)"
    using assms by (fastforce simp: out_inv_def dom_def)
qed (auto simp: image_iff)

lemma out_inv_take [component_inv]:
  assumes "out_inv s" "i \<notin> suppressed_ids s"
  shows "out_inv ((snd (take_pending i s))\<lparr>active_ids := AList.update i r (active_ids s)\<rparr>)"
proof -
  have "length (filter P (pending_events s)) \<le> pending_limit s" for P
    by (rule filter_pending_le) (use assms in auto)
  then show ?thesis
    using assms by (fastforce simp: out_inv_def take_pending_def dom_def)
qed

lemma out_inv_activate [component_inv]: "out_inv s \<Longrightarrow> out_inv (snd (activate tracked rt s))"
  using out_inv_take [of s]
  by (auto simp: activate_def Let_def take_pending_def split: option.splits)

lemma out_inv_event_message [component_inv]:
  "out_inv s \<Longrightarrow> out_inv (snd (event_message stream event i s))"
  by (auto simp: event_message_def Let_def out_inv_cancelled split: option.splits)

lemma out_inv_accept [component_inv]: "out_inv s \<Longrightarrow> out_inv (snd (accept_event i stream event s))"
  using out_inv_event_message [of s stream event i]
  by (auto simp: accept_event_def Let_def buffer_def split: option.splits sum.splits prod.splits)
    (auto simp: out_inv_def split: if_splits)

lemma out_inv_reset [component_inv]: "out_inv (reset_correlation s)"
  by (simp add: out_inv_def reset_correlation_def)

text \<open>
  Normal forms. A record built by \<open>json!\<close> takes a route without a panic, so an event that passes is
  delivered as \<open>event_line\<close>, and the writer's two outcomes are one condition.
\<close>

definition event_line :: "ustring \<Rightarrow> json \<Rightarrow> output_state \<Rightarrow> json" where
  "event_line stream event s =
     jobj ([(''kind'', JString ''event''), (''stream'', JString stream), (''event'', event)]
       @ (case event_route event s of None \<Rightarrow> [] | Some rt \<Rightarrow> [(''route'', route_json rt)]))"

definition after_event :: "ustring \<Rightarrow> json \<Rightarrow> ustring option \<Rightarrow> output_state \<Rightarrow> output_state" where
  "after_event stream event i s =
     (case i of Some x \<Rightarrow> if is_terminal (policy s) stream event then cancelled x s else s | None \<Rightarrow> s)"

lemma event_message_eq:
  "event_message stream event i s = (Inr (event_line stream event s), after_event stream event i s)"
  by (simp add: event_message_def event_record_def addressed_jobj event_line_def after_event_def
      split: option.split)

lemma accept_event_eq:
  "accept_event i stream event s =
     (case i of
        None \<Rightarrow> (Inr (Some (event_line stream event s)), after_event stream event i s)
      | Some x \<Rightarrow>
          if x \<in> suppressed_ids s then (Inr None, s)
          else if map_of (active_ids s) x = None then
            (if length (pending_events s) < pending_limit s
             then (Inr None, s\<lparr>pending_events := pending_events s @ [(x, stream, event)]\<rparr>)
             else (Inl CapacityExhausted, s))
          else (Inr (Some (event_line stream event s)), after_event stream event i s))"
  by (auto simp: accept_event_def event_message_eq Let_def buffer_def split: option.split)

lemma emit_line_cases [simp]:
  "(case emit_line wr v a of (Inl e, a') \<Rightarrow> f e a' | (Inr u, a') \<Rightarrow> g u a') =
     (if wr (written a) v then g () (a\<lparr>written := written a @ [v]\<rparr>) else f WriteFailed a)"
  by (simp add: emit_line_def)

lemma ostate_line [simp]: "ostate (snd (emit_line wr v a)) = ostate a"
  by (simp add: emit_line_def)

lemma out_inv_pending [component_inv]:
  "out_inv (ostate a) \<Longrightarrow> out_inv (ostate (snd (emit_pending wr evs a)))"
proof (induction wr evs a rule: emit_pending.induct)
  case (1 wr a)
  then show ?case by simp
next
  case (2 wr i stream event rest a)
  obtain r s' where acc: "accept_event (Some i) stream event (ostate a) = (r, s')" by fastforce
  have s': "out_inv s'" using out_inv_accept [OF 2(3), of "Some i" stream event] acc by simp
  show ?case
  proof (cases r)
    case (Inl e)
    with acc s' show ?thesis by simp
  next
    case (Inr m)
    then show ?thesis
      using 2(1) [OF acc [symmetric] Inr] 2(2) [OF acc [symmetric] Inr] acc s'
      by (cases m) (auto simp: emit_line_def)
  qed
qed

definition response_line :: "ustring \<Rightarrow> ustring + json \<Rightarrow> client_route option \<Rightarrow> json" where
  "response_line rid result rt =
     jobj ([(''kind'', JString ''response''), (''id'', JString rid)]
       @ (case result of Inr r \<Rightarrow> [(''ok'', JBool True), (''response'', r)]
                       | Inl e \<Rightarrow> [(''ok'', JBool False), (''error'', JString e)])
       @ (case rt of None \<Rightarrow> [] | Some r \<Rightarrow> [(''route'', route_json r)]))"

definition after_cancel :: "ustring option \<Rightarrow> output_state \<Rightarrow> output_state" where
  "after_cancel c s = (case c of Some x \<Rightarrow> cancelled x s | None \<Rightarrow> s)"

definition tracked_of :: "correlation_policy \<Rightarrow> ustring + json \<Rightarrow> tracked_id option" where
  "tracked_of p result = (case result of Inr r \<Rightarrow> response_id p r | Inl _ \<Rightarrow> None)"

lemma emit_response_eq:
  "emit_response wr rid result c rt a =
     (let s1 = after_cancel c (ostate a);
          act = activate (tracked_of (policy s1) result) rt s1;
          line = response_line rid result rt
      in if wr (written a) line
         then emit_pending wr (fst act) (a\<lparr>ostate := snd act, written := written a @ [line]\<rparr>)
         else (Inl WriteFailed, a\<lparr>ostate := snd act\<rparr>))"
  by (cases result)
    (simp_all add: emit_response_def response_message_def response_error_message_def addressed_jobj
      response_line_def after_cancel_def tracked_of_def Let_def split_beta emit_line_def)

lemma out_inv_response [component_inv]:
  assumes "out_inv (ostate a)"
  shows "out_inv (ostate (snd (emit_response wr rid result c rt a)))"
proof -
  have "out_inv (after_cancel c (ostate a))"
    using assms by (simp add: after_cancel_def out_inv_cancelled split: option.split)
  then show ?thesis
    by (simp add: emit_response_eq Let_def out_inv_activate out_inv_pending)
qed

lemma emit_event_eq:
  "emit_command wr (Event stream event) a =
     (case accept_event (event_id (policy (ostate a)) stream event) stream event (ostate a) of
        (Inr None, s') \<Rightarrow> (Inr (), a\<lparr>ostate := s'\<rparr>)
      | (Inr (Some m), s') \<Rightarrow> emit_line wr m (a\<lparr>ostate := s'\<rparr>)
      | (Inl e, s') \<Rightarrow>
          (if wr (written a) (transport_error_message overflow_text)
           then (Inl CapacityExhausted, a\<lparr>written := written a @ [transport_error_message overflow_text]\<rparr>)
           else (Inl WriteFailed, a)))"
  by (simp add: accept_event_eq emit_message_def split: option.split)

lemma out_inv_command [component_inv]:
  assumes "out_inv (ostate a)"
  shows "out_inv (ostate (snd (emit_command wr c a)))"
proof (cases c)
  case (RequestError rid outcome message rt)
  then show ?thesis using assms by (simp split: option.split)
next
  case (Event stream event)
  obtain r s' where acc: "accept_event (event_id (policy (ostate a)) stream event) stream event (ostate a) = (r, s')"
    by fastforce
  then have "out_inv s'" using out_inv_accept [OF assms] by (metis snd_conv)
  with assms show ?thesis
    unfolding Event emit_event_eq acc by (simp split: sum.split option.split)
qed (use assms in \<open>simp_all add: out_inv_response out_inv_cancelled out_inv_reset Let_def\<close>)

interpretation out_machine: step_invariant "\<lambda>c a. snd (emit_command wr c a)" "\<lambda>a. out_inv (ostate a)" for wr
  by unfold_locales (rule out_inv_command)

text \<open>The policy and the limit are fixed at construction.\<close>

definition same_config :: "output_state \<Rightarrow> output_state \<Rightarrow> bool" where
  "same_config s s' \<longleftrightarrow> policy s' = policy s \<and> pending_limit s' = pending_limit s"

lemma same_config_refl [simp]: "same_config s s"
  by (simp add: same_config_def)

lemma same_config_trans: "same_config s t \<Longrightarrow> same_config t u \<Longrightarrow> same_config s u"
  by (simp add: same_config_def)

lemma same_config_cancelled [simp]: "same_config s (cancelled i s)"
  by (simp add: same_config_def cancelled_def)

lemma same_config_accept: "accept_event i stream event s = (r, s') \<Longrightarrow> same_config s s'"
  by (auto simp: accept_event_eq after_event_def same_config_def cancelled_def split: option.splits if_splits)

lemma same_config_activate [simp]: "same_config s (snd (activate tracked rt s))"
  by (simp add: activate_def take_pending_def same_config_def split: option.split)

lemma same_config_pending: "same_config (ostate a) (ostate (snd (emit_pending wr evs a)))"
proof (induction evs arbitrary: a)
  case Nil
  show ?case by simp
next
  case (Cons p rest)
  obtain i stream event where p: "p = (i, stream, event)" by (cases p)
  obtain r s' where acc: "accept_event (Some i) stream event (ostate a) = (r, s')" by fastforce
  have s': "same_config (ostate a) s'" using acc by (rule same_config_accept)
  have none: "same_config s' (ostate (snd (emit_pending wr rest (a\<lparr>ostate := s'\<rparr>))))"
    using Cons.IH [of "a\<lparr>ostate := s'\<rparr>"] by simp
  have some: "same_config s' (ostate (snd (emit_pending wr rest (a\<lparr>ostate := s', written := w\<rparr>))))" for w
    using Cons.IH [of "a\<lparr>ostate := s', written := w\<rparr>"] by simp
  show ?case
    using s' same_config_trans [OF s' none] same_config_trans [OF s' some]
    by (simp add: p acc split: sum.split option.split)
qed

lemma same_config_response: "same_config (ostate a) (ostate (snd (emit_response wr rid result c rt a)))"
proof -
  let ?s1 = "after_cancel c (ostate a)"
  define s2 where "s2 = snd (activate (tracked_of (policy ?s1) result) rt ?s1)"
  have "same_config (ostate a) ?s1" by (simp add: after_cancel_def split: option.split)
  moreover have "same_config ?s1 s2" unfolding s2_def by (rule same_config_activate)
  ultimately have act: "same_config (ostate a) s2" by (rule same_config_trans)
  have "same_config s2 (ostate (snd (emit_pending wr evs (a\<lparr>ostate := s2, written := w\<rparr>))))" for evs w
    using same_config_pending [of "a\<lparr>ostate := s2, written := w\<rparr>" wr evs] by simp
  from same_config_trans [OF act this] act show ?thesis
    unfolding emit_response_eq Let_def s2_def [symmetric] by simp
qed

lemma same_config_command: "same_config (ostate a) (ostate (snd (emit_command wr c a)))"
proof (cases c)
  case (Event stream event)
  obtain r s' where acc: "accept_event (event_id (policy (ostate a)) stream event) stream event (ostate a) = (r, s')"
    by fastforce
  then have "same_config (ostate a) s'" by (rule same_config_accept)
  then show ?thesis
    unfolding Event emit_event_eq acc by (simp split: sum.split option.split)
next
  case (RequestError rid outcome message rt)
  then show ?thesis by (simp split: option.split)
next
  case (Response rid result c rt)
  then show ?thesis by (simp add: same_config_response)
qed (simp_all add: Let_def reset_correlation_def same_config_def cancelled_def)

section \<open>Runs\<close>

text \<open>The commands the actor takes, in the order it takes them, up to the first error.\<close>

fun run_commands :: "line_writer \<Rightarrow> output_command list \<Rightarrow> actor \<Rightarrow> (actor_error + unit) \<times> actor" where
  "run_commands wr [] a = (ok (), a)"
| "run_commands wr (c # cs) a =
     (case emit_command wr c a of
        (Inl e, a') \<Rightarrow> (err e, a')
      | (Inr _, a') \<Rightarrow> run_commands wr cs a')"

definition actor_new :: "correlation_policy \<Rightarrow> nat \<Rightarrow> actor" where
  "actor_new p lim = \<lparr>written = [], replies = [], ostate = output_new p lim\<rparr>"

lemma run_commands_keeps:
  assumes "\<And>c a. P a \<Longrightarrow> P (snd (emit_command wr c a))" "P a"
  shows "P (snd (run_commands wr cs a))"
  using assms(2)
proof (induction cs arbitrary: a)
  case Nil
  then show ?case by simp
next
  case (Cons c cs)
  obtain r a' where e: "emit_command wr c a = (r, a')" by fastforce
  then have "P a'" using assms(1) [OF Cons.prems, of c] by simp
  with Cons.IH e show ?case by (simp split: sum.split)
qed

lemma drain_queues_commands:
  "length ps + length es \<le> n \<Longrightarrow> drain_queues wr n (ps, es) a = run_commands wr (ps @ es) a"
proof (induction n arbitrary: ps es a)
  case 0
  then show ?case by simp
next
  case (Suc n)
  show ?case
  proof (cases ps)
    case Nil
    then show ?thesis using Suc.IH [of "[]" "tl es"] Suc.prems
      by (cases es) (simp_all split: prod.split sum.split)
  next
    case (Cons c cs)
    then show ?thesis using Suc.IH [of cs es] Suc.prems
      by (simp split: prod.split sum.split)
  qed
qed

text \<open>
  The order in which the loop takes the commands. It does not depend on what the commands do, it
  keeps the order within each queue, and it takes an event only when no priority command waits.
\<close>

fun schedule :: "queues list \<Rightarrow> queues \<Rightarrow> output_command list" where
  "schedule [] q = fst q @ snd q"
| "schedule ((ps, es) # arrivals) q =
     (case pick (fst q @ ps, snd q @ es) of
        None \<Rightarrow> schedule arrivals q
      | Some (c, q') \<Rightarrow> c # schedule arrivals q')"

lemma pick_Some:
  "pick q = Some (c, q') \<longleftrightarrow>
     (fst q = c # fst q' \<and> snd q' = snd q) \<or> (fst q = [] \<and> fst q' = [] \<and> snd q = c # snd q')"
  by (cases q rule: pick.cases; cases q') auto

lemma pick_None: "pick q = None \<longleftrightarrow> q = ([], [])"
  by (cases q rule: pick.cases) auto

lemma run_output_actor_schedule:
  "run_output_actor wr arrivals q a = run_commands wr (schedule arrivals q) a"
proof (induction arrivals arbitrary: q a)
  case Nil
  then show ?case by (cases q) (simp add: drain_queues_commands)
next
  case (Cons pe arrivals)
  obtain ps es where pe: "pe = (ps, es)" by (cases pe)
  show ?case using Cons.IH by (simp add: pe split: option.split prod.split sum.split)
qed

lemma schedule_shuffles:
  "schedule arrivals q \<in> shuffles (fst q @ concat (map fst arrivals)) (snd q @ concat (map snd arrivals))"
proof (induction arrivals arbitrary: q)
  case Nil
  have "ps @ es \<in> shuffles ps es" for ps es :: "output_command list"
    by (induction ps) (simp_all add: Cons_in_shuffles_leftI)
  then show ?case by (cases q) simp
next
  case (Cons pe arrivals)
  obtain ps es where pe: "pe = (ps, es)" by (cases pe)
  show ?case
  proof (cases "pick (fst q @ ps, snd q @ es)")
    case None
    with Cons.IH [of q] show ?thesis by (simp add: pe pick_None)
  next
    case (Some r)
    obtain c q' where r: "r = (c, q')" by (cases r)
    with Some have "pick (fst q @ ps, snd q @ es) = Some (c, q')" by simp
    then consider "fst q @ ps = c # fst q'" "snd q' = snd q @ es"
      | "fst q @ ps = []" "fst q' = []" "snd q @ es = c # snd q'"
      by (auto simp: pick_Some)
    then show ?thesis
    proof cases
      case 1
      then show ?thesis using Cons.IH [of q'] Some r
        by (simp add: pe Cons_in_shuffles_leftI flip: append_assoc)
    next
      case 2
      then show ?thesis using Cons.IH [of q'] Some r
        by (simp add: pe Cons_in_shuffles_rightI flip: append_assoc)
    qed
  qed
qed

lemma run_output_actor_keeps:
  assumes "\<And>c a. P a \<Longrightarrow> P (snd (emit_command wr c a))" "P a"
  shows "P (snd (run_output_actor wr arrivals q a))"
  unfolding run_output_actor_schedule using assms by (rule run_commands_keeps)

section \<open>Properties\<close>

text \<open>
  C3. The loop is a sequential run of the commands in one order, fixed by the arrivals alone, which
  interleaves the two queues without reordering, losing or repeating a command of either.
\<close>

theorem loop_runs_schedule:
  "run_output_actor wr arrivals q a = run_commands wr (schedule arrivals q) a
   \<and> schedule arrivals q \<in> shuffles (fst q @ concat (map fst arrivals)) (snd q @ concat (map snd arrivals))
   \<and> schedule [] q = fst q @ snd q"
  by (simp add: run_output_actor_schedule schedule_shuffles)

text \<open>
  C4. Whatever arrives and whenever the writer fails, the actor's memory stays bounded: at most
  \<open>pending_limit\<close> buffered events and as many suppressed IDs, and an ID is never in two of the three
  places (acknowledged, buffered, suppressed). The policy and the limit never change.
\<close>

theorem output_actor_bounded:
  "(let s = ostate (snd (run_output_actor wr arrivals q (actor_new p lim)))
    in length (pending_events s) \<le> lim \<and> length (suppressed_order s) \<le> lim
       \<and> suppressed_ids s = set (suppressed_order s) \<and> distinct (suppressed_order s)
       \<and> distinct (map fst (active_ids s))
       \<and> fst ` set (pending_events s) \<inter> (fst ` set (active_ids s) \<union> suppressed_ids s) = {}
       \<and> fst ` set (active_ids s) \<inter> suppressed_ids s = {}
       \<and> policy s = p \<and> pending_limit s = lim)"
proof -
  let ?P = "\<lambda>a. out_inv (ostate a) \<and> same_config (output_new p lim) (ostate a)"
  have "?P (snd (run_output_actor wr arrivals q (actor_new p lim)))"
  proof (rule run_output_actor_keeps)
    show "?P (snd (emit_command wr c a))" if "?P a" for c a
      using that out_inv_command same_config_trans same_config_command by blast
  qed (simp add: actor_new_def out_inv_new)
  then show ?thesis
    unfolding out_inv_def same_config_def Let_def map_ok_def dom_map_of_conv_image_fst output_new_def
    by (elim conjE, intro conjI) simp_all
qed

end
