(* ===== verification/Output_Order.thy ===== *)
theory Output_Order
  imports Output_Actor
begin

text \<open>
  What a client sees of \<open>output_actor.rs\<close> over a whole run: the events of an ID are delivered in
  order and without loss around its acknowledgement, exhausting the buffer fails closed, and a
  cancelled ID is silent.
\<close>

section \<open>Ghost views of a run\<close>

text \<open>
  The events a run submits for the ID \<open>x\<close>, the event records already written for it, and the ones
  still buffered. The policy identifies events, as in the code.
\<close>

fun submitted1 :: "correlation_policy \<Rightarrow> ustring \<Rightarrow> output_command \<Rightarrow> (ustring \<times> json) list" where
  "submitted1 p x (Event stream event) = (if event_id p stream event = Some x then [(stream, event)] else [])"
| "submitted1 p x _ = []"

definition submitted :: "correlation_policy \<Rightarrow> ustring \<Rightarrow> output_command list \<Rightarrow> (ustring \<times> json) list" where
  "submitted p x cs = concat (map (submitted1 p x) cs)"

definition record_events :: "correlation_policy \<Rightarrow> ustring \<Rightarrow> json \<Rightarrow> (ustring \<times> json) list" where
  "record_events p x m =
     (if json_get ''kind'' m = Some (JString ''event'')
      then (case (json_get ''stream'' m, json_get ''event'' m) of
              (Some (JString stream), Some event) \<Rightarrow>
                if event_id p stream event = Some x then [(stream, event)] else []
            | _ \<Rightarrow> [])
      else [])"

definition delivered :: "correlation_policy \<Rightarrow> ustring \<Rightarrow> json list \<Rightarrow> (ustring \<times> json) list" where
  "delivered p x ms = concat (map (record_events p x) ms)"

definition waiting :: "ustring \<Rightarrow> output_state \<Rightarrow> (ustring \<times> json) list" where
  "waiting x s = map snd (filter (\<lambda>(e, _, _). e = x) (pending_events s))"

fun cancels :: "ustring \<Rightarrow> output_command \<Rightarrow> bool" where
  "cancels x (Cancelled i) = (i = x)"
| "cancels x (Response _ _ (Some c) _) = (c = x)"
| "cancels x ResetCorrelation = True"
| "cancels x _ = False"

lemma delivered_simps [simp]:
  "delivered p x [] = []" "delivered p x (m # ms) = record_events p x m @ delivered p x ms"
  "delivered p x (ms @ ns) = delivered p x ms @ delivered p x ns"
  by (simp_all add: delivered_def)

lemma submitted_simps [simp]:
  "submitted p x [] = []" "submitted p x (c # cs) = submitted1 p x c @ submitted p x cs"
  by (simp_all add: submitted_def)

lemma record_events_line [simp]:
  "record_events p x (event_line stream event s) =
     (if event_id p stream event = Some x then [(stream, event)] else [])"
  by (simp add: record_events_def event_line_def split: option.split)

lemma record_events_response [simp]: "record_events p x (response_line rid result rt) = []"
  by (simp add: record_events_def response_line_def split: option.split sum.split)

lemma record_events_kind: "json_get ''kind'' m \<noteq> Some (JString ''event'') \<Longrightarrow> record_events p x m = []"
  by (simp add: record_events_def)

section \<open>The delivery invariant\<close>

text \<open>What has been delivered for \<open>x\<close> followed by what is buffered for it is \<open>log\<close>.\<close>

definition fifo_inv :: "correlation_policy \<Rightarrow> ustring \<Rightarrow> (ustring \<times> json) list \<Rightarrow> json list \<Rightarrow> output_state \<Rightarrow> bool"
where
  "fifo_inv p x log out s \<longleftrightarrow> out_inv s \<and> policy s = p
     \<and> list_all (\<lambda>(i, stream, event). event_id p stream event = Some i) (pending_events s)
     \<and> x \<notin> suppressed_ids s \<and> delivered p x out @ waiting x s = log"

text \<open>The events of \<open>x\<close> never end it.\<close>

definition never_terminal :: "correlation_policy \<Rightarrow> ustring \<Rightarrow> bool" where
  "never_terminal p x \<longleftrightarrow>
     (\<forall>stream event. \<not> (event_id p stream event = Some x \<and> is_terminal p stream event))"

lemma suppress_other: "y \<noteq> x \<Longrightarrow> x \<notin> suppressed_ids s \<Longrightarrow> x \<notin> suppressed_ids (suppress y s)"
  by (auto simp: suppress_def Let_def split: list.split)

lemma waiting_cancelled [simp]: "y \<noteq> x \<Longrightarrow> waiting x (cancelled y s) = waiting x s"
  by (auto simp: waiting_def cancelled_def intro!: arg_cong [where f = "map snd"] filter_cong)

lemma cancelled_pending: "pending_events (cancelled y s) = filter (\<lambda>(e, _, _). e \<noteq> y) (pending_events s)"
  by (simp add: cancelled_def)

lemma list_all_filter: "list_all P xs \<Longrightarrow> list_all P (filter Q xs)"
  by (auto simp: list_all_iff)

lemma fifo_cancelled:
  "fifo_inv p x log out s \<Longrightarrow> y \<noteq> x \<Longrightarrow> fifo_inv p x log out (cancelled y s)"
  by (simp add: fifo_inv_def out_inv_cancelled cancelled_pending list_all_filter)
    (simp add: cancelled_def suppress_other)

lemma active_not_waiting: "out_inv s \<Longrightarrow> map_of (active_ids s) x \<noteq> None \<Longrightarrow> waiting x s = []"
  by (simp add: waiting_def out_inv_active_pending del: not_None_eq)

lemma fifo_accept:
  assumes inv: "fifo_inv p x log out s" and tag: "event_id p stream event = i"
    and nt: "never_terminal p x" and acc: "accept_event i stream event s = (Inr m, s')"
  shows "fifo_inv p x (log @ (if i = Some x then [(stream, event)] else []))
           (out @ (case m of None \<Rightarrow> [] | Some v \<Rightarrow> [v])) s'"
proof -
  have o: "out_inv s'" using out_inv_accept [of s i stream event] inv acc by (simp add: fifo_inv_def)
  have p: "policy s = p" using inv by (simp add: fifo_inv_def)
  show ?thesis
  proof (cases i)
    case None
    with acc inv tag show ?thesis by (auto simp: accept_event_eq after_event_def fifo_inv_def)
  next
    case (Some y)
    consider "y \<in> suppressed_ids s" "m = None" "s' = s"
      | "y \<notin> suppressed_ids s" "m = None" "s' = s\<lparr>pending_events := pending_events s @ [(y, stream, event)]\<rparr>"
      | "y \<notin> suppressed_ids s" "map_of (active_ids s) y \<noteq> None" "m = Some (event_line stream event s)"
        "s' = after_event stream event (Some y) s"
      using acc Some by (auto simp: accept_event_eq split: if_splits)
    then show ?thesis
    proof cases
      case 1
      with inv Some show ?thesis by (auto simp: fifo_inv_def)
    next
      case 2
      with inv Some tag o show ?thesis by (auto simp: fifo_inv_def waiting_def)
    next
      case 3
      show ?thesis
      proof (cases "y = x")
        case True
        then have "s' = s" using 3 nt tag Some p by (auto simp: after_event_def never_terminal_def)
        with 3 True inv tag Some active_not_waiting [of s x] show ?thesis
          by (auto simp: fifo_inv_def)
      next
        case False
        then have "fifo_inv p x log out s'"
          using 3 inv by (auto simp: after_event_def fifo_cancelled)
        with 3 False tag Some show ?thesis by (simp add: fifo_inv_def)
      qed
    qed
  qed
qed

lemma fifo_pending:
  assumes "fifo_inv p x log (written a) (ostate a)" "never_terminal p x"
    "list_all (\<lambda>(i, stream, event). event_id p stream event = Some i) evs"
    "emit_pending wr evs a = (Inr (), a')"
  shows "fifo_inv p x (log @ map snd (filter (\<lambda>(i, _, _). i = x) evs)) (written a') (ostate a')"
  using assms(1,3,4)
proof (induction evs arbitrary: a log)
  case Nil
  then show ?case by simp
next
  case (Cons q rest)
  obtain i stream event where q: "q = (i, stream, event)" by (cases q)
  obtain r s' where acc: "accept_event (Some i) stream event (ostate a) = (r, s')" by fastforce
  then obtain m where r: "r = Inr m" using Cons.prems(3) q by (cases r) simp_all
  let ?out = "written a @ (case m of None \<Rightarrow> [] | Some v \<Rightarrow> [v])"
  let ?log = "log @ (if i = x then [(stream, event)] else [])"
  have step: "fifo_inv p x ?log ?out s'"
    using fifo_accept [OF Cons.prems(1) _ assms(2), of stream event "Some i" m s'] acc r q Cons.prems(2)
    by simp
  have rest: "emit_pending wr rest (a\<lparr>ostate := s', written := ?out\<rparr>) = (Inr (), a')"
    using Cons.prems(3) acc r q by (cases m) (simp_all split: if_splits)
  from Cons.IH [OF _ _ rest, of ?log] step Cons.prems(2)
  show ?case by (simp add: q split: if_splits)
qed

lemma fifo_activate:
  assumes inv: "fifo_inv p x log out s" and act: "activate t rt s = (evs, s')"
  obtains log' where "fifo_inv p x log' out s'" "log' @ map snd (filter (\<lambda>(i, _, _). i = x) evs) = log"
    "list_all (\<lambda>(i, stream, event). event_id p stream event = Some i) evs"
proof (cases "t = None \<or> (\<exists>k. t = Some k \<and> tr_id k \<in> suppressed_ids s)")
  case True
  then have "evs = []" "s' = s" using act by (auto simp: activate_def)
  with that inv show ?thesis by auto
next
  case False
  then obtain k where k: "t = Some k" "tr_id k \<notin> suppressed_ids s" by (cases t) auto
  have evs: "evs = filter (\<lambda>(e, _, _). e = tr_id k) (pending_events s)"
    and s': "policy s' = policy s" "suppressed_ids s' = suppressed_ids s"
      "pending_events s' = filter (\<lambda>(e, _, _). e \<noteq> tr_id k) (pending_events s)"
    using act k by (auto simp: activate_def take_pending_def Let_def)
  have tags: "list_all (\<lambda>(i, stream, event). event_id p stream event = Some i) (pending_events s)"
    using inv by (simp add: fifo_inv_def)
  have o: "out_inv s'" using out_inv_activate [of s t rt] inv act by (simp add: fifo_inv_def)
  have "fifo_inv p x (delivered p x out @ waiting x s') out s'"
    using inv o by (simp add: fifo_inv_def s' list_all_filter)
  moreover have "waiting x s' @ map snd (filter (\<lambda>(i, _, _). i = x) evs) = waiting x s"
  proof (cases "tr_id k = x")
    case True
    then have "waiting x s' = []" by (auto simp: waiting_def s' filter_empty_conv)
    with True show ?thesis by (auto simp: evs waiting_def intro: arg_cong [where f = "map snd"] filter_cong)
  next
    case False
    then have "filter (\<lambda>(i, _, _). i = x) evs = []" by (auto simp: evs filter_empty_conv)
    with False show ?thesis by (auto simp: waiting_def s' intro!: arg_cong [where f = "map snd"] filter_cong)
  qed
  ultimately show ?thesis
    using that [of "delivered p x out @ waiting x s'"] inv tags by (simp add: fifo_inv_def evs list_all_filter)
qed

lemma fifo_response:
  assumes inv: "fifo_inv p x log (written a) (ostate a)" and nt: "never_terminal p x" and c: "c \<noteq> Some x"
    and run: "emit_response wr rid result c rt a = (Inr (), a')"
  shows "fifo_inv p x log (written a') (ostate a')"
proof -
  let ?s1 = "after_cancel c (ostate a)" and ?line = "response_line rid result rt"
  obtain evs s2 where act: "activate (tracked_of (policy ?s1) result) rt ?s1 = (evs, s2)" by fastforce
  have "fifo_inv p x log (written a) ?s1"
    using inv c by (cases c) (auto simp: after_cancel_def intro: fifo_cancelled)
  then obtain log' where l: "fifo_inv p x log' (written a) s2"
    "log' @ map snd (filter (\<lambda>(i, _, _). i = x) evs) = log"
    "list_all (\<lambda>(i, stream, event). event_id p stream event = Some i) evs"
    using act by (rule fifo_activate)
  have run': "emit_pending wr evs (a\<lparr>ostate := s2, written := written a @ [?line]\<rparr>) = (Inr (), a')"
    using run act by (simp add: emit_response_eq Let_def split: if_splits)
  have "fifo_inv p x log' (written a @ [?line]) s2"
    using l(1) by (simp add: fifo_inv_def)
  then show ?thesis
    using fifo_pending [OF _ nt l(3) run', of log'] l(2) by simp
qed

lemma fifo_line:
  "fifo_inv p x log (written a) (ostate a) \<Longrightarrow> record_events p x m = [] \<Longrightarrow>
   emit_line wr m a = (Inr (), a') \<Longrightarrow> fifo_inv p x log (written a') (ostate a')"
  by (auto simp: emit_line_def fifo_inv_def split: if_splits)

lemma fifo_command:
  assumes inv: "fifo_inv p x log (written a) (ostate a)" and nt: "never_terminal p x"
    and c: "\<not> cancels x c" and run: "emit_command wr c a = (Inr (), a')"
  shows "fifo_inv p x (log @ submitted1 p x c) (written a') (ostate a')"
proof (cases c)
  case (RequestError rid outcome message rt)
  obtain m where m: "json_set ''outcome'' (JString outcome) (response_error_message rid message) = Some m"
    "json_get ''kind'' m = Some (JString ''response'')"
    by (simp add: response_error_message_def json_set_jobj)
  obtain m' where m': "addressed_message m rt = Some m'"
    using run RequestError m by (auto split: option.splits)
  have "json_get ''kind'' m' = Some (JString ''response'')"
    using addressed_get [OF m'] m by simp
  then show ?thesis
    using fifo_line [OF inv, of m' wr a'] run RequestError m(1) m' by (simp add: record_events_kind)
next
  case (Response rid result cr rt)
  then have "cr \<noteq> Some x" using c by (cases cr) auto
  with fifo_response [OF inv nt this] run Response show ?thesis by simp
next
  case (Event stream event)
  let ?i = "event_id p stream event"
  obtain r s' where acc: "accept_event ?i stream event (ostate a) = (r, s')" by fastforce
  have p: "policy (ostate a) = p" using inv by (simp add: fifo_inv_def)
  obtain m where r: "r = Inr m"
    using run acc p by (cases r) (simp_all add: Event emit_event_eq del: emit_command.simps split: if_splits)
  have run': "written a' = written a @ (case m of None \<Rightarrow> [] | Some v \<Rightarrow> [v])" "ostate a' = s'"
    using run acc p r
    by (auto simp: Event emit_event_eq emit_line_def simp del: emit_command.simps split: option.splits if_splits)
  have "submitted1 p x c = (if ?i = Some x then [(stream, event)] else [])"
    using Event by simp
  then show ?thesis using fifo_accept [OF inv refl nt] acc r run' by simp
next
  case (Cancelled i)
  then show ?thesis using inv c run by (auto simp: fifo_cancelled)
qed (use inv c run in \<open>auto simp: Let_def fifo_inv_def emit_line_def record_events_kind
    protocol_error_message_def transport_error_message_def shutdown_message_def response_message_def
    split: if_splits\<close>)

lemma fifo_run:
  assumes "fifo_inv p x log (written a) (ostate a)" "never_terminal p x" "list_all (\<lambda>c. \<not> cancels x c) cs"
    "run_commands wr cs a = (Inr (), a')"
  shows "fifo_inv p x (log @ submitted p x cs) (written a') (ostate a')"
  using assms(1,3,4)
proof (induction cs arbitrary: log a)
  case Nil
  then show ?case by simp
next
  case (Cons c cs)
  obtain a1 where step: "emit_command wr c a = (Inr (), a1)" and rest: "run_commands wr cs a1 = (Inr (), a')"
    using Cons.prems(3) by (auto split: prod.splits sum.splits)
  have "fifo_inv p x (log @ submitted1 p x c) (written a1) (ostate a1)"
    using fifo_command [OF Cons.prems(1) assms(2) _ step] Cons.prems(2) by simp
  from Cons.IH [OF this _ rest] Cons.prems(2) show ?case by simp
qed

section \<open>Properties\<close>

text \<open>
  C5. Ordered, lossless delivery around the acknowledgement. In a run without an error, for an ID
  that nothing cancels and whose events are not terminal: the event records written for the ID,
  followed by its events still buffered, are exactly the events submitted for it, in their order.
  This covers the buffering before the acknowledgement, the flush behind it, and direct delivery.
\<close>

theorem event_fifo:
  assumes "run_commands wr cs (actor_new p lim) = (Inr (), a)" "list_all (\<lambda>c. \<not> cancels x c) cs"
    "never_terminal p x"
  shows "delivered p x (written a) @ waiting x (ostate a) = submitted p x cs"
proof -
  have "fifo_inv p x [] (written (actor_new p lim)) (ostate (actor_new p lim))"
    by (simp add: fifo_inv_def actor_new_def out_inv_new) (simp add: output_new_def waiting_def)
  from fifo_run [OF this assms(3,2,1)] show ?thesis by (simp add: fifo_inv_def)
qed

definition sub_event :: "ustring \<Rightarrow> ustring \<Rightarrow> json" where
  "sub_event i payload = jobj [(''subscription_id'', JString i), (''n'', JString payload)]"

definition sub_ack :: "ustring \<Rightarrow> json" where
  "sub_ack i = jobj [(''data'', jobj [(''subscription'', jobj [(''id'', JString i)])])]"

definition fifo_trace :: "output_command list" where
  "fifo_trace = [Event ''s'' (sub_event ''x'' ''1''), Event ''s'' (sub_event ''y'' ''2''), Event ''s'' (sub_event ''x'' ''3''),
     Response ''r'' (Inr (sub_ack ''x'')) None None, Event ''s'' (sub_event ''x'' ''4'')]"

definition always :: line_writer where
  "always out v = True"

lemma fifo_trace_ok: "fst (run_commands always fifo_trace (actor_new basic_correlation 4)) = Inr ()"
  by code_simp

lemma event_fifo_witness:
  "let a = snd (run_commands always fifo_trace (actor_new basic_correlation 4)) in
     delivered basic_correlation ''x'' (written a) @ waiting ''x'' (ostate a)
       = [(''s'', sub_event ''x'' ''1''), (''s'', sub_event ''x'' ''3''), (''s'', sub_event ''x'' ''4'')]
     \<and> waiting ''y'' (ostate a) = [(''s'', sub_event ''y'' ''2'')]"
proof -
  let ?run = "run_commands always fifo_trace (actor_new basic_correlation 4)"
  have "?run = (Inr (), snd ?run)" using fifo_trace_ok by (metis prod.collapse)
  moreover have "submitted basic_correlation ''x'' fifo_trace
      = [(''s'', sub_event ''x'' ''1''), (''s'', sub_event ''x'' ''3''), (''s'', sub_event ''x'' ''4'')]"
    by code_simp
  moreover have "list_all (\<lambda>c. \<not> cancels ''x'' c) fifo_trace" by code_simp
  moreover have "never_terminal basic_correlation ''x''" by (simp add: never_terminal_def basic_correlation_def)
  moreover have "waiting ''y'' (ostate (snd ?run)) = [(''s'', sub_event ''y'' ''2'')]" by code_simp
  ultimately show ?thesis
    using event_fifo [of always fifo_trace basic_correlation 4 "snd ?run" "''x''"] by (simp add: Let_def)
qed

lemma pending_flush:
  assumes "map_of (active_ids (ostate a)) i \<noteq> None" "i \<notin> suppressed_ids (ostate a)"
    "list_all (\<lambda>(e, stream, event). e = i \<and> \<not> is_terminal (policy (ostate a)) stream event) evs"
  shows "emit_pending always evs a =
    (Inr (), a\<lparr>written := written a @ map (\<lambda>(_, stream, event). event_line stream event (ostate a)) evs\<rparr>)"
  using assms
proof (induction evs arbitrary: a)
  case Nil
  then show ?case by simp
next
  case (Cons q rest)
  obtain stream event where q: "q = (i, stream, event)" "\<not> is_terminal (policy (ostate a)) stream event"
    using Cons.prems(3) by (cases q) auto
  let ?a = "a\<lparr>written := written a @ [event_line stream event (ostate a)]\<rparr>"
  have "emit_pending always (q # rest) a = emit_pending always rest ?a"
    using Cons.prems(1,2) q by (auto simp: accept_event_eq after_event_def always_def)
  with Cons.IH [of ?a] Cons.prems q show ?case by simp
qed

text \<open>
  The acknowledgement comes first. When a response acknowledges an ID that is neither suppressed
  nor active, and the writer works, the response's record is written, then exactly the buffered
  events of the ID in arrival order with the acknowledged route, and the ID is active (with the
  response's route for a subscription, without one for an operation). Every other event stays
  buffered.
\<close>

lemma ack_flush:
  assumes "response_id (policy s) resp = Some t" "tr_id t \<notin> suppressed_ids s"
    "map_of (active_ids s) (tr_id t) = None" "never_terminal (policy s) (tr_id t)"
    "list_all (\<lambda>(i, stream, event). event_id (policy s) stream event = Some i) (pending_events s)"
  shows "emit_command always (Response rid (Inr resp) None rt) \<lparr>written = out, replies = rs, ostate = s\<rparr> =
    (let s' = s\<lparr>pending_events := filter (\<lambda>(e, _, _). e \<noteq> tr_id t) (pending_events s),
                active_ids := AList.update (tr_id t)
                  (if tr_kind t = Subscription then rt else None) (active_ids s)\<rparr>
     in (Inr (), \<lparr>written = out @ response_line rid (Inr resp) rt
                   # map (\<lambda>(stream, event). event_line stream event s') (waiting (tr_id t) s),
                 replies = rs, ostate = s'\<rparr>))"
proof -
  let ?s = "s\<lparr>pending_events := filter (\<lambda>(e, _, _). e \<noteq> tr_id t) (pending_events s),
      active_ids := AList.update (tr_id t) (if tr_kind t = Subscription then rt else None) (active_ids s)\<rparr>"
  let ?evs = "filter (\<lambda>(e, _, _). e = tr_id t) (pending_events s)"
  let ?a = "\<lparr>written = out @ [response_line rid (Inr resp) rt], replies = rs, ostate = ?s\<rparr>"
  have act: "activate (Some t) rt s = (?evs, ?s)"
    using assms(2,3) by (cases rt) (simp_all add: activate_def take_pending_def)
  have nt: "list_all (\<lambda>(e, stream, event). e = tr_id t \<and> \<not> is_terminal (policy s) stream event) ?evs"
    using assms(4,5) by (auto simp: list_all_iff never_terminal_def)
  have flush: "emit_pending always ?evs ?a =
    (Inr (), ?a\<lparr>written := written ?a @ map (\<lambda>(_, stream, event). event_line stream event ?s) ?evs\<rparr>)"
    using pending_flush [of ?a "tr_id t" ?evs] nt assms(2) by simp
  show ?thesis
    using flush by (simp add: emit_response_eq after_cancel_def tracked_of_def assms(1) act always_def
      Let_def waiting_def split_beta comp_def)
qed

definition ack_state :: output_state where
  "ack_state = (output_new basic_correlation 4)\<lparr>pending_events :=
     [(''x'', ''s'', sub_event ''x'' ''1''), (''y'', ''s'', sub_event ''y'' ''2''), (''x'', ''s'', sub_event ''x'' ''3'')]\<rparr>"

lemma ack_flush_witness:
  "fst (emit_command always (Response ''r'' (Inr (sub_ack ''x'')) None None) \<lparr>written = [], replies = [], ostate = ack_state\<rparr>)
     = Inr ()
   \<and> length (written (snd (emit_command always (Response ''r'' (Inr (sub_ack ''x'')) None None)
        \<lparr>written = [], replies = [], ostate = ack_state\<rparr>))) = 3"
proof -
  let ?t = "\<lparr>tr_id = ''x'', tr_kind = Subscription\<rparr>"
  have 1: "response_id (policy ack_state) (sub_ack ''x'') = Some ?t" by code_simp
  have 2: "tr_id ?t \<notin> suppressed_ids ack_state" "map_of (active_ids ack_state) (tr_id ?t) = None"
    by (simp_all add: ack_state_def output_new_def)
  have 3: "never_terminal (policy ack_state) (tr_id ?t)"
    by (simp add: never_terminal_def ack_state_def output_new_def basic_correlation_def)
  have 4: "list_all (\<lambda>(i, stream, event). event_id (policy ack_state) stream event = Some i) (pending_events ack_state)"
    by code_simp
  have 5: "length (waiting ''x'' ack_state) = 2" by code_simp
  from ack_flush [OF 1 2 3 4, of "''r''" None "[]" "[]"] 5 show ?thesis by (simp add: Let_def)
qed


definition full_state :: output_state where
  "full_state = (output_new basic_correlation 1)\<lparr>pending_events := [(''x'', ''s'', sub_event ''x'' ''1'')]\<rparr>"


fun late_for :: "correlation_policy \<Rightarrow> ustring \<Rightarrow> output_command \<Rightarrow> bool" where
  "late_for p i (Event stream event) = (event_id p stream event = Some i)"
| "late_for p i (Response rid (Inr resp) None rt) =
     (case response_id p resp of Some t \<Rightarrow> tr_id t = i | None \<Rightarrow> False)"
| "late_for p i c = False"

fun response_lines :: "output_command list \<Rightarrow> json list" where
  "response_lines [] = []"
| "response_lines (Response rid result c rt # cs) = response_line rid result rt # response_lines cs"
| "response_lines (_ # cs) = response_lines cs"

lemma cancelled_suppressed: "out_inv s \<Longrightarrow> 0 < pending_limit s \<Longrightarrow> i \<in> suppressed_ids (cancelled i s)"
  by (auto simp: out_inv_def cancelled_def suppress_def Let_def split: list.split)

lemma late_run:
  "i \<in> suppressed_ids (ostate a) \<Longrightarrow> list_all (late_for (policy (ostate a)) i) cs \<Longrightarrow>
   run_commands always cs a = (Inr (), a\<lparr>written := written a @ response_lines cs\<rparr>)"
proof (induction cs arbitrary: a)
  case Nil
  then show ?case by simp
next
  case (Cons c cs)
  obtain out' where step: "emit_command always c a = (Inr (), a\<lparr>written := written a @ out'\<rparr>)"
    "response_lines (c # cs) = out' @ response_lines cs"
  proof (cases "(policy (ostate a), i, c)" rule: late_for.cases)
    case (1 p j stream event)
    with Cons.prems show ?thesis
      by (intro that [of "[]"]) (simp_all add: emit_event_eq accept_event_eq del: emit_command.simps)
  next
    case (2 p j rid resp rt)
    with Cons.prems show ?thesis
      by (intro that [of "[response_line rid (Inr resp) rt]"])
        (auto simp: emit_response_eq after_cancel_def tracked_of_def activate_def always_def split: option.splits)
  qed (use Cons.prems in auto)
  show ?case using Cons.IH [of "a\<lparr>written := written a @ out'\<rparr>"] Cons.prems step by simp
qed

text \<open>
  A cancelled ID is silent. After the cancellation, with a nonzero limit, late events of the ID
  are dropped and a late response that acknowledges it neither activates nor replays it: the
  state stays as it was right after the cancellation, and only the responses' records are written.
\<close>

lemma cancelled_is_silent:
  assumes "out_inv (ostate a)" "0 < pending_limit (ostate a)" "list_all (late_for (policy (ostate a)) i) cs"
  shows "run_commands always (Cancelled i # cs) a =
    (Inr (), a\<lparr>ostate := cancelled i (ostate a), written := written a @ response_lines cs\<rparr>)"
proof -
  have "policy (cancelled i (ostate a)) = policy (ostate a)" by (simp add: cancelled_def)
  with late_run [of i "a\<lparr>ostate := cancelled i (ostate a)\<rparr>" cs] assms cancelled_suppressed
  show ?thesis by simp
qed

lemma cancelled_is_silent_witness:
  "snd (run_commands always [Cancelled ''x'', Event ''s'' (sub_event ''x'' ''4''), Response ''r'' (Inr (sub_ack ''x'')) None None]
      \<lparr>written = [], replies = [], ostate = ack_state\<rparr>)
     = \<lparr>written = [response_line ''r'' (Inr (sub_ack ''x'')) None], replies = [], ostate = cancelled ''x'' ack_state\<rparr>"
proof -
  let ?a = "\<lparr>written = [], replies = [], ostate = ack_state\<rparr>"
  let ?cs = "[Event ''s'' (sub_event ''x'' ''4''), Response ''r'' (Inr (sub_ack ''x'')) None None]"
  have 1: "out_inv (ostate ?a)" "0 < pending_limit (ostate ?a)"
    by (simp_all add: out_inv_def ack_state_def output_new_def)
  have 2: "list_all (late_for (policy (ostate ?a)) ''x'') ?cs" by code_simp
  from cancelled_is_silent [OF 1 2] show ?thesis by simp
qed

end
