(* ===== verification/Framing.thy ===== *)
theory Framing
  imports Prelude
begin

text \<open>
  \<open>shelllist-daemon-tokio/src/jsonl_input.rs\<close>: bounded, cancellation-safe record framing. The byte
  source is the list of what its reads will yield: a chunk of whatever size, a stall (where the
  caller may drop the future and call again), or an I/O failure; the list's end is the end of the
  stream. The head of the list is the reader's buffer, so \<open>consume\<close> shortens its first chunk.
  \<open>Vec::reserve_exact\<close> is taken to reserve exactly.
\<close>

type_synonym byte = char

abbreviation LF :: byte where "LF \<equiv> CHR 0x0A"
abbreviation CR :: byte where "CR \<equiv> CHR 0x0D"

definition usize_max :: nat where
  "usize_max = 2 ^ 64 - 1"

datatype frame = Line ustring | TooLarge

datatype read = Chunk "byte list" | Stall | Fail

text \<open>The retained part of the record being read: the vector, its capacity, the discard flag.\<close>

record partial =
  bytes :: "byte list"
  capacity :: nat
  oversized :: bool

record frames =
  reader :: "read list"
  partial :: partial
  maximum :: nat

datatype next_result = Got frame | EndOfStream | InvalidUtf8 | IoFailed | Dropped

text \<open>\<open>None\<close> is the failed assertion.\<close>

definition frames_new :: "read list \<Rightarrow> nat \<Rightarrow> frames option" where
  "frames_new r lim =
     (if lim < usize_max
      then Some \<lparr>reader = r, partial = \<lparr>bytes = [], capacity = 0, oversized = False\<rparr>, maximum = lim\<rparr>
      else None)"

section \<open>UTF-8 validity, as \<open>String::from_utf8\<close> decides it\<close>

definition byte_in :: "byte \<Rightarrow> nat \<Rightarrow> nat \<Rightarrow> bool" where
  "byte_in b lo hi \<longleftrightarrow> lo \<le> of_char b \<and> of_char b \<le> hi"

definition second3 :: "byte \<Rightarrow> byte \<Rightarrow> bool" where
  "second3 a b =
     (if of_char a = (0xE0 :: nat) then byte_in b 0xA0 0xBF
      else if of_char a = (0xED :: nat) then byte_in b 0x80 0x9F
      else byte_in b 0x80 0xBF)"

definition second4 :: "byte \<Rightarrow> byte \<Rightarrow> bool" where
  "second4 a b =
     (if of_char a = (0xF0 :: nat) then byte_in b 0x90 0xBF
      else if of_char a = (0xF4 :: nat) then byte_in b 0x80 0x8F
      else byte_in b 0x80 0xBF)"

fun utf8_valid :: "byte list \<Rightarrow> bool" where
  "utf8_valid [] = True"
| "utf8_valid (a # r) =
     (if byte_in a 0 0x7F then utf8_valid r
      else if byte_in a 0xC2 0xDF
      then (case r of b # r' \<Rightarrow> byte_in b 0x80 0xBF \<and> utf8_valid r' | _ \<Rightarrow> False)
      else if byte_in a 0xE0 0xEF
      then (case r of b # c # r' \<Rightarrow> second3 a b \<and> byte_in c 0x80 0xBF \<and> utf8_valid r' | _ \<Rightarrow> False)
      else if byte_in a 0xF0 0xF4
      then (case r of b # c # d # r' \<Rightarrow>
              second4 a b \<and> byte_in c 0x80 0xBF \<and> byte_in d 0x80 0xBF \<and> utf8_valid r' | _ \<Rightarrow> False)
      else False)"

section \<open>Framing\<close>

text \<open>
  \<open>extend_bounded\<close>: on overflow the whole prefix is discarded. The flag is its negated result.
\<close>

definition extend_bounded :: "partial \<Rightarrow> byte list \<Rightarrow> nat \<Rightarrow> partial" where
  "extend_bounded p chunk ceiling =
     (if length chunk > ceiling - length (bytes p)
      then p\<lparr>bytes := [], oversized := True\<rparr>
      else
        let needed = length (bytes p) + length chunk;
            cap = (if needed > capacity p
                   then min (max (min (capacity p * 2) usize_max) needed) ceiling
                   else capacity p)
        in p\<lparr>bytes := bytes p @ chunk, capacity := cap, oversized := False\<rparr>)"

definition finish :: "nat \<Rightarrow> bool \<Rightarrow> partial \<Rightarrow> next_result \<times> partial" where
  "finish lim newline p =
     (let p1 = (if newline \<and> bytes p \<noteq> [] \<and> last (bytes p) = CR then p\<lparr>bytes := butlast (bytes p)\<rparr> else p)
      in if oversized p1 \<or> length (bytes p1) > lim
         then (Got TooLarge, p1\<lparr>bytes := [], oversized := False\<rparr>)
         else (if utf8_valid (bytes p1) then Got (Line (bytes p1)) else InvalidUtf8,
               p1\<lparr>bytes := [], capacity := 0\<rparr>))"

text \<open>
  The loop of \<open>next\<close>. An exhausted buffer is refilled, so an empty chunk is skipped; every other pass
  consumes the buffer up to and including the first LF.
\<close>

fun next_loop :: "nat \<Rightarrow> read list \<Rightarrow> partial \<Rightarrow> next_result \<times> read list \<times> partial" where
  "next_loop lim [] p =
     (if oversized p \<or> bytes p \<noteq> []
      then (let (r, p') = finish lim False p in (r, [], p'))
      else (EndOfStream, [], p))"
| "next_loop lim (Stall # rs) p = (Dropped, rs, p)"
| "next_loop lim (Fail # rs) p = (IoFailed, rs, p)"
| "next_loop lim (Chunk available # rs) p =
     (if available = [] then next_loop lim rs p
      else
        let upto = takeWhile (\<lambda>b. b \<noteq> LF) available;
            newline = length upto < length available;
            p1 = (if oversized p then p else extend_bounded p upto (lim + 1))
        in if newline
           then (let (r, p2) = finish lim True p1 in (r, Chunk (drop (length upto + 1) available) # rs, p2))
           else next_loop lim rs p1)"

definition next_frame :: "frames \<Rightarrow> next_result \<times> frames" where
  "next_frame f =
     (let (r, rs, p) = next_loop (maximum f) (reader f) (partial f)
      in (r, f\<lparr>reader := rs, partial := p\<rparr>))"

section \<open>Reading a stream to its end\<close>

text \<open>The callers' loop: \<open>next\<close> until the stream ends or fails; a dropped call is made again.\<close>

datatype stream_end = Finished | Corrupt | Broken

definition pending_flag :: "partial \<Rightarrow> nat" where
  "pending_flag p = (if oversized p \<or> bytes p \<noteq> [] then 1 else 0)"

fun read_weight :: "read \<Rightarrow> nat" where
  "read_weight (Chunk c) = 2 * Suc (length c)"
| "read_weight _ = 2"

definition reader_weight :: "read list \<Rightarrow> nat" where
  "reader_weight rs = sum_list (map read_weight rs)"

lemma reader_weight_simps [simp]:
  "reader_weight [] = 0" "reader_weight (r # rs) = read_weight r + reader_weight rs"
  by (simp_all add: reader_weight_def)

lemma finish_flag [simp]: "pending_flag (snd (finish lim nl p)) = 0"
  by (simp add: finish_def pending_flag_def Let_def)

lemma finish_flag': "finish lim nl p = (r, p') \<Longrightarrow> pending_flag p' = 0"
  using finish_flag [of lim nl p] by simp

lemma pending_flag_le: "pending_flag p \<le> 1"
  by (simp add: pending_flag_def)

lemma next_loop_weight:
  "next_loop lim rs p = (r, rs', p') \<Longrightarrow> r = Dropped \<or> (\<exists>f. r = Got f) \<Longrightarrow>
   reader_weight rs' + pending_flag p' < reader_weight rs + pending_flag p"
proof (induction lim rs p rule: next_loop.induct)
  case (1 lim p)
  then have "pending_flag p = 1" "rs' = []" "pending_flag p' = 0"
    using finish_flag [of lim False p]
    by (auto simp: pending_flag_def [of p] split: if_splits prod.splits simp del: finish_flag)
  then show ?case by simp
next
  case (4 lim available rs p)
  let ?upto = "takeWhile (\<lambda>b. b \<noteq> LF) available"
  let ?p1 = "if oversized p then p else extend_bounded p ?upto (lim + 1)"
  consider "available = []" | "available \<noteq> []" "length ?upto < length available"
    | "available \<noteq> []" "\<not> length ?upto < length available" by blast
  then show ?case
  proof cases
    case 1
    with 4 show ?thesis by fastforce
  next
    case 2
    then have "rs' = Chunk (drop (length ?upto + 1) available) # rs" "pending_flag p' = 0"
      using 4(3) finish_flag' by (auto simp: Let_def split: prod.splits)
    with 2 show ?thesis by simp
  next
    case 3
    then have "next_loop lim rs ?p1 = (r, rs', p')" using 4(3) by (simp add: Let_def)
    then have "reader_weight rs' + pending_flag p' < reader_weight rs + pending_flag ?p1"
      using 4(2) [OF 3(1) refl refl refl 3(2)] 4(4) by simp
    then show ?thesis using pending_flag_le [of ?p1] by simp
  qed
qed auto

function read_frames :: "nat \<Rightarrow> read list \<Rightarrow> partial \<Rightarrow> frame list \<times> stream_end" where
  "read_frames lim rs p =
     (case next_loop lim rs p of
        (Got f, rs', p') \<Rightarrow> (let (fs, e) = read_frames lim rs' p' in (f # fs, e))
      | (Dropped, rs', p') \<Rightarrow> read_frames lim rs' p'
      | (EndOfStream, _, _) \<Rightarrow> ([], Finished)
      | (InvalidUtf8, _, _) \<Rightarrow> ([], Corrupt)
      | (IoFailed, _, _) \<Rightarrow> ([], Broken))"
  by pat_completeness auto
termination
  by (relation "measure (\<lambda>(lim, rs, p). reader_weight rs + pending_flag p)") (auto dest: next_loop_weight [OF sym])

declare read_frames.simps [simp del]

section \<open>The reference: splitting the whole text\<close>

definition strip_cr :: "byte list \<Rightarrow> byte list" where
  "strip_cr l = (if l \<noteq> [] \<and> last l = CR then butlast l else l)"

definition decode :: "nat \<Rightarrow> byte list \<Rightarrow> frame option" where
  "decode lim l = (if length l > lim then Some TooLarge else if utf8_valid l then Some (Line l) else None)"

text \<open>The bytes a reader yields before it ends or fails, and how it ends.\<close>

fun text_of :: "read list \<Rightarrow> byte list" where
  "text_of [] = []"
| "text_of (Chunk c # rs) = c @ text_of rs"
| "text_of (Stall # rs) = text_of rs"
| "text_of (Fail # rs) = []"

definition broken :: "read list \<Rightarrow> bool" where
  "broken rs \<longleftrightarrow> Fail \<in> set rs"

text \<open>
  One record per LF, less one CR before it; what follows the last LF is a record when it is not
  empty and the stream ended, and is lost when reading failed.
\<close>

function split_frames :: "nat \<Rightarrow> bool \<Rightarrow> byte list \<Rightarrow> frame list \<times> stream_end" where
  "split_frames lim broke text =
     (let line = takeWhile (\<lambda>b. b \<noteq> LF) text
      in if length line < length text
         then (case decode lim (strip_cr line) of
                 None \<Rightarrow> ([], Corrupt)
               | Some f \<Rightarrow> (let (fs, e) = split_frames lim broke (drop (length line + 1) text) in (f # fs, e)))
         else if broke then ([], Broken)
         else if text = [] then ([], Finished)
         else (case decode lim text of None \<Rightarrow> ([], Corrupt) | Some f \<Rightarrow> ([f], Finished)))"
  by pat_completeness auto
termination
  by (relation "measure (\<lambda>(lim, broke, text). length text)") auto

declare split_frames.simps [simp del]

text \<open>The partial record stands for the raw bytes \<open>pre\<close> of the line read so far.\<close>

definition stands_for :: "nat \<Rightarrow> partial \<Rightarrow> byte list \<Rightarrow> bool" where
  "stands_for lim p pre \<longleftrightarrow> LF \<notin> set pre
     \<and> (if length pre \<le> lim + 1 then bytes p = pre \<and> \<not> oversized p else bytes p = [] \<and> oversized p)"

lemma stands_for_extend:
  assumes "stands_for lim p pre" "LF \<notin> set chunk"
  shows "stands_for lim (if oversized p then p else extend_bounded p chunk (lim + 1)) (pre @ chunk)"
  using assms by (auto simp: stands_for_def extend_bounded_def Let_def split: if_splits)

lemma stands_for_empty:
  "stands_for lim p pre \<Longrightarrow> (oversized p \<or> bytes p \<noteq> []) \<longleftrightarrow> pre \<noteq> []"
  by (auto simp: stands_for_def split: if_splits)

lemma decode_large: "length l > lim + 1 \<Longrightarrow> decode lim (strip_cr l) = Some TooLarge"
  by (auto simp: decode_def strip_cr_def)

text \<open>\<open>finish\<close> is the reference decoding of the line, and leaves a fresh partial record.\<close>

lemma finish_decode:
  assumes "stands_for lim p pre"
  obtains p' where "stands_for lim p' []"
    "finish lim nl p =
       ((case decode lim (if nl then strip_cr pre else pre) of None \<Rightarrow> InvalidUtf8 | Some f \<Rightarrow> Got f), p')"
proof -
  have "stands_for lim (snd (finish lim nl p)) []"
    by (auto simp: finish_def stands_for_def Let_def)
  moreover have "fst (finish lim nl p) =
      (case decode lim (if nl then strip_cr pre else pre) of None \<Rightarrow> InvalidUtf8 | Some f \<Rightarrow> Got f)"
  proof (cases "length pre \<le> lim + 1")
    case True
    with assms have "bytes p = pre" "\<not> oversized p" by (auto simp: stands_for_def)
    then show ?thesis by (auto simp: finish_def decode_def strip_cr_def Let_def)
  next
    case False
    with assms have "bytes p = []" "oversized p" by (auto simp: stands_for_def)
    moreover have "decode lim (if nl then strip_cr pre else pre) = Some TooLarge"
      using False decode_large [of lim pre] by (cases nl) (simp_all add: decode_def)
    ultimately show ?thesis by (auto simp: finish_def Let_def)
  qed
  ultimately show ?thesis using that by (metis prod.collapse)
qed

lemma takeWhile_line:
  "LF \<notin> set pre \<Longrightarrow> takeWhile (\<lambda>b. b \<noteq> LF) (pre @ ys) = pre @ takeWhile (\<lambda>b. b \<noteq> LF) ys"
  by (induction pre) auto

lemma LF_notin_takeWhile [simp]: "LF \<notin> set (takeWhile (\<lambda>b. b \<noteq> LF) xs)"
  by (auto dest: set_takeWhileD)

lemma takeWhile_split:
  "length (takeWhile (\<lambda>b. b \<noteq> x) xs) < length xs \<Longrightarrow>
   xs = takeWhile (\<lambda>b. b \<noteq> x) xs @ x # drop (length (takeWhile (\<lambda>b. b \<noteq> x) xs) + 1) xs"
  by (induction xs) auto

lemma takeWhile_whole: "\<not> length (takeWhile P xs) < length xs \<Longrightarrow> takeWhile P xs = xs"
  by (induction xs) (auto split: if_splits)

text \<open>The outcomes of one \<open>next\<close>, against the text still to come.\<close>

definition decoded :: "nat \<Rightarrow> byte list \<Rightarrow> next_result" where
  "decoded lim l = (case decode lim l of None \<Rightarrow> InvalidUtf8 | Some f \<Rightarrow> Got f)"

inductive outcome ::
  "nat \<Rightarrow> byte list \<Rightarrow> bool \<Rightarrow> next_result \<times> read list \<times> partial \<Rightarrow> bool" for lim where
  ended: "outcome lim [] False (EndOfStream, rs', p')"
| failed: "LF \<notin> set text \<Longrightarrow> outcome lim text True (IoFailed, rs', p')"
| dropped: "stands_for lim p' pre' \<Longrightarrow> pre' @ text_of rs' = text \<Longrightarrow> broken rs' = broke \<Longrightarrow>
    outcome lim text broke (Dropped, rs', p')"
| line: "stands_for lim p' [] \<Longrightarrow> LF \<notin> set l \<Longrightarrow> text = l @ LF # text_of rs' \<Longrightarrow>
    broken rs' = broke \<Longrightarrow> outcome lim text broke (decoded lim (strip_cr l), rs', p')"
| last: "stands_for lim p' [] \<Longrightarrow> LF \<notin> set text \<Longrightarrow> text \<noteq> [] \<Longrightarrow>
    outcome lim text False (decoded lim text, [], p')"

lemma next_loop_outcome: "stands_for lim p pre \<Longrightarrow> outcome lim (pre @ text_of rs) (broken rs) (next_loop lim rs p)"
proof (induction lim rs p arbitrary: pre rule: next_loop.induct)
  case (1 lim p)
  show ?case
  proof (cases "pre = []")
    case True
    then have "\<not> (oversized p \<or> bytes p \<noteq> [])" using stands_for_empty [OF 1] by simp
    then show ?thesis using True by (simp add: broken_def ended)
  next
    case False
    obtain p' where p': "stands_for lim p' []" "finish lim False p = (decoded lim pre, p')"
      using finish_decode [OF 1, of False] by (auto simp: decoded_def)
    have "oversized p \<or> bytes p \<noteq> []" using False stands_for_empty [OF 1] by simp
    then have "next_loop lim [] p = (decoded lim pre, [], p')" using p' by simp
    moreover have "outcome lim pre False (decoded lim pre, [], p')"
      by (rule last) (use p' 1 False in \<open>auto simp: stands_for_def\<close>)
    ultimately show ?thesis by (simp add: broken_def)
  qed
next
  case (2 lim rs p)
  then show ?case by (auto intro: dropped simp: broken_def)
next
  case (3 lim rs p)
  then show ?case by (simp add: failed broken_def stands_for_def)
next
  case (4 lim available rs p)
  let ?upto = "takeWhile (\<lambda>b. b \<noteq> LF) available"
  let ?p1 = "if oversized p then p else extend_bounded p ?upto (lim + 1)"
  have p1: "stands_for lim ?p1 (pre @ ?upto)" using 4(3) by (rule stands_for_extend) simp
  have b: "broken (Chunk c # rs) = broken rs" for c by (auto simp: broken_def)
  consider "available = []" | "available \<noteq> []" "length ?upto < length available"
    | "available \<noteq> []" "\<not> length ?upto < length available" by blast
  then show ?case
  proof cases
    case 1
    then show ?thesis using 4(1) [OF 1 4(3)] by (simp add: b)
  next
    case 2
    obtain p' where p': "stands_for lim p' []" "finish lim True ?p1 = (decoded lim (strip_cr (pre @ ?upto)), p')"
      using finish_decode [OF p1, of True] by (auto simp: decoded_def)
    have split: "available = ?upto @ LF # drop (length ?upto + 1) available"
      using 2(2) by (rule takeWhile_split)
    have "outcome lim (pre @ text_of (Chunk available # rs)) (broken (Chunk available # rs))
        (decoded lim (strip_cr (pre @ ?upto)), Chunk (drop (length ?upto + 1) available) # rs, p')"
    proof (rule line)
      show "pre @ text_of (Chunk available # rs)
          = (pre @ ?upto) @ LF # text_of (Chunk (drop (length ?upto + 1) available) # rs)"
        using arg_cong [OF split, of "\<lambda>c. pre @ c @ text_of rs"] by simp
    qed (use p' p1 b in \<open>auto simp: stands_for_def\<close>)
    then show ?thesis using 2 p' by (simp add: Let_def)
  next
    case 3
    then have "?upto = available" by (intro takeWhile_whole)
    then have tx: "pre @ text_of (Chunk available # rs) = (pre @ ?upto) @ text_of rs"
      by (simp only: text_of.simps append_assoc)
    have nl: "next_loop lim (Chunk available # rs) p = next_loop lim rs ?p1"
      using 3 by (simp add: Let_def)
    show ?thesis unfolding tx nl b by (rule 4(2) [OF 3(1) refl refl refl 3(2) p1])
  qed
qed

lemma split_frames_line:
  "LF \<notin> set l \<Longrightarrow> split_frames lim broke (l @ LF # rest) =
     (case decode lim (strip_cr l) of
        None \<Rightarrow> ([], Corrupt)
      | Some f \<Rightarrow> (let (fs, e) = split_frames lim broke rest in (f # fs, e)))"
  by (subst split_frames.simps) (simp add: takeWhile_line split: option.split)

lemma split_frames_last:
  "LF \<notin> set tx \<Longrightarrow> split_frames lim broke tx =
     (if broke then ([], Broken) else if tx = [] then ([], Finished)
      else (case decode lim tx of None \<Rightarrow> ([], Corrupt) | Some f \<Rightarrow> ([f], Finished)))"
proof -
  assume "LF \<notin> set tx"
  then have tw: "takeWhile (\<lambda>b. b \<noteq> LF) tx = tx" by (auto intro: takeWhile_eq_all_conv [THEN iffD2])
  show ?thesis by (subst split_frames.simps, unfold tw Let_def) simp
qed

lemma read_frames_split:
  "stands_for lim p pre \<Longrightarrow> read_frames lim rs p = split_frames lim (broken rs) (pre @ text_of rs)"
proof (induction lim rs p arbitrary: pre rule: read_frames.induct)
  case (1 lim rs p)
  obtain r rs' p' where n: "next_loop lim rs p = (r, rs', p')" by (metis prod.exhaust)
  have "outcome lim (pre @ text_of rs) (broken rs) (r, rs', p')"
    using next_loop_outcome [OF 1(3), of rs] n by simp
  then show ?case
  proof cases
    case ended
    then show ?thesis using n by (simp add: read_frames.simps [of lim rs p] split_frames_last)
  next
    case failed
    then show ?thesis using n by (simp add: read_frames.simps [of lim rs p] split_frames_last)
  next
    case (dropped pre')
    then show ?thesis
      using 1(2) [OF n [symmetric] \<open>r = Dropped\<close> refl, of pre'] n by (simp add: read_frames.simps [of lim rs p])
  next
    case (line l)
    show ?thesis
    proof (cases "decode lim (strip_cr l)")
      case None
      then show ?thesis using n line
        by (simp add: read_frames.simps [of lim rs p] decoded_def split_frames_line)
    next
      case (Some f)
      then have "read_frames lim rs' p' = split_frames lim (broken rs') ([] @ text_of rs')"
        using 1(1) [OF n [symmetric], of f rs' p' "[]"] line by (simp add: decoded_def)
      with Some n line show ?thesis
        by (simp add: read_frames.simps [of lim rs p] decoded_def split_frames_line)
    qed
  next
    case last
    have fresh: "read_frames lim [] p' = ([], Finished)"
      using stands_for_empty [OF \<open>stands_for lim p' []\<close>] by (simp add: read_frames.simps [of lim "[]"])
    show ?thesis
      using n last fresh
      by (simp add: read_frames.simps [of lim rs p] decoded_def split_frames_last split: option.split)
  qed
qed

section \<open>Memory\<close>

text \<open>The vector never outgrows the record ceiling.\<close>

definition frames_inv :: "frames \<Rightarrow> bool" where
  "frames_inv f \<longleftrightarrow> length (bytes (partial f)) \<le> capacity (partial f) \<and> capacity (partial f) \<le> maximum f + 1"

lemma extend_bounded_cap:
  "length (bytes p) \<le> capacity p \<Longrightarrow> capacity p \<le> ceiling \<Longrightarrow>
   length (bytes (extend_bounded p c ceiling)) \<le> capacity (extend_bounded p c ceiling)
   \<and> capacity (extend_bounded p c ceiling) \<le> ceiling"
  by (auto simp: extend_bounded_def Let_def)

lemma finish_cap:
  "length (bytes p) \<le> capacity p \<Longrightarrow> capacity p \<le> n \<Longrightarrow> finish lim nl p = (r, p') \<Longrightarrow>
   length (bytes p') \<le> capacity p' \<and> capacity p' \<le> n"
  by (auto simp: finish_def Let_def split: if_splits)

lemma next_loop_cap:
  "length (bytes p) \<le> capacity p \<Longrightarrow> capacity p \<le> lim + 1 \<Longrightarrow> next_loop lim rs p = (r, rs', p') \<Longrightarrow>
   length (bytes p') \<le> capacity p' \<and> capacity p' \<le> lim + 1"
proof (induction lim rs p rule: next_loop.induct)
  case (1 lim p)
  obtain r1 p1 where f: "finish lim False p = (r1, p1)" by fastforce
  then show ?case using 1 finish_cap [OF 1(1,2) f] by (auto split: if_splits)
next
  case (4 lim available rs p)
  let ?upto = "takeWhile (\<lambda>b. b \<noteq> LF) available"
  let ?p1 = "if oversized p then p else extend_bounded p ?upto (lim + 1)"
  have p1: "length (bytes ?p1) \<le> capacity ?p1" "capacity ?p1 \<le> lim + 1"
    using 4(3,4) extend_bounded_cap by simp_all
  consider "available = []" | "available \<noteq> []" "length ?upto < length available"
    | "available \<noteq> []" "\<not> length ?upto < length available" by blast
  then show ?case
  proof cases
    case 1
    then show ?thesis using 4(1) [OF 1 4(3,4)] 4(5) by simp
  next
    case 2
    then obtain p2 where "finish lim True ?p1 = (r, p2)" "p' = p2"
      using 4(5) by (auto simp: Let_def split: prod.splits)
    with p1 finish_cap show ?thesis by blast
  next
    case 3
    then have "next_loop lim rs ?p1 = (r, rs', p')" using 4(5) by (simp add: Let_def)
    then show ?thesis by (rule 4(2) [OF 3(1) refl refl refl 3(2) p1])
  qed
qed auto

interpretation framing: bounded_machine "\<lambda>_::unit. \<lambda>f. snd (next_frame f)" frames_inv
  "\<lambda>f. capacity (partial f)" "\<lambda>f. maximum f + 1"
proof unfold_locales
  show "frames_inv (snd (next_frame f))" if "frames_inv f" for f
  proof -
    obtain r rs p where n: "next_loop (maximum f) (reader f) (partial f) = (r, rs, p)"
      by (metis prod.exhaust)
    with that next_loop_cap [OF _ _ n] show ?thesis by (simp add: frames_inv_def next_frame_def)
  qed
qed (auto simp: frames_inv_def next_frame_def split: prod.split)

section \<open>Properties\<close>

text \<open>
  C7. Framing does not depend on how the bytes arrive. However the stream is cut into reads, and
  wherever a call of \<open>next\<close> is dropped and made again, the frames are those of splitting the whole
  text at LF: each line less one CR if it fits the bound, else \<open>TooLarge\<close> for exactly that line, with
  the next record starting fresh behind its LF; a non-empty rest at the end of the stream is a
  record; a bounded record that is not UTF-8, or a failing read, ends the stream.
\<close>

theorem framing_chunk_independent:
  "read_frames lim rs \<lparr>bytes = [], capacity = 0, oversized = False\<rparr>
     = split_frames lim (broken rs) (text_of rs)"
  using read_frames_split [of lim "\<lparr>bytes = [], capacity = 0, oversized = False\<rparr>" "[]" rs]
  by (simp add: stands_for_def)

text \<open>
  Bounded memory. After any number of calls of \<open>next\<close> on any stream, the vector's capacity is at
  most one byte over the record bound, and a line handed out is valid UTF-8 within the bound.
\<close>

lemma framing_bounded:
  "(case frames_new rs lim of
      None \<Rightarrow> usize_max \<le> lim
    | Some f \<Rightarrow>
        capacity (partial (fold (\<lambda>_. snd \<circ> next_frame) (calls :: unit list) f)) \<le> lim + 1)
   \<and> list_all (\<lambda>f. case f of Line l \<Rightarrow> length l \<le> lim \<and> utf8_valid l | TooLarge \<Rightarrow> True)
       (fst (read_frames lim rs \<lparr>bytes = [], capacity = 0, oversized = False\<rparr>))"
proof -
  have "list_all (\<lambda>f. case f of Line l \<Rightarrow> length l \<le> lim \<and> utf8_valid l | TooLarge \<Rightarrow> True)
      (fst (split_frames lim b t))" for b t
  proof (induction lim b t rule: split_frames.induct)
    case (1 lim b t)
    have d: "case f of Line l \<Rightarrow> length l \<le> lim \<and> utf8_valid l | TooLarge \<Rightarrow> True"
      if "decode lim x = Some f" for x f
      using that by (auto simp: decode_def split: if_splits)
    show ?case
      using 1 d by (subst split_frames.simps) (auto simp: Let_def split: option.split prod.splits)
  qed
  moreover have "capacity (partial (fold (\<lambda>_. snd \<circ> next_frame) calls f)) \<le> lim + 1"
    if "frames_new rs lim = Some f" for f
    using that framing.run_load [of f calls]
    by (auto simp: frames_new_def frames_inv_def comp_def split: if_splits)
  ultimately show ?thesis
    unfolding framing_chunk_independent by (auto simp: frames_new_def)
qed

end
