(* ===== verification/Envelopes.thy ===== *)
theory Envelopes
  imports Json_Value Text_Format "HOL-Library.Word"
begin

text \<open>
  The identity-bearing values of \<open>shelllist-daemon-core\<close>: \<open>endpoint.rs\<close> (endpoints and the process
  local identifier source), \<open>envelope.rs\<close> and \<open>wire.rs\<close> (responses, errors, events). A field of
  type \<open>T: Serialize\<close> is the JSON value it serialises to. \<open>to_value\<close> of a struct is the object of
  its fields, an absent optional one omitted, as its derive attributes state.
\<close>

section \<open>Endpoints and identifiers\<close>

record daemon_endpoint =
  executable :: ustring
  bus_name :: ustring
  object_path :: ustring
  interface :: ustring

type_synonym id_sequence = "64 word"

definition id_sequence_default :: id_sequence where
  "id_sequence_default = 1"

text \<open>\<open>fetch_add\<close> wraps; the result uses the value before the addition.\<close>

definition next_id :: "id_sequence \<Rightarrow> ustring \<Rightarrow> ustring \<times> id_sequence" where
  "next_id s prefix = (prefix @ CHR ''-'' # decimal (unat s), s + 1)"

text \<open>The identifiers of a sequence of calls.\<close>

fun take_ids :: "id_sequence \<Rightarrow> ustring list \<Rightarrow> ustring list" where
  "take_ids s [] = []"
| "take_ids s (p # ps) = (let (i, s') = next_id s p in i # take_ids s' ps)"

section \<open>Envelopes\<close>

record api_identity =
  protocol :: ustring
  version :: "32 word"

record api_error =
  code :: ustring
  message :: ustring
  retryable :: "bool option"
  details :: "json option"

definition api_error_new :: "ustring \<Rightarrow> ustring \<Rightarrow> api_error" where
  "api_error_new c m = \<lparr>code = c, message = m, retryable = None, details = None\<rparr>"

definition with_retryable :: "bool \<Rightarrow> api_error \<Rightarrow> api_error" where
  "with_retryable b e = e\<lparr>retryable := Some b\<rparr>"

definition with_details :: "json \<Rightarrow> api_error \<Rightarrow> api_error" where
  "with_details d e = e\<lparr>details := Some d\<rparr>"

definition optional_field :: "ustring \<Rightarrow> ('a \<Rightarrow> json) \<Rightarrow> 'a option \<Rightarrow> (ustring \<times> json) list" where
  "optional_field k f v = (case v of None \<Rightarrow> [] | Some x \<Rightarrow> [(k, f x)])"

text \<open>\<open>Map::from_iter\<close>, then two \<open>extend\<close>s.\<close>

definition into_value :: "api_error \<Rightarrow> json" where
  "into_value e =
     (let value = obj_of [(''code'', JString (code e)), (''message'', JString (message e))];
          value = fold (\<lambda>(k, v). obj_insert k v) (optional_field ''retryable'' JBool (retryable e)) value;
          value = fold (\<lambda>(k, v). obj_insert k v) (optional_field ''details'' id (details e)) value
      in JObject value)"

text \<open>The derived serialisation of the same struct.\<close>

definition api_error_json :: "api_error \<Rightarrow> json" where
  "api_error_json e =
     jobj ([(''code'', JString (code e)), (''message'', JString (message e))]
       @ optional_field ''retryable'' JBool (retryable e) @ optional_field ''details'' id (details e))"

datatype correlation = NoCorrelation | CorrSubscription ustring | CorrRequest ustring | CorrBoth ustring ustring

definition number_json :: "32 word \<Rightarrow> json" where
  "number_json w = JNumber (PosInt (unat w))"

definition success :: "api_identity \<Rightarrow> json \<Rightarrow> json option" where
  "success api d =
     json_set ''data'' d (jobj [(''protocol'', JString (protocol api)),
       (''version'', number_json (version api)), (''ok'', JBool True)])"

definition error_response :: "api_identity \<Rightarrow> api_error \<Rightarrow> json option" where
  "error_response api e =
     json_set ''error'' (into_value e) (jobj [(''protocol'', JString (protocol api)),
       (''version'', number_json (version api)), (''ok'', JBool False)])"

record event =
  ev_protocol :: ustring
  ev_version :: "32 word"
  ev_stream :: ustring
  ev_event :: ustring
  ev_subscription_id :: "ustring option"
  ev_request_id :: "ustring option"
  ev_data :: json
  ev_error :: "api_error option"

definition event_new :: "api_identity \<Rightarrow> ustring \<Rightarrow> ustring \<Rightarrow> correlation \<Rightarrow> json \<Rightarrow> event" where
  "event_new api stream name corr d =
     (let (sub, req) = (case corr of
            NoCorrelation \<Rightarrow> (None, None)
          | CorrSubscription i \<Rightarrow> (Some i, None)
          | CorrRequest i \<Rightarrow> (None, Some i)
          | CorrBoth s r \<Rightarrow> (Some s, Some r))
      in \<lparr>ev_protocol = protocol api, ev_version = version api, ev_stream = stream, ev_event = name,
          ev_subscription_id = sub, ev_request_id = req, ev_data = d, ev_error = None\<rparr>)"

definition event_with_error :: "api_error \<Rightarrow> event \<Rightarrow> event" where
  "event_with_error e ev = ev\<lparr>ev_error := Some e\<rparr>"

definition event_into_value :: "event \<Rightarrow> json" where
  "event_into_value ev =
     jobj ([(''protocol'', JString (ev_protocol ev)), (''version'', number_json (ev_version ev)),
        (''stream'', JString (ev_stream ev)), (''event'', JString (ev_event ev))]
       @ optional_field ''subscription_id'' JString (ev_subscription_id ev)
       @ optional_field ''request_id'' JString (ev_request_id ev)
       @ [(''data'', ev_data ev)]
       @ optional_field ''error'' api_error_json (ev_error ev))"

record event_body =
  body_data :: json
  body_error :: "api_error option"

definition body_of_data :: "json \<Rightarrow> event_body" where
  "body_of_data d = \<lparr>body_data = d, body_error = None\<rparr>"

definition body_of_error :: "api_error \<Rightarrow> event_body" where
  "body_of_error e = \<lparr>body_data = jobj [], body_error = Some e\<rparr>"

definition body_envelope :: "event_body \<Rightarrow> api_identity \<Rightarrow> ustring \<Rightarrow> ustring \<Rightarrow> correlation \<Rightarrow> event" where
  "body_envelope b api stream name corr =
     (event_new api stream name corr (body_data b))\<lparr>ev_error := body_error b\<rparr>"

datatype gap_reason = SubscriberLag | SourceReset

record gap =
  reason :: gap_reason
  dropped_events :: ustring

definition lagged :: "64 word \<Rightarrow> gap" where
  "lagged n = \<lparr>reason = SubscriberLag, dropped_events = decimal (unat n)\<rparr>"

text \<open>The typed response structs \<open>Success\<close> and \<open>Failure\<close>, serialised.\<close>

definition success_struct :: "api_identity \<Rightarrow> json \<Rightarrow> json" where
  "success_struct api d =
     jobj [(''protocol'', JString (protocol api)), (''version'', number_json (version api)),
       (''ok'', JBool True), (''data'', d)]"

definition failure_struct :: "api_identity \<Rightarrow> api_error \<Rightarrow> json" where
  "failure_struct api e =
     jobj [(''protocol'', JString (protocol api)), (''version'', number_json (version api)),
       (''ok'', JBool False), (''error'', api_error_json e)]"

section \<open>Lemmas\<close>

lemma into_value_json: "into_value e = api_error_json e"
  by (simp add: into_value_def api_error_json_def jobj_def obj_of_def Let_def)

lemma number_json_inj [simp]: "number_json v = number_json w \<longleftrightarrow> v = w"
  by (simp add: number_json_def word_unat_eq_iff)

lemma optional_field_get: "map_of (rev (optional_field k f v)) x = (if x = k then map_option f v else None)"
  by (simp add: optional_field_def split: option.split)

lemma take_ids_nth: "n < length ps \<Longrightarrow> take_ids s ps ! n = ps ! n @ CHR ''-'' # decimal (unat (s + of_nat n))"
  by (induction ps arbitrary: s n) (auto simp: next_id_def less_Suc_eq_0_disj add_ac)

lemma length_take_ids [simp]: "length (take_ids s ps) = length ps"
  by (induction ps arbitrary: s) (auto simp: next_id_def)

section \<open>Properties\<close>

text \<open>
  Identifiers are unique. Whatever the starting value and the prefixes, the identifiers of up to
  \<open>2 ^ 64\<close> calls on one sequence are pairwise different, across the wrap-around of the counter too.
\<close>

lemma ids_distinct:
  assumes "length ps \<le> 2 ^ 64"
  shows "distinct (take_ids s ps)"
  unfolding distinct_conv_nth
proof (intro allI impI)
  fix i j
  assume ij: "i < length (take_ids s ps)" "j < length (take_ids s ps)" "i \<noteq> j"
  show "take_ids s ps ! i \<noteq> take_ids s ps ! j"
  proof
    assume "take_ids s ps ! i = take_ids s ps ! j"
    then have "unat (s + of_nat i) = unat (s + of_nat j)"
      using ij by (auto simp: take_ids_nth dest: dash_suffix_unique)
    then have "s + of_nat i = s + of_nat j" by (simp only: word_unat_eq_iff)
    then have "(of_nat i :: 64 word) = of_nat j" by (simp only: add_left_cancel)
    then have eq: "take_bit 64 i = take_bit 64 j"
      by (simp add: word_of_nat_eq_iff)
    have "i < 2 ^ 64" "j < 2 ^ 64" using ij assms by (simp_all only: length_take_ids)
    then have "i = j" using eq by (simp only: take_bit_nat_eq_self)
    with ij(3) show False by simp
  qed
qed

lemma ids_distinct_witness:
  "distinct (take_ids (- 1) [''op'', ''op-1'', ''op''])
   \<and> take_ids 7 [''op'', ''sub''] = [''op-7'', ''sub-8'']"
proof
  show "distinct (take_ids (- 1) [''op'', ''op-1'', ''op''])" by (rule ids_distinct) simp
  show "take_ids 7 [''op'', ''sub''] = [''op-7'', ''sub-8'']"
    by (simp add: next_id_def decimal.simps digit_def char_of_def bit_iff_odd)
qed

text \<open>
  Domain data never overwrites identity. Every response, error and event carries the API's
  protocol and version under their keys, whatever the payload, together with its own marker and the
  payload itself; building the responses never panics, and the typed structs serialise to the same
  values as the untyped constructors.
\<close>

lemma identity_is_kept:
  "(\<exists>r. success api d = Some r \<and> r = success_struct api d
      \<and> json_get ''protocol'' r = Some (JString (protocol api))
      \<and> json_get ''version'' r = Some (number_json (version api))
      \<and> json_get ''ok'' r = Some (JBool True) \<and> json_get ''data'' r = Some d)
   \<and> (\<exists>r. error_response api e = Some r \<and> r = failure_struct api e
      \<and> json_get ''protocol'' r = Some (JString (protocol api))
      \<and> json_get ''version'' r = Some (number_json (version api))
      \<and> json_get ''ok'' r = Some (JBool False) \<and> json_get ''error'' r = Some (api_error_json e))
   \<and> (let v = event_into_value (body_envelope b api stream name corr)
      in json_get ''protocol'' v = Some (JString (protocol api))
         \<and> json_get ''version'' v = Some (number_json (version api))
         \<and> json_get ''stream'' v = Some (JString stream) \<and> json_get ''event'' v = Some (JString name)
         \<and> json_get ''data'' v = Some (body_data b)
         \<and> json_get ''error'' v = map_option api_error_json (body_error b)
         \<and> json_get ''subscription_id'' v =
             (case corr of CorrSubscription s \<Rightarrow> Some (JString s) | CorrBoth s _ \<Rightarrow> Some (JString s) | _ \<Rightarrow> None)
         \<and> json_get ''request_id'' v =
             (case corr of CorrRequest r \<Rightarrow> Some (JString r) | CorrBoth _ r \<Rightarrow> Some (JString r) | _ \<Rightarrow> None))"
proof (intro conjI, goal_cases)
  case 1
  show ?case by (simp add: success_def success_struct_def json_set_jobj)
next
  case 2
  show ?case by (simp add: error_response_def failure_struct_def json_set_jobj into_value_json)
next
  case 3
  show ?case
    by (cases corr)
      (simp_all add: event_into_value_def body_envelope_def event_new_def Let_def optional_field_get map_add_def
        split: option.split)
qed

end
