(* ===== verification/Protocol.thy ===== *)
theory Protocol
  imports Json_Value Text_Format
begin

text \<open>
  The declared protocol: \<open>contract.rs\<close> (method policies), \<open>protocol.rs\<close> (registry names) and the
  generator \<open>bin/shelllist-protocol-js.rs\<close> (which schemas it accepts and what it emits). JSON text
  is \<open>serde_json\<close>'s, the parameter \<open>encode\<close>; the embedded validation runtime is the parameter
  \<open>validation\<close>. Reflection of Rust types into schemas (\<open>schemars\<close>) and the method macro, whose
  expansion depends on its use sites, are not modelled. Errors are their texts.
\<close>

definition contract_version :: nat where
  "contract_version = 2"

datatype execution_mode = ExecRead | ExecEffect | ExecOperation
datatype sensitivity = PublicRead | SensitiveRead | SensitiveEffect
datatype stream_semantics = Snapshot | Invalidation | Transitions

record method_policy =
  execution :: execution_mode
  policy_sensitivity :: sensitivity
  conflict_domain :: ustring
  ack_budget_ms :: nat
  request_bytes :: nat
  result_bytes :: nat
  max_in_flight :: nat
  max_owner_in_flight :: nat

definition method_policy_new :: "execution_mode \<Rightarrow> sensitivity \<Rightarrow> ustring \<Rightarrow> method_policy" where
  "method_policy_new e s d =
     \<lparr>execution = e, policy_sensitivity = s, conflict_domain = d, ack_budget_ms = 30000,
      request_bytes = 1024 * 1024, result_bytes = 16 * 1024 * 1024, max_in_flight = 16,
      max_owner_in_flight = 8\<rparr>"

section \<open>Registry names\<close>

fun unique_from :: "ustring set \<Rightarrow> ustring list \<Rightarrow> ustring + unit" where
  "unique_from seen [] = ok ()"
| "unique_from seen (v # vs) =
     (if v \<in> seen then err (''duplicate protocol name: '' @ v) else unique_from (insert v seen) vs)"

definition validate_unique_names :: "ustring list \<Rightarrow> ustring + unit" where
  "validate_unique_names = unique_from {}"

definition ok_or :: "'e \<Rightarrow> 'a option \<Rightarrow> 'e + 'a" where
  "ok_or e x = (case x of None \<Rightarrow> err e | Some v \<Rightarrow> ok v)"

definition and_then :: "'e + 'a \<Rightarrow> ('a \<Rightarrow> 'e + 'b) \<Rightarrow> 'e + 'b" where
  "and_then r f = (case r of Inl e \<Rightarrow> err e | Inr v \<Rightarrow> f v)"

text \<open>An iterator collected into a \<open>Result\<close>, and \<open>try_for_each\<close>: both stop at the first error.\<close>

fun collect_result :: "('e + 'a) list \<Rightarrow> 'e + 'a list" where
  "collect_result [] = ok []"
| "collect_result (r # rs) = and_then r (\<lambda>v. and_then (collect_result rs) (\<lambda>vs. ok (v # vs)))"

fun try_each :: "('a \<Rightarrow> 'e + unit) \<Rightarrow> 'a list \<Rightarrow> 'e + unit" where
  "try_each f [] = ok ()"
| "try_each f (x # xs) = and_then (f x) (\<lambda>_. try_each f xs)"

definition registry_names :: "json \<Rightarrow> ustring \<Rightarrow> ustring + ustring list" where
  "registry_names registry section' =
     and_then (ok_or (''protocol registry section is missing: '' @ section')
         (Option.bind (json_get section' registry) as_array))
       (\<lambda>items. collect_result (map (\<lambda>item.
          ok_or (''protocol registry name is invalid: '' @ section')
            (Option.bind (json_get ''name'' item) as_str)) items))"

definition fixture_names :: "json \<Rightarrow> ustring \<Rightarrow> ustring + ustring list" where
  "fixture_names fixture section' =
     and_then (ok_or ''fixture registry is missing'' (json_get ''registry'' fixture))
       (\<lambda>registry. registry_names registry section')"

section \<open>Supported schemas\<close>

definition map_keywords :: "ustring list" where
  "map_keywords = [''$defs'', ''properties'']"

definition list_keywords :: "ustring list" where
  "list_keywords = [''allOf'', ''anyOf'', ''oneOf'']"

definition schema_keywords :: "ustring list" where
  "schema_keywords = [''items'', ''additionalProperties'', ''not'']"

definition plain_keywords :: "ustring list" where
  "plain_keywords = [''$schema'', ''$id'', ''$ref'', ''title'', ''description'', ''default'', ''examples'',
     ''deprecated'', ''readOnly'', ''writeOnly'', ''format'', ''type'', ''const'', ''enum'',
     ''required'', ''minimum'', ''maximum'', ''exclusiveMinimum'', ''exclusiveMaximum'',
     ''minLength'', ''maxLength'', ''pattern'', ''minItems'', ''maxItems'']"

definition local_ref :: "json \<Rightarrow> bool" where
  "local_ref v = (case as_str v of Some r \<Rightarrow> take 2 r = ''#/'' | None \<Rightarrow> False)"

lemma try_each_cong [fundef_cong]:
  "xs = ys \<Longrightarrow> (\<And>x. x \<in> set ys \<Longrightarrow> f x = g x) \<Longrightarrow> try_each f xs = try_each g ys"
  by (induction ys arbitrary: xs) (auto simp: and_then_def split: sum.split)

lemma size_member: "(k, v) \<in> set m \<Longrightarrow> size (v :: json) < Suc (size_list (size_prod (\<lambda>_. 0) size) m)"
  by (induction m) auto

lemma size_list_elem: "v \<in> set xs \<Longrightarrow> size (v :: json) < Suc (size_list size xs)"
  by (induction xs) auto

function check_schema :: "json \<Rightarrow> ustring + unit" where
  "check_schema schema =
     (case schema of
        JBool _ \<Rightarrow> ok ()
      | JObject object \<Rightarrow>
          try_each (\<lambda>(key, value).
            if key \<in> set map_keywords
            then (case value of JObject m \<Rightarrow> try_each check_schema (map snd m)
                              | _ \<Rightarrow> err ''schema map must be an object'')
            else if key \<in> set list_keywords
            then (case value of JArray vs \<Rightarrow> try_each check_schema vs
                              | _ \<Rightarrow> err ''schema alternatives must be an array'')
            else if key \<in> set schema_keywords then check_schema value
            else if key = ''$ref'' \<and> \<not> local_ref value
            then err ''only local schema references are supported''
            else if key \<in> set plain_keywords then ok ()
            else err (''unsupported QML schema keyword: '' @ key)) object
      | _ \<Rightarrow> err ''schema must be boolean or object'')"
  by pat_completeness auto
termination
proof (relation "measure size", goal_cases)
  case (2 schema object x key val m v)
  then have "size v < Suc (size_list (size_prod (\<lambda>_. 0) size) m)" using size_member by auto
  moreover have "size val < size schema" using 2 size_member [of key val object] by auto
  ultimately show ?case using 2 by simp
next
  case (3 schema object x key val vs v)
  then have "size v < Suc (size_list size vs)" using size_list_elem by auto
  moreover have "size val < size schema" using 3 size_member [of key val object] by auto
  ultimately show ?case using 3 by simp
next
  case (4 schema object x key val)
  then show ?case using size_member [of key val object] by auto
qed simp

declare check_schema.simps [simp del]

section \<open>The generator\<close>

record method_contract =
  params_schema :: json
  contract_policy :: json
  response_key :: json
  result_schema :: json

text \<open>
  The loop over the methods, from the contracts collected so far: a method without both schemas is
  skipped before its name is read, and \<open>BTreeMap::insert\<close> keeps the last contract of a name.
\<close>

fun collect_contracts ::
  "json list \<Rightarrow> (ustring \<times> method_contract) list \<Rightarrow> ustring + (ustring \<times> method_contract) list"
where
  "collect_contracts [] contracts = ok contracts"
| "collect_contracts (m # ms) contracts =
     (case (json_get ''params_schema'' m, json_get ''result_schema'' m) of
        (Some ps, Some rs) \<Rightarrow>
          and_then (check_schema ps) (\<lambda>_. and_then (check_schema rs) (\<lambda>_.
            and_then (ok_or ''missing method name'' (as_str (json_index ''name'' m))) (\<lambda>name.
              collect_contracts ms (obj_insert name
                \<lparr>params_schema = ps, contract_policy = json_index ''policy'' m,
                  response_key = json_index ''response_key'' m, result_schema = rs\<rparr> contracts))))
      | _ \<Rightarrow> collect_contracts ms contracts)"

definition method_contracts :: "json \<Rightarrow> ustring + (ustring \<times> method_contract) list" where
  "method_contracts registry =
     and_then (ok_or ''methods must be an array'' (as_array (json_index ''methods'' registry)))
       (\<lambda>methods. collect_contracts methods [])"

fun collect_entries :: "json \<Rightarrow> json list \<Rightarrow> (ustring \<times> json) list \<Rightarrow> ustring + (ustring \<times> json) list" where
  "collect_entries stream [] events = ok events"
| "collect_entries stream (entry # entries) events =
     (case json_get ''data_schema'' entry of
        None \<Rightarrow> collect_entries stream entries events
      | Some schema \<Rightarrow>
          and_then (check_schema schema) (\<lambda>_.
            and_then (ok_or ''stream name'' (as_str (json_index ''name'' stream))) (\<lambda>sn.
              and_then (ok_or ''event name'' (as_str (json_index ''name'' entry))) (\<lambda>en.
                collect_entries stream entries (obj_insert (sn @ '':'' @ en) schema events)))))"

fun collect_streams :: "json list \<Rightarrow> (ustring \<times> json) list \<Rightarrow> ustring + (ustring \<times> json) list" where
  "collect_streams [] events = ok events"
| "collect_streams (stream # streams) events =
     and_then
       (collect_entries stream
          (case as_array (json_index ''events'' stream) of Some es \<Rightarrow> es | None \<Rightarrow> []) events)
       (collect_streams streams)"

definition event_contracts :: "json \<Rightarrow> ustring + (ustring \<times> json) list" where
  "event_contracts registry =
     and_then (ok_or ''streams must be an array'' (as_array (json_index ''streams'' registry)))
       (\<lambda>streams. collect_streams streams [])"

text \<open>
  \<open>qml_identifier\<close>. A byte of a multi-byte character is no ASCII letter, so bytes decide as
  \<open>char\<close>s do.
\<close>

definition ascii_alphabetic :: "char \<Rightarrow> bool" where
  "ascii_alphabetic c \<longleftrightarrow> (let n = (of_char c :: nat) in (65 \<le> n \<and> n \<le> 90) \<or> (97 \<le> n \<and> n \<le> 122))"

definition qml_identifier :: "ustring \<Rightarrow> bool" where
  "qml_identifier part =
     (case part of
        [] \<Rightarrow> False
      | c # cs \<Rightarrow> (ascii_alphabetic c \<or> c = CHR ''_'')
          \<and> list_all (\<lambda>c. ascii_alphabetic c \<or> is_digit c \<or> c = CHR ''_'') cs)"

fun split_on :: "char \<Rightarrow> ustring \<Rightarrow> ustring list" where
  "split_on d [] = [[]]"
| "split_on d (c # cs) =
     (if c = d then [] # split_on d cs
      else (case split_on d cs of [] \<Rightarrow> [[c]] | p # ps \<Rightarrow> (c # p) # ps))"

abbreviation nl :: ustring where "nl \<equiv> [CHR 0x0A]"

definition render_names :: "(json \<Rightarrow> ustring) \<Rightarrow> ustring \<Rightarrow> ustring list \<Rightarrow> ustring" where
  "render_names encode variable names =
     ''var '' @ variable @ '' = ({'' @ nl
     @ concat (map (\<lambda>n. ''    '' @ encode (JString n) @ '': '' @ encode (JString n) @ '','' @ nl) names)
     @ ''});'' @ nl"

definition contract_json :: "method_contract \<Rightarrow> json" where
  "contract_json c = jobj [(''params_schema'', params_schema c), (''policy'', contract_policy c),
     (''response_key'', response_key c), (''result_schema'', result_schema c)]"

definition runtime_functions :: "ustring \<Rightarrow> ustring" where
  "runtime_functions prefix =
     nl @ ''function eventError(envelope) {'' @ nl @ ''    return '' @ prefix
       @ ''validateEvent(eventContracts, envelope);'' @ nl @ ''}'' @ nl
     @ nl @ ''function requestError(method, params) {'' @ nl @ ''    return '' @ prefix
       @ ''validateRequest(contracts, method, params);'' @ nl @ ''}'' @ nl
     @ nl @ ''function responseError(method, envelope) {'' @ nl @ ''    return '' @ prefix
       @ ''validateResponse(contracts, method, envelope);'' @ nl @ ''}'' @ nl"

definition render :: "(json \<Rightarrow> ustring) \<Rightarrow> ustring \<Rightarrow> json \<Rightarrow> ustring option \<Rightarrow> ustring + ustring" where
  "render encode validation v runtime_import =
     and_then (ok_or ''protocol registry is missing protocol'' (as_str (json_index ''protocol'' v))) (\<lambda>protocol.
     and_then (ok_or ''protocol registry is missing version'' (as_u64 (json_index ''version'' v))) (\<lambda>version.
     and_then (ok_or ''protocol registry is missing registry data''
        (case json_get ''registry'' v of Some r \<Rightarrow> Some r | None \<Rightarrow> json_pointer [''data'', ''protocol''] v)) (\<lambda>registry.
     and_then (registry_names registry ''methods'') (\<lambda>methods.
     and_then (registry_names registry ''streams'') (\<lambda>streams.
     and_then (method_contracts registry) (\<lambda>contracts.
     and_then (event_contracts registry) (\<lambda>events.
     let has_validation = contracts \<noteq> [] \<or> events \<noteq> [];
         import = (if has_validation then runtime_import else None)
     in and_then
          (case import of
             None \<Rightarrow> ok []
           | Some path \<Rightarrow>
               if \<not> list_all qml_identifier (split_on CHR ''.'' path)
               then err ''runtime module must be a QML module URI''
               else ok (''.import '' @ path @ '' 1.0 as Runtime'' @ nl)) (\<lambda>import_line.
          let output = ''.pragma library'' @ nl @ import_line @ nl
                @ ''// Generated from the daemon-owned protocol registry. Do not edit.'' @ nl
                @ ''var protocol = '' @ encode (JString protocol) @ '';'' @ nl
                @ ''var version = '' @ decimal version @ '';'' @ nl
                @ render_names encode ''methods'' methods @ render_names encode ''streams'' streams;
              tables = nl @ ''var contracts = '' @ encode (jobj (map (\<lambda>(k, c). (k, contract_json c)) contracts)) @ '';'' @ nl
                @ ''var eventContracts = '' @ encode (jobj events) @ '';'' @ nl;
              (runtime, prefix) = (case runtime_import of
                  None \<Rightarrow> (validation, '''')
                | Some _ \<Rightarrow> (''function schemaError(schema, value, root, path) {'' @ nl
                    @ ''    return Runtime.ProtocolValidation.schemaError(schema, value, root, path);'' @ nl @ ''}'' @ nl,
                    ''Runtime.ProtocolValidation.''))
          in if \<not> has_validation then ok output
             else ok (output @ tables @ runtime @ runtime_functions prefix)))))))))"

section \<open>Lemmas\<close>

lemma and_then_ok [simp]: "and_then r f = Inr v \<longleftrightarrow> (\<exists>x. r = Inr x \<and> f x = Inr v)"
  by (simp add: and_then_def split: sum.split)

lemma try_each_ok [simp]: "try_each f xs = Inr () \<longleftrightarrow> list_all (\<lambda>x. f x = Inr ()) xs"
  by (induction xs) simp_all

text \<open>The schema positions one keyword below a schema, and what the generator requires at each.\<close>

fun schema_children :: "json \<Rightarrow> json list" where
  "schema_children (JObject object) = concat (map (\<lambda>(key, v).
     if key \<in> set map_keywords then (case v of JObject m \<Rightarrow> map snd m | _ \<Rightarrow> [])
     else if key \<in> set list_keywords then (case v of JArray vs \<Rightarrow> vs | _ \<Rightarrow> [])
     else if key \<in> set schema_keywords then [v] else []) object)"
| "schema_children _ = []"

fun supported_here :: "json \<Rightarrow> bool" where
  "supported_here (JBool _) = True"
| "supported_here (JObject object) = list_all (\<lambda>(key, v).
     (case v of
        JObject _ \<Rightarrow> key \<in> set (map_keywords @ schema_keywords @ plain_keywords) \<and> key \<noteq> ''$ref''
      | JArray _ \<Rightarrow> key \<in> set (list_keywords @ schema_keywords @ plain_keywords) \<and> key \<noteq> ''$ref''
      | JString r \<Rightarrow> key \<in> set (schema_keywords @ plain_keywords) \<and> (key = ''$ref'' \<longrightarrow> take 2 r = ''#/'')
      | _ \<Rightarrow> key \<in> set (schema_keywords @ plain_keywords) \<and> key \<noteq> ''$ref'')) object"
| "supported_here _ = False"

inductive schema_position :: "json \<Rightarrow> json \<Rightarrow> bool" where
  here: "schema_position s s"
| below: "c \<in> set (schema_children s) \<Longrightarrow> schema_position c p \<Longrightarrow> schema_position s p"

lemma ref_plain: "''$ref'' \<in> set plain_keywords"
  by (simp add: plain_keywords_def)

lemma keywords_disjoint:
  "key \<in> set map_keywords \<Longrightarrow> key \<notin> set list_keywords \<and> key \<notin> set schema_keywords \<and> key \<notin> set plain_keywords"
  "key \<in> set list_keywords \<Longrightarrow> key \<notin> set schema_keywords \<and> key \<notin> set plain_keywords"
  "key \<in> set schema_keywords \<Longrightarrow> key \<notin> set plain_keywords"
  by (auto simp: map_keywords_def list_keywords_def schema_keywords_def plain_keywords_def)

lemma check_schema_step:
  "check_schema s = Inr () \<longleftrightarrow>
     supported_here s \<and> list_all (\<lambda>c. check_schema c = Inr ()) (schema_children s)"
proof (cases s)
  case (JObject object)
  have entry: "(if key \<in> set map_keywords
          then (case v of JObject m \<Rightarrow> try_each check_schema (map snd m)
                        | _ \<Rightarrow> err ''schema map must be an object'')
          else if key \<in> set list_keywords
          then (case v of JArray vs \<Rightarrow> try_each check_schema vs
                        | _ \<Rightarrow> err ''schema alternatives must be an array'')
          else if key \<in> set schema_keywords then check_schema v
          else if key = ''$ref'' \<and> \<not> local_ref v
          then err ''only local schema references are supported''
          else if key \<in> set plain_keywords then ok ()
          else err (''unsupported QML schema keyword: '' @ key)) = Inr () \<longleftrightarrow>
        supported_here (JObject [(key, v)])
        \<and> list_all (\<lambda>c. check_schema c = Inr ()) (schema_children (JObject [(key, v)]))" for key v
    using keywords_disjoint [of key] ref_plain
    by (cases v) (auto simp: local_ref_def list_all_iff)
  show ?thesis
    unfolding JObject by (subst check_schema.simps, simp only: json.case try_each_ok case_prod_unfold entry)
      (simp add: list_all_iff ball_Un split_beta, blast)
qed (subst check_schema.simps; simp)+

lemma schema_children_size: "c \<in> set (schema_children s) \<Longrightarrow> size c < size s"
proof (cases s)
  case (JObject object)
  assume "c \<in> set (schema_children s)"
  then obtain key v where kv: "(key, v) \<in> set object" "c \<in> set (schema_children (JObject [(key, v)]))"
    by (auto simp: JObject)
  have "size v < size s" using size_member [OF kv(1)] by (simp add: JObject)
  moreover have "c = v \<or> size c < size v"
    using kv(2) size_list_elem by (auto split: if_splits json.splits intro: size_member)
  ultimately show ?thesis by auto
qed auto

lemma check_schema_positions: "schema_position s p \<Longrightarrow> check_schema s = Inr () \<Longrightarrow> supported_here p"
proof (induction rule: schema_position.induct)
  case (here s)
  then show ?case using check_schema_step by blast
next
  case (below c s p)
  then show ?case using check_schema_step [of s] by (simp add: list_all_iff)
qed

lemma positions_check_schema:
  "Collect (schema_position s) \<subseteq> Collect supported_here \<Longrightarrow> check_schema s = Inr ()"
proof (induction "size s" arbitrary: s rule: less_induct)
  case less
  have "check_schema c = Inr ()" if "c \<in> set (schema_children s)" for c
    using less that schema_children_size [OF that] schema_position.below [OF that] by blast
  moreover have "supported_here s" using less.prems schema_position.here by blast
  ultimately show ?case by (subst check_schema_step) (simp add: list_all_iff)
qed

section \<open>Properties\<close>

text \<open>
  The generator accepts a schema exactly when every schema position in it, at any depth, is
  supported: a boolean, or an object all of whose keywords QML validation implements, with maps and
  alternatives of the right shape and only local references. No unsupported assertion is ever
  silently ignored.
\<close>

lemma check_schema_complete:
  "check_schema s = Inr () \<longleftrightarrow> Collect (schema_position s) \<subseteq> Collect supported_here"
  using check_schema_positions positions_check_schema by blast

text \<open>A method with both schemas, and what is required of it.\<close>

definition contract_entry :: "json \<Rightarrow> (ustring \<times> method_contract) list" where
  "contract_entry m =
     (case (json_get ''params_schema'' m, json_get ''result_schema'' m, json_index ''name'' m) of
        (Some ps, Some rs, JString name) \<Rightarrow>
          [(name, \<lparr>params_schema = ps, contract_policy = json_index ''policy'' m,
                   response_key = json_index ''response_key'' m, result_schema = rs\<rparr>)]
      | _ \<Rightarrow> [])"

definition contract_ready :: "json \<Rightarrow> bool" where
  "contract_ready m =
     (case (json_get ''params_schema'' m, json_get ''result_schema'' m) of
        (Some ps, Some rs) \<Rightarrow>
          Collect (schema_position ps) \<union> Collect (schema_position rs) \<subseteq> Collect supported_here
          \<and> (\<exists>name. json_index ''name'' m = JString name)
      | _ \<Rightarrow> True)"

lemma as_str_Some [simp]: "as_str j = Some s \<longleftrightarrow> j = JString s"
  by (cases j) auto

lemma as_array_Some [simp]: "as_array j = Some xs \<longleftrightarrow> j = JArray xs"
  by (cases j) auto

lemma ok_or_ok [simp]: "ok_or e x = Inr v \<longleftrightarrow> x = Some v"
  by (simp add: ok_or_def split: option.split)

lemma check_schema_ready:
  "check_schema s = Inr u \<longleftrightarrow> Collect (schema_position s) \<subseteq> Collect supported_here"
  using check_schema_positions [of s] positions_check_schema [of s] by (cases u) blast

lemma collect_contracts_step:
  "collect_contracts (m # ms) cs = Inr cs' \<longleftrightarrow>
     contract_ready m \<and> collect_contracts ms (fold (\<lambda>(k, v). obj_insert k v) (contract_entry m) cs) = Inr cs'"
  unfolding contract_ready_def contract_entry_def collect_contracts.simps
  apply (cases "json_get ''params_schema'' m"; cases "json_get ''result_schema'' m"; cases "json_index ''name'' m")
  apply (simp_all only: option.case prod.case json.case and_then_ok ok_or_ok as_str_Some check_schema_ready)
  apply auto
  done

lemma collect_contracts_ok:
  "collect_contracts ms cs = Inr cs' \<longleftrightarrow>
     list_all contract_ready ms \<and> cs' = fold (\<lambda>(k, v). obj_insert k v) (concat (map contract_entry ms)) cs"
  by (induction ms arbitrary: cs) (auto simp: collect_contracts_step simp del: collect_contracts.simps(2))

text \<open>
  The contract table. The generator succeeds on a registry exactly when its methods are an array
  in which every method that declares both schemas has a name and only supported schemas; the table
  then holds, sorted by name, the contract of each such method, the last one where a name repeats.
\<close>

lemma method_contracts_table:
  "method_contracts registry = Inr table \<longleftrightarrow>
     (\<exists>methods. json_index ''methods'' registry = JArray methods \<and> list_all contract_ready methods
        \<and> table = obj_of (concat (map contract_entry methods)))"
  by (simp add: method_contracts_def collect_contracts_ok obj_of_def)

text \<open>
  Names are validated as a set: a list of protocol names is accepted exactly when it has no
  duplicate, and the names of a registry section are read only if every item has one.
\<close>

lemma unique_names_distinct:
  "(validate_unique_names names = Inr () \<longleftrightarrow> distinct names)
   \<and> (registry_names registry sec = Inr names \<longleftrightarrow>
        (\<exists>items. json_get sec registry = Some (JArray items)
          \<and> map (json_get ''name'') items = map (\<lambda>n. Some (JString n)) names))"
proof
  have "unique_from seen names = Inr () \<longleftrightarrow> distinct names \<and> set names \<inter> seen = {}" for seen
    by (induction names arbitrary: seen) auto
  then show "validate_unique_names names = Inr () \<longleftrightarrow> distinct names"
    by (simp add: validate_unique_names_def)
  have "collect_result (map (\<lambda>item. ok_or e (Option.bind (json_get ''name'' item) as_str)) items) = Inr names
      \<longleftrightarrow> map (json_get ''name'') items = map (\<lambda>n. Some (JString n)) names" for e :: ustring and items
    by (induction items arbitrary: names) (auto simp: bind_eq_Some_conv Cons_eq_map_conv)
  then show "registry_names registry sec = Inr names \<longleftrightarrow>
      (\<exists>items. json_get sec registry = Some (JArray items)
        \<and> map (json_get ''name'') items = map (\<lambda>n. Some (JString n)) names)"
    by (simp only: registry_names_def and_then_ok ok_or_ok bind_eq_Some_conv as_array_Some)
      (auto simp del: map_eq_conv)
qed

end
