(* ===== verification/Service_Boundary.thy ===== *)
theory Service_Boundary
  imports Envelopes Protocol Framing
begin

text \<open>
  \<open>shelllist-daemon-tokio/src/service.rs\<close>: admission of direct bus calls. A call is bounded by size,
  needs an owner, takes a permit of its lane (calls or controls) and, when it declares a policy, one
  unit of its owner's and of its method's quota; dropping the admission gives all of them back.

  Tokio's semaphore is the parameter \<open>sem\<close>, a record of functions; \<open>semaphore_laws\<close> states what its
  documentation promises. The maps of the mutex are \<open>HashMap\<close>s; a poisoned lock is recovered by the
  code. A rejection is the JSON value of the response the caller receives.
\<close>

record 's semaphore =
  sem_new :: "nat \<Rightarrow> 's"
  sem_try_acquire :: "'s \<Rightarrow> 's option"
  sem_release :: "'s \<Rightarrow> 's"
  sem_available :: "'s \<Rightarrow> nat"

definition semaphore_laws :: "'s semaphore \<Rightarrow> bool" where
  "semaphore_laws sem \<longleftrightarrow>
     (\<forall>n. sem_available sem (sem_new sem n) = n)
     \<and> (\<forall>s. case sem_try_acquire sem s of
            None \<Rightarrow> sem_available sem s = 0
          | Some s' \<Rightarrow> sem_available sem s = Suc (sem_available sem s'))
     \<and> (\<forall>s. sem_available sem (sem_release sem s) = Suc (sem_available sem s))"

record usage =
  owners :: "nat hash_map"
  methods :: "nat hash_map"

record 's boundary =
  bnd_api :: api_identity
  calls :: 's
  controls :: 's
  bnd_request_bytes :: nat
  bnd_result_bytes :: nat
  bnd_usage :: usage

datatype lane = CallLane | ControlLane

record quota =
  q_owner :: ustring
  q_method :: ustring

record admitted =
  adm_api :: api_identity
  adm_result_bytes :: nat
  adm_policy :: "method_policy option"
  adm_quota :: "quota option"
  adm_permit :: lane

definition with_limits :: "'s semaphore \<Rightarrow> api_identity \<Rightarrow> nat \<Rightarrow> nat \<Rightarrow> nat \<Rightarrow> nat \<Rightarrow> 's boundary" where
  "with_limits sem api n_calls n_controls req res =
     \<lparr>bnd_api = api, calls = sem_new sem n_calls, controls = sem_new sem n_controls,
      bnd_request_bytes = req, bnd_result_bytes = res, bnd_usage = \<lparr>owners = [], methods = []\<rparr>\<rparr>"

definition boundary_new :: "'s semaphore \<Rightarrow> api_identity \<Rightarrow> 's boundary" where
  "boundary_new sem api = with_limits sem api 64 16 (1024 * 1024) (16 * 1024 * 1024)"

text \<open>The response of a rejection. Its construction never panics (\<open>identity_is_kept\<close>).\<close>

definition reject :: "api_identity \<Rightarrow> ustring \<Rightarrow> ustring \<Rightarrow> json" where
  "reject api c m =
     (case error_response api (with_retryable False (api_error_new c m)) of Some v \<Rightarrow> v | None \<Rightarrow> JNull)"

definition lane_of :: "lane \<Rightarrow> 's boundary \<Rightarrow> 's" where
  "lane_of l b = (case l of CallLane \<Rightarrow> calls b | ControlLane \<Rightarrow> controls b)"

definition set_lane :: "lane \<Rightarrow> 's \<Rightarrow> 's boundary \<Rightarrow> 's boundary" where
  "set_lane l s b = (case l of CallLane \<Rightarrow> b\<lparr>calls := s\<rparr> | ControlLane \<Rightarrow> b\<lparr>controls := s\<rparr>)"

section \<open>Admission\<close>

definition enter :: "'s semaphore \<Rightarrow> ustring option \<Rightarrow> lane \<Rightarrow> 's boundary \<Rightarrow> (json + admitted) \<times> 's boundary" where
  "enter sem owner l b =
     (if (case owner of None \<Rightarrow> True | Some w \<Rightarrow> w = [])
      then (err (reject (bnd_api b) ''owner-required'' ''A D-Bus caller identity is required''), b)
      else
        (case sem_try_acquire sem (lane_of l b) of
           None \<Rightarrow> (err (reject (bnd_api b) ''rejected-before-dispatch''
                      ''Service capacity exceeded; request was not dispatched''), b)
         | Some s \<Rightarrow>
             (ok \<lparr>adm_api = bnd_api b, adm_result_bytes = bnd_result_bytes b, adm_policy = None,
                  adm_quota = None, adm_permit = l\<rparr>, set_lane l s b)))"

definition raw :: "'s semaphore \<Rightarrow> ustring option \<Rightarrow> ustring \<Rightarrow> nat \<Rightarrow> 's boundary \<Rightarrow> (json + admitted) \<times> 's boundary" where
  "raw sem owner name n b =
     (if \<not> (1 \<le> length name \<and> length name \<le> 256) \<or> n > bnd_request_bytes b
      then (err (reject (bnd_api b) ''request-too-large''
              ''Request exceeds service limits; request was not dispatched''), b)
      else enter sem owner CallLane b)"

definition call :: "'s semaphore \<Rightarrow> ustring option \<Rightarrow> ustring \<Rightarrow> ustring \<Rightarrow> 's boundary \<Rightarrow> (json + admitted) \<times> 's boundary" where
  "call sem owner meth params b = raw sem owner meth (length params) b"

definition count_of :: "ustring \<Rightarrow> nat hash_map \<Rightarrow> nat" where
  "count_of k m = (case map_of m k of None \<Rightarrow> 0 | Some n \<Rightarrow> n)"

definition charge :: "ustring \<Rightarrow> nat hash_map \<Rightarrow> nat hash_map" where
  "charge k m = AList.update k (count_of k m + 1) m"

text \<open>The inner function \<open>release\<close> of \<open>Quota::drop\<close>.\<close>

definition release_unit :: "ustring \<Rightarrow> nat hash_map \<Rightarrow> nat hash_map" where
  "release_unit k m =
     (case map_of m k of
        None \<Rightarrow> m
      | Some count \<Rightarrow> if count - 1 = 0 then AList.delete k m else AList.update k (count - 1) m)"

definition drop_quota :: "quota \<Rightarrow> usage \<Rightarrow> usage" where
  "drop_quota q u =
     \<lparr>owners = release_unit (q_owner q) (owners u), methods = release_unit (q_method q) (methods u)\<rparr>"

text \<open>Dropping an admission drops its fields in order: the quota, then the permit.\<close>

definition drop_admitted :: "'s semaphore \<Rightarrow> admitted \<Rightarrow> 's boundary \<Rightarrow> 's boundary" where
  "drop_admitted sem a b =
     (let b1 = (case adm_quota a of None \<Rightarrow> b | Some q \<Rightarrow> b\<lparr>bnd_usage := drop_quota q (bnd_usage b)\<rparr>)
      in set_lane (adm_permit a) (sem_release sem (lane_of (adm_permit a) b1)) b1)"

definition call_policy ::
  "'s semaphore \<Rightarrow> ustring option \<Rightarrow> ustring \<Rightarrow> ustring \<Rightarrow> method_policy \<Rightarrow> 's boundary
    \<Rightarrow> (json + admitted) \<times> 's boundary"
where
  "call_policy sem owner meth params pol b =
     (if length params > request_bytes pol
      then (err (reject (bnd_api b) ''request-too-large''
              ''Request exceeds method limits; request was not dispatched''), b)
      else
        (case call sem owner meth params b of
           (Inl e, b1) \<Rightarrow> (err e, b1)
         | (Inr a, b1) \<Rightarrow>
             (case owner of
                None \<Rightarrow> (err (reject (bnd_api b) ''owner-required'' ''A D-Bus caller identity is required''),
                          drop_admitted sem a b1)
              | Some w \<Rightarrow>
                  let u = bnd_usage b1 in
                  if count_of w (owners u) \<ge> max_owner_in_flight pol
                     \<or> count_of meth (methods u) \<ge> max_in_flight pol
                  then (err (reject (bnd_api b) ''rejected-before-dispatch''
                          ''Method or owner capacity exceeded; request was not dispatched''),
                        drop_admitted sem a b1)
                  else (ok (a\<lparr>adm_quota := Some \<lparr>q_owner = w, q_method = meth\<rparr>,
                             adm_result_bytes := min (bnd_result_bytes b1) (result_bytes pol),
                             adm_policy := Some pol\<rparr>),
                        b1\<lparr>bnd_usage := \<lparr>owners = charge w (owners u), methods = charge meth (methods u)\<rparr>\<rparr>))))"

definition subscribe :: "'s semaphore \<Rightarrow> ustring option \<Rightarrow> ustring list \<Rightarrow> 's boundary \<Rightarrow> (json + admitted) \<times> 's boundary" where
  "subscribe sem owner streams b =
     (if length streams > 64 \<or> list_ex (\<lambda>s. \<not> (1 \<le> length s \<and> length s \<le> 256)) streams
      then (err (reject (bnd_api b) ''request-too-large''
              ''Subscription exceeds service limits; request was not dispatched''), b)
      else enter sem owner CallLane b)"

definition cancel :: "'s semaphore \<Rightarrow> ustring option \<Rightarrow> ustring \<Rightarrow> 's boundary \<Rightarrow> (json + admitted) \<times> 's boundary" where
  "cancel sem owner i b =
     (if \<not> (1 \<le> length i \<and> length i \<le> 256)
      then (err (reject (bnd_api b) ''validation-error''
              ''Invalid cancellation identifier; request was not dispatched''), b)
      else enter sem owner ControlLane b)"

section \<open>Results\<close>

text \<open>
  \<open>BoundedWriter\<close> under \<open>write_all\<close>: each piece the serialiser writes is accepted whole or refused.
  \<open>serialise value\<close> is the sequence of pieces \<open>serde_json\<close> writes and whether it ends without an
  error of its own.
\<close>

definition unknown :: "admitted \<Rightarrow> json" where
  "unknown a = reject (adm_api a) ''outcome-unknown''
     ''Result could not be delivered within service limits; execution may have completed; do not replay mutations''"

fun write_pieces :: "nat \<Rightarrow> ustring list \<Rightarrow> ustring option" where
  "write_pieces remaining [] = Some []"
| "write_pieces remaining (buf # bufs) =
     (if length buf > remaining then None
      else map_option (\<lambda>rest. buf @ rest) (write_pieces (remaining - length buf) bufs))"

text \<open>\<open>Inl\<close>: the text of a rejection, as its JSON value. \<open>Inr\<close>: the encoded result.\<close>

definition encode :: "('v \<Rightarrow> ustring list \<times> bool) \<Rightarrow> admitted \<Rightarrow> 'v \<Rightarrow> json + ustring" where
  "encode serialise a v =
     (let (pieces, complete) = serialise v
      in case write_pieces (adm_result_bytes a) pieces of
           None \<Rightarrow> err (unknown a)
         | Some text \<Rightarrow>
             if \<not> complete then err (unknown a)
             else if utf8_valid text then ok text else err (unknown a))"

definition encoded :: "admitted \<Rightarrow> ustring \<Rightarrow> json + ustring" where
  "encoded a response = (if length response > adm_result_bytes a then err (unknown a) else ok response)"

text \<open>
  \<open>run\<close>: the work finishes at \<open>work_at\<close> milliseconds (never, if \<open>None\<close>) and its encoding, a blocking
  job that cannot be cancelled, at \<open>encoded_at\<close>; \<open>panics\<close> says the work panics instead of finishing,
  \<open>result\<close> what the encoder returns (\<open>None\<close> when it panics). \<open>dropped_at\<close> is when the caller drops
  the future, if it does. The outcome is the response (none if the caller is gone) and the time the
  admission is released.
\<close>

record execution_trace =
  work_at :: "nat option"
  panics :: bool
  encoded_at :: "nat option"
  encoder_result :: "(json + ustring) option"
  dropped_at :: "nat option"

text \<open>When the spawned task ends by itself.\<close>

definition task_end :: "execution_trace \<Rightarrow> nat option" where
  "task_end t = (if panics t then work_at t
     else Option.bind (work_at t) (\<lambda>w. Option.bind (encoded_at t) (\<lambda>e. Some (max w e))))"

definition by_then :: "nat option \<Rightarrow> nat \<Rightarrow> bool" where
  "by_then t limit = (case t of None \<Rightarrow> False | Some n \<Rightarrow> n \<le> limit)"

definition run_admitted :: "admitted \<Rightarrow> execution_trace \<Rightarrow> (json + ustring) option \<times> nat option" where
  "run_admitted a t =
     (case adm_policy a of
        None \<Rightarrow> (Some (err (reject (adm_api a) ''rejected-before-dispatch''
                   ''Execution requires a declared method policy'')), Some 0)
      | Some pol \<Rightarrow>
          let budget = ack_budget_ms pol;
              wait_end = (case dropped_at t of Some d \<Rightarrow> min d budget | None \<Rightarrow> budget);
              gone = (case dropped_at t of Some d \<Rightarrow> d < budget \<and> \<not> by_then (task_end t) d | None \<Rightarrow> False);
              lost = err (reject (adm_api a) ''outcome-unknown''
                ''Acknowledgement unavailable; execution may have completed; do not replay mutations'');
              response =
                (if by_then (task_end t) wait_end \<and> \<not> panics t
                 then (case encoder_result t of
                         Some r \<Rightarrow> r
                       | None \<Rightarrow> err (reject (adm_api a) ''outcome-unknown''
                           ''Result encoding failed; execution may have completed; do not replay mutations''))
                 else lost);
              released =
                (if execution pol = ExecRead \<and> \<not> by_then (task_end t) wait_end \<and> \<not> by_then (work_at t) wait_end
                 then Some wait_end
                 else task_end t)
          in (if gone then None else Some response, released))"

section \<open>The accounting invariant\<close>

text \<open>The boundary together with its live admissions, and one request or completion.\<close>

datatype svc_command =
    CallPolicy "ustring option" ustring ustring method_policy
  | RawCall "ustring option" ustring nat
  | SubscribeCall "ustring option" "ustring list"
  | CancelCall "ustring option" ustring
  | FinishCall nat

type_synonym 's service = "'s boundary \<times> admitted list"

definition track :: "(json + admitted) \<times> 's boundary \<Rightarrow> admitted list \<Rightarrow> 's service" where
  "track r live = (snd r, (case fst r of Inl _ \<Rightarrow> live | Inr a \<Rightarrow> live @ [a]))"

fun svc_step :: "'s semaphore \<Rightarrow> svc_command \<Rightarrow> 's service \<Rightarrow> 's service" where
  "svc_step sem (CallPolicy owner meth params pol) (b, live) = track (call_policy sem owner meth params pol b) live"
| "svc_step sem (RawCall owner name n) (b, live) = track (raw sem owner name n b) live"
| "svc_step sem (SubscribeCall owner streams) (b, live) = track (subscribe sem owner streams b) live"
| "svc_step sem (CancelCall owner i) (b, live) = track (cancel sem owner i b) live"
| "svc_step sem (FinishCall n) (b, live) =
     (if n < length live then (drop_admitted sem (live ! n) b, take n live @ drop (Suc n) live) else (b, live))"

definition avail :: "'s semaphore \<Rightarrow> lane \<Rightarrow> 's boundary \<Rightarrow> nat" where
  "avail sem l b = sem_available sem (lane_of l b)"

definition on_lane :: "lane \<Rightarrow> admitted list \<Rightarrow> nat" where
  "on_lane l live = length (filter (\<lambda>a. adm_permit a = l) live)"

definition held_by :: "(quota \<Rightarrow> ustring) \<Rightarrow> ustring \<Rightarrow> admitted list \<Rightarrow> nat" where
  "held_by f k live = length (filter (\<lambda>a. map_option f (adm_quota a) = Some k) live)"

definition counts :: "(ustring \<Rightarrow> nat) \<Rightarrow> nat hash_map \<Rightarrow> bool" where
  "counts f m \<longleftrightarrow> map_ok m \<and> map_of m = (\<lambda>k. if f k = 0 then None else Some (f k))"

definition svc_inv :: "'s semaphore \<Rightarrow> nat \<Rightarrow> nat \<Rightarrow> 's service \<Rightarrow> bool" where
  "svc_inv sem n_calls n_controls s \<longleftrightarrow>
     (case s of (b, live) \<Rightarrow>
        counts (\<lambda>k. held_by q_owner k live) (owners (bnd_usage b))
        \<and> counts (\<lambda>k. held_by q_method k live) (methods (bnd_usage b))
        \<and> avail sem CallLane b + on_lane CallLane live = n_calls
        \<and> avail sem ControlLane b + on_lane ControlLane live = n_controls)"

lemma lane_simps [simp]:
  "lane_of l (set_lane l' s b) = (if l = l' then s else lane_of l b)"
  "bnd_usage (set_lane l s b) = bnd_usage b" "lane_of l (b\<lparr>bnd_usage := u\<rparr>) = lane_of l b"
  "bnd_api (set_lane l s b) = bnd_api b" "bnd_result_bytes (set_lane l s b) = bnd_result_bytes b"
  by (cases l; cases l'; simp add: lane_of_def set_lane_def)+

lemma held_by_simps [simp]:
  "held_by f k [] = 0" "held_by f k (live @ live') = held_by f k live + held_by f k live'"
  "held_by f k (a # live) = (if map_option f (adm_quota a) = Some k then 1 else 0) + held_by f k live"
  by (simp_all add: held_by_def)

lemma on_lane_simps [simp]:
  "on_lane l [] = 0" "on_lane l (live @ live') = on_lane l live + on_lane l live'"
  "on_lane l (a # live) = (if adm_permit a = l then 1 else 0) + on_lane l live"
  by (simp_all add: on_lane_def)

lemma live_split: "n < length live \<Longrightarrow>
   \<exists>as cs. live = as @ live ! n # cs \<and> take n live @ drop (Suc n) live = as @ cs"
  by (metis Cons_nth_drop_Suc append_take_drop_id)

lemma count_of_counts: "counts f m \<Longrightarrow> count_of k m = f k"
  by (simp add: count_of_def counts_def)

lemma counts_charge: "counts f m \<Longrightarrow> counts (f(k := Suc (f k))) (charge k m)"
  by (auto simp: charge_def count_of_counts) (auto simp: counts_def fun_eq_iff)

lemma counts_release: "counts f m \<Longrightarrow> counts (f(k := f k - 1)) (release_unit k m)"
  by (auto simp: release_unit_def counts_def fun_eq_iff split: option.split)

lemma counts_cong: "counts f m \<Longrightarrow> (\<And>k. f k = g k) \<Longrightarrow> counts g m"
  by (metis ext)

text \<open>A rejected request leaves usage and permits as they were; an admitted one takes one permit.\<close>

lemma enter_cases:
  assumes "semaphore_laws sem"
  obtains (refused) e where "enter sem owner l b = (Inl e, b)"
      "owner = None \<or> owner = Some [] \<or> avail sem l b = 0"
    | (entered) w s where "owner = Some w" "w \<noteq> []" "avail sem l b = Suc (sem_available sem s)"
      "enter sem owner l b = (Inr \<lparr>adm_api = bnd_api b, adm_result_bytes = bnd_result_bytes b, adm_policy = None,
          adm_quota = None, adm_permit = l\<rparr>, set_lane l s b)"
proof (cases "owner = None \<or> owner = Some []")
  case True
  then show ?thesis by (intro refused) (auto simp: enter_def)
next
  case False
  then obtain w where w: "owner = Some w" "w \<noteq> []" by (cases owner) auto
  have law: "case sem_try_acquire sem (lane_of l b) of None \<Rightarrow> avail sem l b = 0
      | Some s' \<Rightarrow> avail sem l b = Suc (sem_available sem s')"
    using assms unfolding semaphore_laws_def avail_def by blast
  show ?thesis
  proof (cases "sem_try_acquire sem (lane_of l b)")
    case None
    with w law show ?thesis by (intro refused) (auto simp: enter_def)
  next
    case (Some s)
    with w law show ?thesis by (intro entered [of w s]) (auto simp: enter_def)
  qed
qed

lemma svc_inv_new: "semaphore_laws sem \<Longrightarrow> svc_inv sem nc nk (with_limits sem api nc nk req res, [])"
  by (simp add: svc_inv_def with_limits_def counts_def avail_def lane_of_def semaphore_laws_def)

lemma svc_inv_enter:
  assumes "semaphore_laws sem" "svc_inv sem nc nk (b, live)"
  shows "svc_inv sem nc nk (track (enter sem owner l b) live)"
  using assms(1)
proof (cases rule: enter_cases [where owner = owner and l = l and b = b])
  case (refused e)
  with assms show ?thesis by (simp add: track_def)
next
  case (entered w s)
  with assms show ?thesis by (cases l) (simp_all add: track_def svc_inv_def avail_def)
qed

lemma svc_inv_drop:
  assumes "semaphore_laws sem" "svc_inv sem nc nk (b, as @ a # cs)"
  shows "svc_inv sem nc nk (drop_admitted sem a b, as @ cs)"
proof -
  have rel: "sem_available sem (sem_release sem s) = Suc (sem_available sem s)" for s
    using assms(1) by (simp add: semaphore_laws_def)
  have inv: "counts (\<lambda>k. held_by q_owner k (as @ a # cs)) (owners (bnd_usage b))"
    "counts (\<lambda>k. held_by q_method k (as @ a # cs)) (methods (bnd_usage b))"
    using assms(2) by (simp_all add: svc_inv_def)
  show ?thesis
  proof (cases "adm_quota a")
    case None
    with assms(2) show ?thesis
      by (cases "adm_permit a") (simp_all add: svc_inv_def drop_admitted_def avail_def rel)
  next
    case (Some q)
    have "counts (\<lambda>k. held_by q_owner k (as @ cs)) (release_unit (q_owner q) (owners (bnd_usage b)))"
      "counts (\<lambda>k. held_by q_method k (as @ cs)) (release_unit (q_method q) (methods (bnd_usage b)))"
      using counts_release [OF inv(1), of "q_owner q"] counts_release [OF inv(2), of "q_method q"] Some
      by (auto elim!: counts_cong)
    with assms(2) Some show ?thesis
      by (cases "adm_permit a") (simp_all add: svc_inv_def drop_admitted_def drop_quota_def avail_def rel)
  qed
qed

text \<open>The whole of \<open>call_policy\<close>: why it rejects, and what it changes.\<close>

lemma call_policy_cases:
  assumes "semaphore_laws sem"
  obtains (rejected) e b' where "call_policy sem owner meth params pol b = (Inl e, b')"
      "bnd_usage b' = bnd_usage b" "\<And>l. avail sem l b' = avail sem l b"
      "length params > min (request_bytes pol) (bnd_request_bytes b) \<or> \<not> (1 \<le> length meth \<and> length meth \<le> 256)
       \<or> owner = None \<or> owner = Some [] \<or> avail sem CallLane b = 0
       \<or> count_of (the owner) (owners (bnd_usage b)) \<ge> max_owner_in_flight pol
       \<or> count_of meth (methods (bnd_usage b)) \<ge> max_in_flight pol"
    | (admitted) w s where "owner = Some w" "w \<noteq> []" "avail sem CallLane b = Suc (sem_available sem s)"
      "length params \<le> min (request_bytes pol) (bnd_request_bytes b)" "1 \<le> length meth" "length meth \<le> 256"
      "count_of w (owners (bnd_usage b)) < max_owner_in_flight pol"
      "count_of meth (methods (bnd_usage b)) < max_in_flight pol"
      "call_policy sem owner meth params pol b =
        (Inr \<lparr>adm_api = bnd_api b, adm_result_bytes = min (bnd_result_bytes b) (result_bytes pol),
          adm_policy = Some pol, adm_quota = Some \<lparr>q_owner = w, q_method = meth\<rparr>, adm_permit = CallLane\<rparr>,
         (set_lane CallLane s b)\<lparr>bnd_usage := \<lparr>owners = charge w (owners (bnd_usage b)),
            methods = charge meth (methods (bnd_usage b))\<rparr>\<rparr>)"
proof (cases "length params > request_bytes pol \<or> \<not> (1 \<le> length meth \<and> length meth \<le> 256)
    \<or> length params > bnd_request_bytes b")
  case True
  then have "\<exists>e. call_policy sem owner meth params pol b = (Inl e, b)"
    by (auto simp: call_policy_def call_def raw_def)
  then obtain e where e: "call_policy sem owner meth params pol b = (Inl e, b)" ..
  show ?thesis by (rule rejected [OF e]) (use True in auto)
next
  case size: False
  have rel: "sem_available sem (sem_release sem s) = Suc (sem_available sem s)" for s
    using assms by (simp add: semaphore_laws_def)
  from assms show ?thesis
  proof (cases rule: enter_cases [where owner = owner and l = CallLane and b = b])
    case (refused e)
    with size show ?thesis
      by (intro rejected [of e b]) (auto simp: call_policy_def call_def raw_def)
  next
    case (entered w s)
    show ?thesis
    proof (cases "count_of w (owners (bnd_usage b)) \<ge> max_owner_in_flight pol
        \<or> count_of meth (methods (bnd_usage b)) \<ge> max_in_flight pol")
      case full: True
      let ?b' = "set_lane CallLane (sem_release sem s) (set_lane CallLane s b)"
      show ?thesis
      proof (rule rejected)
        show "call_policy sem owner meth params pol b = (Inl (reject (bnd_api b) ''rejected-before-dispatch''
            ''Method or owner capacity exceeded; request was not dispatched''), ?b')"
          using entered size full by (auto simp: call_policy_def call_def raw_def drop_admitted_def Let_def)
        show "avail sem l ?b' = avail sem l b" for l
          using entered(3) by (cases l) (simp_all add: avail_def rel)
        show "length params > min (request_bytes pol) (bnd_request_bytes b)
          \<or> \<not> (1 \<le> length meth \<and> length meth \<le> 256)
          \<or> owner = None \<or> owner = Some [] \<or> avail sem CallLane b = 0
          \<or> count_of (the owner) (owners (bnd_usage b)) \<ge> max_owner_in_flight pol
          \<or> count_of meth (methods (bnd_usage b)) \<ge> max_in_flight pol"
          using full entered(1) by simp
      qed simp
    next
      case False
      with entered size show ?thesis
        by (intro admitted [of w s]) (auto simp: call_policy_def call_def raw_def Let_def)
    qed
  qed
qed

lemma svc_inv_call_policy:
  assumes "semaphore_laws sem" "svc_inv sem nc nk (b, live)"
  shows "svc_inv sem nc nk (track (call_policy sem owner meth params pol b) live)"
  using assms(1)
proof (cases rule: call_policy_cases [where owner = owner and meth = meth and params = params and pol = pol and b = b])
  case (rejected e b')
  with assms show ?thesis by (simp add: track_def svc_inv_def)
next
  case (admitted w s)
  have "counts (\<lambda>k. held_by q_owner k live) (owners (bnd_usage b))"
    "counts (\<lambda>k. held_by q_method k live) (methods (bnd_usage b))"
    using assms(2) by (simp_all add: svc_inv_def)
  from counts_charge [OF this(1), of w] counts_charge [OF this(2), of meth] show ?thesis
    using assms(2) admitted
    by (auto simp: track_def svc_inv_def avail_def elim!: counts_cong)
qed

lemma svc_inv_step:
  assumes "semaphore_laws sem" "svc_inv sem nc nk s"
  shows "svc_inv sem nc nk (svc_step sem c s)"
proof -
  obtain b live where s: "s = (b, live)" by (cases s)
  note inv = assms(2) [unfolded s]
  have same: "svc_inv sem nc nk (track (Inl e, b) live)" for e
    using inv by (simp add: track_def)
  note enter = svc_inv_enter [OF assms(1) inv]
  show ?thesis
  proof (cases c)
    case (FinishCall n)
    show ?thesis
    proof (cases "n < length live")
      case True
      then obtain as cs where "live = as @ live ! n # cs" "take n live @ drop (Suc n) live = as @ cs"
        using live_split by blast
      then show ?thesis
        using svc_inv_drop [OF assms(1), of nc nk b as "live ! n" cs] inv True by (simp add: s FinishCall)
    qed (use inv in \<open>simp add: s FinishCall\<close>)
  qed (simp_all add: s svc_inv_call_policy [OF assms(1) inv] raw_def subscribe_def cancel_def same enter)
qed

interpretation service: step_invariant "svc_step sem" "\<lambda>s. semaphore_laws sem \<and> svc_inv sem nc nk s" for sem nc nk
  by unfold_locales (simp add: svc_inv_step)

lemma write_pieces_concat:
  "write_pieces n ps = (if length (concat ps) \<le> n then Some (concat ps) else None)"
  by (induction ps arbitrary: n) auto

lemma release_effect:
  "adm_policy a = Some pol \<Longrightarrow> execution pol \<noteq> ExecRead \<Longrightarrow> snd (run_admitted a t) = task_end t"
  by (simp add: run_admitted_def Let_def)

section \<open>Properties\<close>

text \<open>
  C9. Exact accounting. After any sequence of requests and completions, each lane's permits are the
  configured number less the live admissions of the lane, and the count kept for an owner or a
  method is the number of live admissions charged to it, an entry existing only while one lives.
  So nothing leaks on any path, rejections behind an acquired permit included.
\<close>

theorem service_accounting:
  assumes "semaphore_laws sem"
  shows "(case fold (svc_step sem) cs (with_limits sem api nc nk req res, []) of (b, live) \<Rightarrow>
     avail sem CallLane b + on_lane CallLane live = nc
     \<and> avail sem ControlLane b + on_lane ControlLane live = nk
     \<and> map_of (owners (bnd_usage b)) = (\<lambda>w. if held_by q_owner w live = 0 then None else Some (held_by q_owner w live))
     \<and> map_of (methods (bnd_usage b)) = (\<lambda>m. if held_by q_method m live = 0 then None else Some (held_by q_method m live)))"
proof -
  have "svc_inv sem nc nk (fold (svc_step sem) cs (with_limits sem api nc nk req res, []))"
    using service.run_inv [of sem nc nk] svc_inv_new assms by blast
  then show ?thesis by (auto simp: svc_inv_def counts_def split: prod.splits)
qed

definition nat_semaphore :: "nat semaphore" where
  "nat_semaphore = \<lparr>sem_new = id, sem_try_acquire = (\<lambda>n. case n of 0 \<Rightarrow> None | Suc m \<Rightarrow> Some m),
     sem_release = Suc, sem_available = id\<rparr>"

lemma nat_semaphore_laws: "semaphore_laws nat_semaphore"
  by (simp add: semaphore_laws_def nat_semaphore_def split: nat.split)

definition demo_policy :: method_policy where
  "demo_policy = \<lparr>execution = ExecRead, policy_sensitivity = PublicRead, conflict_domain = ''d'',
     ack_budget_ms = 5, request_bytes = 10, result_bytes = 10, max_in_flight = 2, max_owner_in_flight = 1\<rparr>"

definition demo_calls :: "svc_command list" where
  "demo_calls = [CallPolicy (Some ''a'') ''m'' ''{}'' demo_policy, CallPolicy (Some ''a'') ''m'' ''{}'' demo_policy,
     CallPolicy (Some ''b'') ''m'' ''{}'' demo_policy, CancelCall (Some ''a'') ''x'', FinishCall 0]"

definition demo_api :: api_identity where
  "demo_api = \<lparr>protocol = ''p'', version = 2\<rparr>"

lemma service_accounting_witness:
  "(let (b, live) = fold (svc_step nat_semaphore) demo_calls (with_limits nat_semaphore demo_api 4 2 100 100, [])
    in length live = 2 \<and> avail nat_semaphore CallLane b = 3 \<and> map_of (methods (bnd_usage b)) ''m'' = Some 1)"
proof -
  let ?s = "fold (svc_step nat_semaphore) demo_calls (with_limits nat_semaphore demo_api 4 2 100 100, [])"
  have 1: "on_lane CallLane (snd ?s) = 1" by code_simp
  have 2: "held_by q_method ''m'' (snd ?s) = 1" by code_simp
  have 3: "length (snd ?s) = 2" by code_simp
  obtain b live where s: "?s = (b, live)" by fastforce
  show ?thesis
    using service_accounting [OF nat_semaphore_laws, where cs = demo_calls and api = demo_api and nc = 4 and nk = 2
        and req = 100 and res = 100] 1 2 3
    unfolding s by (simp add: Let_def)
qed

text \<open>
  Admission under a policy, exactly. After any history, a policy call is admitted if and only if
  its sizes are within both limits, it names an owner, a call permit is free, and fewer than the
  policy's numbers of live admissions are charged to the owner and to the method. A rejected call
  changes neither the usage nor the free permits.
\<close>

lemma call_policy_exact:
  assumes "semaphore_laws sem"
    "(b, live) = fold (svc_step sem) cs (with_limits sem api nc nk req res, [])"
  shows "((\<exists>a. fst (call_policy sem owner meth params pol b) = Inr a) \<longleftrightarrow>
      length params \<le> min (request_bytes pol) (bnd_request_bytes b) \<and> length meth \<in> {1..256}
      \<and> owner \<notin> {None, Some []} \<and> on_lane CallLane live < nc
      \<and> held_by q_owner (the owner) live < max_owner_in_flight pol
      \<and> held_by q_method meth live < max_in_flight pol)
    \<and> (case call_policy sem owner meth params pol b of
         (Inl _, b') \<Rightarrow> bnd_usage b' = bnd_usage b \<and> (\<forall>l. avail sem l b' = avail sem l b)
       | (Inr a, b') \<Rightarrow> avail sem CallLane b = Suc (avail sem CallLane b')
           \<and> adm_result_bytes a = min (bnd_result_bytes b) (result_bytes pol))"
proof -
  have inv: "svc_inv sem nc nk (b, live)"
    using service.run_inv [of sem nc nk] svc_inv_new [OF assms(1)] assms by (metis (full_types))
  then have c: "count_of k (owners (bnd_usage b)) = held_by q_owner k live"
    "count_of k (methods (bnd_usage b)) = held_by q_method k live"
    "avail sem CallLane b + on_lane CallLane live = nc" for k
    using count_of_counts [of "\<lambda>k. held_by q_owner k live"] count_of_counts [of "\<lambda>k. held_by q_method k live"]
    by (simp_all add: svc_inv_def)
  from assms(1) show ?thesis
  proof (cases rule: call_policy_cases [where owner = owner and meth = meth and params = params and pol = pol and b = b])
    case (rejected e b')
    then show ?thesis using c by auto
  next
    case (admitted w s)
    then show ?thesis using c by (simp add: avail_def)
  qed
qed

lemma call_policy_exact_witness:
  "\<exists>a. fst (call_policy nat_semaphore (Some ''a'') ''m'' ''{}'' demo_policy
     (with_limits nat_semaphore demo_api 4 2 100 100)) = Inr a"
proof -
  let ?b = "with_limits nat_semaphore demo_api 4 2 100 100"
  have "(?b, []) = fold (svc_step nat_semaphore) [] (?b, [])" by simp
  from call_policy_exact [OF nat_semaphore_laws this, where owner = "Some ''a''" and meth = "''m''"
      and params = "''{}''" and pol = demo_policy]
  show ?thesis by (simp add: demo_policy_def with_limits_def)
qed

text \<open>
  A result is delivered whole or not at all: however the serialiser cuts its output, the caller
  receives the complete text if it fits the admission's limit, and otherwise the explicit unknown
  outcome, never a truncated result.
\<close>

lemma encode_all_or_unknown:
  "encode serialise a v =
     (case serialise v of (pieces, complete) \<Rightarrow>
        if complete \<and> length (concat pieces) \<le> adm_result_bytes a \<and> utf8_valid (concat pieces)
        then Inr (concat pieces) else Inl (unknown a))"
  by (auto simp: encode_def write_pieces_concat split: prod.split)

end
