(* ===== verification/Task_Registry.thy ===== *)
theory Task_Registry
  imports Operations Envelopes
begin

text \<open>
  \<open>subscription.rs\<close> (the registry of owned background tasks of one bus connection) and \<open>task.rs\<close>
  (the spawn gate of a group of workers). The runtime's workers are a list; a worker's position is
  its join handle and its generation token, which the code allocates with \<open>Arc::new(())\<close> and compares by
  address. What a worker's future does is an event of the environment: it ends, for whatever reason
  (completion, panic, cancellation, owner loss), and its registration is dropped then. The registry's
  mutex makes each operation one step. \<open>spawn_for_owner\<close> is \<open>spawn_until\<close> with the owner monitor's
  future as the reason to end.
\<close>

record task_limits =
  tl_total :: nat
  tl_per_owner :: nat

definition task_limits_default :: task_limits where
  "task_limits_default = \<lparr>tl_total = 256, tl_per_owner = 64\<rparr>"

datatype task_admission_error = TaskClosed | TaskFull | TaskDuplicateId

fun from_operation_error :: "operation_admission_error \<Rightarrow> task_admission_error" where
  "from_operation_error OpFull = TaskFull"
| "from_operation_error OpDuplicateId = TaskDuplicateId"

fun task_error_text :: "task_admission_error \<Rightarrow> ustring" where
  "task_error_text TaskClosed = ''task registry is shutting down''"
| "task_error_text TaskFull = ''too many active tasks; retry after a task finishes''"
| "task_error_text TaskDuplicateId = ''task ID is already active''"

record owned_task =
  ot_task :: nat
  ot_generation :: nat

record worker =
  w_id :: ustring
  w_started :: bool
  w_aborted :: bool
  w_ended :: bool

record registry =
  rg_ids :: id_sequence
  rg_closed :: bool
  rg_dropped :: bool
  rg_tasks :: "owned_task owned_operations"
  rg_workers :: "worker list"

definition registry_with_limits :: "id_sequence \<Rightarrow> task_limits \<Rightarrow> registry" where
  "registry_with_limits first lim =
     \<lparr>rg_ids = first, rg_closed = False, rg_dropped = False,
      rg_tasks = ops_new \<lparr>total = tl_total lim, per_owner = tl_per_owner lim\<rparr>, rg_workers = []\<rparr>"

definition registry_new :: "id_sequence \<Rightarrow> registry" where
  "registry_new first = registry_with_limits first task_limits_default"

definition registry_next_id :: "ustring \<Rightarrow> registry \<Rightarrow> ustring \<times> registry" where
  "registry_next_id prefix r = (let (i, s) = next_id (rg_ids r) prefix in (i, r\<lparr>rg_ids := s\<rparr>))"

definition update_worker :: "nat \<Rightarrow> (worker \<Rightarrow> worker) \<Rightarrow> registry \<Rightarrow> registry" where
  "update_worker n f r = r\<lparr>rg_workers := (rg_workers r)[n := f (rg_workers r ! n)]\<rparr>"

definition abort_worker :: "nat \<Rightarrow> registry \<Rightarrow> registry" where
  "abort_worker n r = update_worker n (\<lambda>w. w\<lparr>w_aborted := True\<rparr>) r"

text \<open>The factory of \<open>spawn_until\<close>: the worker exists, waiting for its start signal.\<close>

definition spawn_worker :: "ustring \<Rightarrow> registry \<Rightarrow> owned_task \<times> registry" where
  "spawn_worker i r =
     (let n = length (rg_workers r)
      in (\<lparr>ot_task = n, ot_generation = n\<rparr>,
          r\<lparr>rg_workers := rg_workers r @ [\<lparr>w_id = i, w_started = False, w_aborted = False, w_ended = False\<rparr>]\<rparr>))"

definition spawn_until :: "ustring \<Rightarrow> ustring option \<Rightarrow> registry \<Rightarrow> (task_admission_error + unit) \<times> registry" where
  "spawn_until i owner r =
     (if rg_closed r then (err TaskClosed, r)
      else
        (case insert_with (rg_tasks r) i owner spawn_worker r of
           (Inl e, r') \<Rightarrow> (err (from_operation_error e), r')
         | (Inr ts, r') \<Rightarrow>
             (ok (), update_worker (length (rg_workers r)) (\<lambda>w. w\<lparr>w_started := True\<rparr>) (r'\<lparr>rg_tasks := ts\<rparr>))))"

definition cancel_owned :: "ustring \<Rightarrow> ustring option \<Rightarrow> registry \<Rightarrow> bool \<times> registry" where
  "cancel_owned i owner r =
     (case claim_owned (rg_tasks r) i owner of
        (None, ts) \<Rightarrow> (False, r\<lparr>rg_tasks := ts\<rparr>)
      | (Some t, ts) \<Rightarrow> (True, abort_worker (ot_task (op_value t)) (r\<lparr>rg_tasks := ts\<rparr>)))"

text \<open>\<open>shutdown\<close> up to the join: admission is closed before the workers are aborted.\<close>

definition shutdown :: "registry \<Rightarrow> registry" where
  "shutdown r =
     (let (drained, ts) = drain (rg_tasks r)
      in fold (\<lambda>t. abort_worker (ot_task (op_value t))) drained (r\<lparr>rg_closed := True, rg_tasks := ts\<rparr>))"

text \<open>\<open>Registration::drop\<close>. The registry may be gone (\<open>Weak::upgrade\<close> fails then).\<close>

definition drop_registration :: "nat \<Rightarrow> registry \<Rightarrow> registry" where
  "drop_registration n r =
     (if rg_dropped r then r
      else
        (case ops_get_mut (rg_tasks r) (w_id (rg_workers r ! n)) of
           None \<Rightarrow> r
         | Some t \<Rightarrow>
             if ot_generation t = n
             then r\<lparr>rg_tasks := snd (claim (rg_tasks r) (w_id (rg_workers r ! n)))\<rparr>
             else r))"

text \<open>The worker's future is dropped, and with it its registration.\<close>

definition end_worker :: "nat \<Rightarrow> registry \<Rightarrow> registry" where
  "end_worker n r =
     (if n < length (rg_workers r) \<and> \<not> w_ended (rg_workers r ! n)
      then update_worker n (\<lambda>w. w\<lparr>w_ended := True\<rparr>) (drop_registration n r)
      else r)"

text \<open>Dropping the registry aborts every task of the table; the table goes with it.\<close>

definition drop_registry :: "registry \<Rightarrow> registry" where
  "drop_registry r =
     (let r1 = fold (\<lambda>(_, t). abort_worker (ot_task (op_value t))) (ops_iter (rg_tasks r)) r
      in r1\<lparr>rg_closed := True, rg_dropped := True, rg_tasks := snd (drain (rg_tasks r))\<rparr>)"

datatype registry_event =
    SpawnUntil ustring "ustring option"
  | CancelOwned ustring "ustring option"
  | ShutdownRegistry
  | WorkerEnds nat
  | DropRegistry

fun registry_step :: "registry_event \<Rightarrow> registry \<Rightarrow> registry" where
  "registry_step (SpawnUntil i owner) r = snd (spawn_until i owner r)"
| "registry_step (CancelOwned i owner) r = snd (cancel_owned i owner r)"
| "registry_step ShutdownRegistry r = shutdown r"
| "registry_step (WorkerEnds n) r = end_worker n r"
| "registry_step DropRegistry r = drop_registry r"

section \<open>The spawn gate of \<open>task.rs\<close>\<close>

text \<open>\<open>finished\<close> is the runtime's answer to \<open>is_finished\<close>; aborted handles are collected in order.\<close>

record task_group =
  tg_closed :: bool
  tg_handles :: "nat list"

definition group_spawn :: "(nat \<Rightarrow> bool) \<Rightarrow> nat \<Rightarrow> task_group \<Rightarrow> bool \<times> task_group" where
  "group_spawn finished handle g =
     (if tg_closed g then (False, g)
      else (True, g\<lparr>tg_handles := filter (\<lambda>h. \<not> finished h) (tg_handles g) @ [handle]\<rparr>))"

definition group_abort :: "task_group \<Rightarrow> nat list \<times> task_group" where
  "group_abort g = (tg_handles g, g\<lparr>tg_closed := True\<rparr>)"

definition group_shutdown :: "task_group \<Rightarrow> nat list \<times> task_group" where
  "group_shutdown g = (tg_handles g, \<lparr>tg_closed = True, tg_handles = []\<rparr>)"

section \<open>The registry invariant\<close>

text \<open>
  An entry of the table is a worker that has neither ended nor been aborted, under its own token,
  and every such worker has its entry.
\<close>

definition working :: "registry \<Rightarrow> nat \<Rightarrow> bool" where
  "working r n \<longleftrightarrow> n < length (rg_workers r)
     \<and> \<not> w_ended (rg_workers r ! n) \<and> \<not> w_aborted (rg_workers r ! n)"

definition registry_inv :: "registry \<Rightarrow> bool" where
  "registry_inv r \<longleftrightarrow> ops_inv (rg_tasks r)
     \<and> (\<forall>k t. ops_get_mut (rg_tasks r) k = Some t \<longleftrightarrow>
          (\<exists>n. t = \<lparr>ot_task = n, ot_generation = n\<rparr> \<and> working r n \<and> w_id (rg_workers r ! n) = k))
     \<and> (rg_closed r \<longrightarrow> active (rg_tasks r) = []) \<and> (rg_dropped r \<longrightarrow> rg_closed r)"

lemma working_frame [simp]:
  "working (r\<lparr>rg_tasks := ts\<rparr>) m = working r m" "working (r\<lparr>rg_closed := c\<rparr>) m = working r m"
  "working (r\<lparr>rg_dropped := d\<rparr>) m = working r m" "working (r\<lparr>rg_ids := s\<rparr>) m = working r m"
  by (simp_all add: working_def)

lemma registry_inv_new: "registry_inv (registry_with_limits first lim)"
  by (simp add: registry_inv_def registry_with_limits_def ops_inv_new working_def)
    (simp add: ops_new_def ops_get_mut_def)

lemma update_worker_simps [simp]:
  "rg_tasks (update_worker n f r) = rg_tasks r" "rg_closed (update_worker n f r) = rg_closed r"
  "length (rg_workers (update_worker n f r)) = length (rg_workers r)"
  "rg_dropped (update_worker n f r) = rg_dropped r"
  by (simp_all add: update_worker_def)

lemma update_worker_nth:
  "rg_workers (update_worker n f r) ! m =
     (if m = n \<and> n < length (rg_workers r) then f (rg_workers r ! n) else rg_workers r ! m)"
  by (cases "m = n"; cases "n < length (rg_workers r)") (simp_all add: update_worker_def list_update_beyond)

lemma abort_worker_simps [simp]:
  "rg_tasks (abort_worker n r) = rg_tasks r" "rg_closed (abort_worker n r) = rg_closed r"
  "rg_dropped (abort_worker n r) = rg_dropped r"
  "length (rg_workers (abort_worker n r)) = length (rg_workers r)"
  "w_id (rg_workers (abort_worker n r) ! m) = w_id (rg_workers r ! m)"
  "working (abort_worker n r) m \<longleftrightarrow> m \<noteq> n \<and> working r m"
  by (auto simp: abort_worker_def working_def update_worker_nth)

lemma abort_all:
  "working (fold (\<lambda>t. abort_worker (f t)) ts r) m \<longleftrightarrow> m \<notin> f ` set ts \<and> working r m"
  "rg_tasks (fold (\<lambda>t. abort_worker (f t)) ts r) = rg_tasks r"
  "rg_closed (fold (\<lambda>t. abort_worker (f t)) ts r) = rg_closed r"
  "length (rg_workers (fold (\<lambda>t. abort_worker (f t)) ts r)) = length (rg_workers r)"
  by (induction ts arbitrary: r) auto

lemma registry_inv_entry:
  "registry_inv r \<Longrightarrow> ops_get_mut (rg_tasks r) k = Some t \<Longrightarrow>
   \<exists>n. t = \<lparr>ot_task = n, ot_generation = n\<rparr> \<and> working r n \<and> w_id (rg_workers r ! n) = k"
  by (simp add: registry_inv_def)

lemma registry_inv_working:
  "registry_inv r \<Longrightarrow> working r n \<Longrightarrow>
   ops_get_mut (rg_tasks r) (w_id (rg_workers r ! n)) = Some \<lparr>ot_task = n, ot_generation = n\<rparr>"
  by (simp add: registry_inv_def)

lemma registry_inv_unique:
  "registry_inv r \<Longrightarrow> working r m \<Longrightarrow> working r n \<Longrightarrow> w_id (rg_workers r ! m) = w_id (rg_workers r ! n) \<Longrightarrow> m = n"
proof -
  assume a: "registry_inv r" "working r m" "working r n" "w_id (rg_workers r ! m) = w_id (rg_workers r ! n)"
  have "Some \<lparr>ot_task = m, ot_generation = m\<rparr> = Some \<lparr>ot_task = n, ot_generation = n\<rparr>"
    using registry_inv_working [OF a(1,2)] registry_inv_working [OF a(1,3)] a(4) by (simp only:)
  then show "m = n" by simp
qed

text \<open>The two shapes of a spawn.\<close>

lemma spawn_until_cases:
  obtains (refused) e where "spawn_until i owner r = (Inl e, r)"
    | (spawned) ts where "\<not> rg_closed r"
      "ops_try_insert (rg_tasks r) i owner
        \<lparr>ot_task = length (rg_workers r), ot_generation = length (rg_workers r)\<rparr> = Some ts"
      "spawn_until i owner r = (Inr (), r\<lparr>rg_tasks := ts, rg_workers := rg_workers r
        @ [\<lparr>w_id = i, w_started = True, w_aborted = False, w_ended = False\<rparr>]\<rparr>)"
proof (cases "rg_closed r")
  case True
  then show ?thesis by (intro refused) (simp add: spawn_until_def)
next
  case accepting: False
  let ?t = "\<lparr>ot_task = length (rg_workers r), ot_generation = length (rg_workers r)\<rparr>"
  have fst: "fst (spawn_worker i r) = ?t" by (simp add: spawn_worker_def Let_def)
  show ?thesis
  proof (cases "ops_try_insert (rg_tasks r) i owner ?t")
    case None
    with accepting show ?thesis by (intro refused) (auto simp: spawn_until_def insert_with_table fst)
  next
    case (Some ts)
    with accepting show ?thesis
      by (intro spawned)
        (auto simp: spawn_until_def insert_with_table fst spawn_worker_def update_worker_def Let_def)
  qed
qed

lemma registry_inv_spawn:
  assumes "registry_inv r"
  shows "registry_inv (snd (spawn_until i owner r))"
proof (cases rule: spawn_until_cases [where i = i and owner = owner and r = r])
  case (refused e)
  with assms show ?thesis by simp
next
  case (spawned ts)
  let ?n = "length (rg_workers r)"
  let ?w = "\<lparr>w_id = i, w_started = True, w_aborted = False, w_ended = False\<rparr>"
  let ?r = "r\<lparr>rg_tasks := ts, rg_workers := rg_workers r @ [?w]\<rparr>"
  have absent: "ops_get_mut (rg_tasks r) i = None" using spawned(2) by (rule ops_table.insert_fresh)
  have look: "ops_get_mut ts k = (if k = i then Some \<lparr>ot_task = ?n, ot_generation = ?n\<rparr> else ops_get_mut (rg_tasks r) k)" for k
    using spawned(2) by (rule ops_table.lookup_insert)
  have work: "working ?r m \<longleftrightarrow> m = ?n \<or> working r m" for m
    by (auto simp: working_def nth_append)
  have wid: "w_id (rg_workers ?r ! m) = (if m = ?n then i else w_id (rg_workers r ! m))" if "working ?r m" for m
    using that by (auto simp: working_def nth_append)
  have "ops_get_mut ts k = Some t \<longleftrightarrow>
      (\<exists>n. t = \<lparr>ot_task = n, ot_generation = n\<rparr> \<and> working ?r n \<and> w_id (rg_workers ?r ! n) = k)" for k t
  proof (cases "k = i")
    case True
    have "\<not> (working r m \<and> w_id (rg_workers r ! m) = i)" for m
      using registry_inv_working [OF assms] absent by fastforce
    with True show ?thesis using work wid by (auto simp: look split: if_splits)
  next
    case False
    have "working r m \<Longrightarrow> m \<noteq> ?n" for m by (auto simp: working_def)
    with False assms show ?thesis
      unfolding look registry_inv_def using work wid by (simp; metis)
  qed
  moreover have "ops_inv ts" using ops_table.insert_wf [OF _ spawned(2)] assms by (simp add: registry_inv_def)
  moreover have "rg_dropped r \<longrightarrow> rg_closed r" using assms by (simp add: registry_inv_def)
  ultimately show ?thesis using spawned by (simp add: registry_inv_def)
qed

text \<open>Removing the entry of one worker while it stops working keeps the correspondence.\<close>

lemma registry_inv_remove:
  assumes "registry_inv r" "working r n"
    and "rg_tasks r' = snd (claim (rg_tasks r) (w_id (rg_workers r ! n)))"
    and "\<And>m. working r' m \<longleftrightarrow> m \<noteq> n \<and> working r m" "\<And>m. w_id (rg_workers r' ! m) = w_id (rg_workers r ! m)"
    and "rg_closed r' = rg_closed r" "rg_dropped r' = rg_dropped r"
  shows "registry_inv r'"
proof -
  have look: "ops_get_mut (rg_tasks r') k =
      (if k = w_id (rg_workers r ! n) then None else ops_get_mut (rg_tasks r) k)" for k
    unfolding assms(3) by (rule ops_table.lookup_remove)
  have "ops_get_mut (rg_tasks r') k = Some t \<longleftrightarrow>
      (\<exists>m. t = \<lparr>ot_task = m, ot_generation = m\<rparr> \<and> working r' m \<and> w_id (rg_workers r' ! m) = k)" for k t
  proof (cases "k = w_id (rg_workers r ! n)")
    case True
    then show ?thesis using registry_inv_unique [OF assms(1) _ assms(2)] by (auto simp: look assms(4,5))
  next
    case False
    then have "m \<noteq> n" if "w_id (rg_workers r ! m) = k" for m using that by auto
    with False assms(1) show ?thesis
      unfolding look registry_inv_def assms(4,5) by (simp; blast)
  qed
  moreover have "ops_inv (rg_tasks r')"
    unfolding assms(3) using assms(1) ops_table.remove_wf by (auto simp: registry_inv_def)
  moreover have "rg_closed r' \<longrightarrow> active (rg_tasks r') = []" "rg_dropped r' \<longrightarrow> rg_closed r'"
    using assms(1,3,6,7) by (auto simp: registry_inv_def claim_def)
  ultimately show ?thesis by (simp add: registry_inv_def)
qed

lemma registry_inv_cancel:
  assumes "registry_inv r"
  shows "registry_inv (snd (cancel_owned i owner r))"
proof (cases "fst (claim_owned (rg_tasks r) i owner)")
  case None
  then have "snd (claim_owned (rg_tasks r) i owner) = rg_tasks r"
    by (auto simp: claim_owned_cases split: option.splits if_splits)
  with None assms show ?thesis by (simp add: cancel_owned_def split_beta)
next
  case (Some e)
  then have e: "map_of (active (rg_tasks r)) i = Some e" "claim_owned (rg_tasks r) i owner = (Some e, snd (claim (rg_tasks r) i))"
    by (auto simp: claim_owned_cases claim_def split: option.splits if_splits)
  then obtain n where n: "op_value e = \<lparr>ot_task = n, ot_generation = n\<rparr>" "working r n" "w_id (rg_workers r ! n) = i"
    using registry_inv_entry [OF assms, of i "op_value e"] by (auto simp: ops_get_mut_def)
  show ?thesis
    by (rule registry_inv_remove [OF assms n(2)]) (simp_all add: cancel_owned_def e n)
qed

lemma registry_inv_idle:
  assumes "registry_inv r" "rg_tasks r' = rg_tasks r" "\<And>m. working r' m = working r m"
    "\<And>m. w_id (rg_workers r' ! m) = w_id (rg_workers r ! m)"
    "rg_closed r' = rg_closed r" "rg_dropped r' = rg_dropped r"
  shows "registry_inv r'"
  using assms by (simp add: registry_inv_def)

lemma closed_not_working: "registry_inv r \<Longrightarrow> rg_closed r \<Longrightarrow> \<not> working r n"
  using registry_inv_working [of r n] by (auto simp: registry_inv_def ops_get_mut_def)

lemma drop_registration_working:
  assumes "registry_inv r" "working r n"
  shows "drop_registration n r = r\<lparr>rg_tasks := snd (claim (rg_tasks r) (w_id (rg_workers r ! n)))\<rparr>"
proof -
  have "\<not> rg_dropped r" using closed_not_working [OF assms(1)] assms by (auto simp: registry_inv_def)
  then show ?thesis using registry_inv_working [OF assms] by (simp add: drop_registration_def)
qed

lemma drop_registration_idle:
  assumes "registry_inv r" "\<not> working r n"
  shows "drop_registration n r = r"
proof (cases "ops_get_mut (rg_tasks r) (w_id (rg_workers r ! n))")
  case None
  then show ?thesis by (simp add: drop_registration_def)
next
  case (Some t)
  then obtain m where "t = \<lparr>ot_task = m, ot_generation = m\<rparr>" "working r m"
    using registry_inv_entry [OF assms(1)] by blast
  then show ?thesis using Some assms(2) by (cases "m = n") (simp_all add: drop_registration_def)
qed

lemma registry_inv_end:
  assumes "registry_inv r"
  shows "registry_inv (end_worker n r)"
proof (cases "n < length (rg_workers r) \<and> \<not> w_ended (rg_workers r ! n)")
  case False
  then show ?thesis unfolding end_worker_def by (simp only: if_False assms)
next
  case True
  then have ends: "end_worker n r = update_worker n (\<lambda>w. w\<lparr>w_ended := True\<rparr>) (drop_registration n r)"
    by (simp add: end_worker_def)
  have upd: "working (update_worker n (\<lambda>w. w\<lparr>w_ended := True\<rparr>) (r\<lparr>rg_tasks := ts\<rparr>)) m \<longleftrightarrow> m \<noteq> n \<and> working r m"
    "w_id (rg_workers (update_worker n (\<lambda>w. w\<lparr>w_ended := True\<rparr>) (r\<lparr>rg_tasks := ts\<rparr>)) ! m) = w_id (rg_workers r ! m)" for m ts
    by (auto simp: working_def update_worker_nth)
  show ?thesis
  proof (cases "working r n")
    case work: True
    show ?thesis
      by (rule registry_inv_remove [OF assms work])
        (simp_all add: ends drop_registration_working [OF assms work] upd)
  next
    case idle: False
    then show ?thesis
      using upd [of "rg_tasks r"]
      by (intro registry_inv_idle [OF assms]) (auto simp: ends drop_registration_idle [OF assms idle])
  qed
qed

lemma all_aborted:
  assumes "registry_inv r" "working r m"
  shows "m \<in> (\<lambda>t. ot_task (op_value t)) ` snd ` set (active (rg_tasks r))"
  using registry_inv_working [OF assms] by (force simp: ops_get_mut_def dest: map_of_SomeD)

lemma ops_inv_empty: "ops_inv ops \<Longrightarrow> ops_inv (ops\<lparr>active := []\<rparr>)"
  by (simp add: ops_inv_def owner_count_def)

lemma registry_inv_emptied:
  assumes "registry_inv r" "rg_tasks r' = snd (drain (rg_tasks r))" "\<And>m. \<not> working r' m" "rg_closed r'"
  shows "registry_inv r'"
  using assms by (simp add: registry_inv_def drain_def ops_inv_empty) (simp add: ops_get_mut_def)

lemma registry_inv_shutdown:
  assumes "registry_inv r"
  shows "registry_inv (shutdown r)"
proof (rule registry_inv_emptied [OF assms])
  show "\<not> working (shutdown r) m" for m
    using all_aborted [OF assms, of m] by (auto simp: shutdown_def drain_def abort_all)
qed (simp_all add: shutdown_def drain_def abort_all)

lemma registry_inv_drop:
  assumes "registry_inv r"
  shows "registry_inv (drop_registry r)"
proof (rule registry_inv_emptied [OF assms])
  have abort: "working (fold (\<lambda>(_, t). abort_worker (ot_task (op_value t))) ts r) m \<longleftrightarrow>
      m \<notin> (\<lambda>t. ot_task (op_value t)) ` snd ` set ts \<and> working r m" for ts m
    by (induction ts arbitrary: r) auto
  show "\<not> working (drop_registry r) m" for m
    using all_aborted [OF assms, of m] by (auto simp: drop_registry_def ops_iter_def abort)
qed (simp_all add: drop_registry_def)

lemma registry_inv_step: "registry_inv r \<Longrightarrow> registry_inv (registry_step c r)"
  by (cases c) (simp_all add: registry_inv_spawn registry_inv_cancel registry_inv_shutdown registry_inv_end registry_inv_drop)

interpretation registry: step_invariant registry_step registry_inv
  by unfold_locales (rule registry_inv_step)

lemma closed_step:
  assumes "rg_closed r"
  shows "rg_closed (registry_step c r) \<and> length (rg_workers (registry_step c r)) = length (rg_workers r)"
proof (cases c)
  case (CancelOwned i owner)
  then show ?thesis using assms by (auto simp: cancel_owned_def split: prod.split option.split)
next
  case (WorkerEnds n)
  then show ?thesis using assms by (auto simp: end_worker_def drop_registration_def split: option.split)
next
  case DropRegistry
  have "length (rg_workers (fold (\<lambda>(_, t). abort_worker (ot_task (op_value t))) ts r)) = length (rg_workers r)" for ts r
    by (induction ts arbitrary: r) auto
  with DropRegistry show ?thesis by (simp add: drop_registry_def)
qed (use assms in \<open>simp_all add: spawn_until_def shutdown_def drain_def abort_all\<close>)

lemma closed_run:
  "rg_closed r \<Longrightarrow> rg_closed (fold registry_step es r)
     \<and> length (rg_workers (fold registry_step es r)) = length (rg_workers r)"
  by (induction es arbitrary: r) (auto simp: closed_step)

lemma limits_registry_step: "limits (rg_tasks (registry_step c r)) = limits (rg_tasks r)"
proof (cases c)
  case (SpawnUntil i owner)
  show ?thesis
    by (cases rule: spawn_until_cases [where i = i and owner = owner and r = r])
      (auto simp: SpawnUntil ops_try_insert_iff)
next
  case (CancelOwned i owner)
  then show ?thesis
    by (auto simp: cancel_owned_def claim_owned_cases split: prod.split option.splits if_splits)
next
  case (WorkerEnds n)
  then show ?thesis by (auto simp: end_worker_def drop_registration_def claim_def split: option.split)
qed (simp_all add: shutdown_def drain_def abort_all drop_registry_def)

lemma limits_registry_run: "limits (rg_tasks (fold registry_step es r)) = limits (rg_tasks r)"
  by (induction es arbitrary: r) (simp_all add: limits_registry_step)

section \<open>Properties\<close>

text \<open>
  C10. The registry's table is the set of its working workers. After any sequence of spawns,
  cancellations, worker ends, shutdowns and the registry's destruction, an ID is in the table exactly
  when a worker that has neither ended nor been aborted runs under it, with that worker's own handle
  and token; and the totals respect both limits.
\<close>

theorem registry_tracks_workers:
  "(let r = fold registry_step es (registry_with_limits first lim) in
     (\<forall>k t. ops_get_mut (rg_tasks r) k = Some t \<longleftrightarrow>
        (\<exists>n. t = \<lparr>ot_task = n, ot_generation = n\<rparr> \<and> working r n \<and> w_id (rg_workers r ! n) = k))
     \<and> length (active (rg_tasks r)) \<le> tl_total lim
     \<and> (\<forall>owner. owner_count (rg_tasks r) owner \<le> tl_per_owner lim))"
proof -
  let ?r = "fold registry_step es (registry_with_limits first lim)"
  have "registry_inv ?r" by (rule registry.run_inv) (rule registry_inv_new)
  moreover have "limits (rg_tasks ?r) = \<lparr>total = tl_total lim, per_owner = tl_per_owner lim\<rparr>"
    by (simp add: limits_registry_run) (simp add: registry_with_limits_def ops_new_def)
  ultimately show ?thesis by (simp add: registry_inv_def ops_inv_def Let_def)
qed

text \<open>
  Old cleanup cannot remove a reused ID. When a worker that has been aborted finally ends, its
  registration leaves the table as it is, whatever task now runs under the same ID.
\<close>

lemma old_cleanup_is_harmless:
  assumes "r = fold registry_step es (registry_with_limits first lim)"
    "w_aborted (rg_workers r ! n)"
  shows "rg_tasks (end_worker n r) = rg_tasks r"
proof -
  have "registry_inv r" unfolding assms(1) by (rule registry.run_inv) (rule registry_inv_new)
  moreover have "\<not> working r n" using assms(2) by (simp add: working_def)
  ultimately show ?thesis by (simp add: end_worker_def drop_registration_idle)
qed

definition reuse_events :: "registry_event list" where
  "reuse_events = [SpawnUntil ''id'' None, CancelOwned ''id'' None, SpawnUntil ''id'' None]"

lemma old_cleanup_is_harmless_witness:
  "map fst (active (rg_tasks (end_worker 0 (fold registry_step reuse_events
     (registry_with_limits 1 \<lparr>tl_total = 2, tl_per_owner = 2\<rparr>))))) = [''id'']"
proof -
  let ?r = "fold registry_step reuse_events (registry_with_limits 1 \<lparr>tl_total = 2, tl_per_owner = 2\<rparr>)"
  have "w_aborted (rg_workers ?r ! 0)" by code_simp
  from old_cleanup_is_harmless [OF refl this] have "rg_tasks (end_worker 0 ?r) = rg_tasks ?r" .
  moreover have "map fst (active (rg_tasks ?r)) = [''id'']" by code_simp
  ultimately show ?thesis by simp
qed

text \<open>
  Shutdown is final. After it no worker is working, the table is empty and stays so, every later
  spawn is refused as closed, and no worker is ever started again.
\<close>

lemma shutdown_is_final:
  "(let r = shutdown (fold registry_step es (registry_with_limits first lim));
        r' = fold registry_step es' r
    in spawn_until i owner r' = (Inl TaskClosed, r') \<and> active (rg_tasks r') = []
       \<and> (\<forall>n. \<not> working r' n) \<and> length (rg_workers r') = length (rg_workers r))"
proof -
  let ?r = "shutdown (fold registry_step es (registry_with_limits first lim))"
  let ?r' = "fold registry_step es' ?r"
  have "registry_inv ?r" by (intro registry_inv_shutdown registry.run_inv registry_inv_new)
  then have inv: "registry_inv ?r'" by (rule registry.run_inv)
  have "rg_closed ?r" by (simp add: shutdown_def drain_def abort_all)
  then have c: "rg_closed ?r'" "length (rg_workers ?r') = length (rg_workers ?r)"
    using closed_run by blast+
  have "active (rg_tasks ?r') = []" using inv c by (simp add: registry_inv_def)
  then show ?thesis
    using c closed_not_working [OF inv] by (simp add: Let_def spawn_until_def)
qed

end
