(* ===== verification/Blocking_Lane.thy ===== *)
theory Blocking_Lane
  imports Service_Boundary "HOL-Library.Multiset" "HOL-Library.Sublist"
begin

text \<open>
  \<open>shelllist-daemon-tokio/src/blocking.rs\<close>: a lane for blocking jobs, with bounded admission and
  bounded concurrency, as a step relation over its dispatcher, its submitters, its running jobs and
  its shutdown. Tokio's bounded channel and semaphore are the parameters \<open>ch\<close> and \<open>sem\<close>;
  \<open>channel_laws\<close> states the channel's documented behaviour. The jobs accepted and started so far are
  kept as ghost lists.
\<close>

datatype send_error = SendFull | SendClosed

record ('q, 'j) channel =
  ch_new :: "nat \<Rightarrow> 'q"
  ch_try_send :: "'j \<Rightarrow> 'q \<Rightarrow> send_error + 'q"
  ch_recv :: "'q \<Rightarrow> ('j \<times> 'q) option"
  ch_drop_receiver :: "'q \<Rightarrow> 'q"
  ch_items :: "'q \<Rightarrow> 'j list"
  ch_open :: "'q \<Rightarrow> bool"
  ch_capacity :: "'q \<Rightarrow> nat"

definition channel_laws :: "('q, 'j) channel \<Rightarrow> bool" where
  "channel_laws ch \<longleftrightarrow>
     (\<forall>n. ch_items ch (ch_new ch n) = [] \<and> ch_open ch (ch_new ch n) \<and> ch_capacity ch (ch_new ch n) = n)
     \<and> (\<forall>j q. case ch_try_send ch j q of
            Inl SendClosed \<Rightarrow> \<not> ch_open ch q
          | Inl SendFull \<Rightarrow> ch_open ch q \<and> ch_capacity ch q \<le> length (ch_items ch q)
          | Inr q' \<Rightarrow> ch_open ch q \<and> length (ch_items ch q) < ch_capacity ch q
              \<and> ch_items ch q' = ch_items ch q @ [j] \<and> ch_open ch q' \<and> ch_capacity ch q' = ch_capacity ch q)
     \<and> (\<forall>q. case ch_recv ch q of
            None \<Rightarrow> ch_items ch q = []
          | Some (j, q') \<Rightarrow> ch_items ch q = j # ch_items ch q' \<and> ch_open ch q' = ch_open ch q
              \<and> ch_capacity ch q' = ch_capacity ch q)
     \<and> (\<forall>q. ch_items ch (ch_drop_receiver ch q) = [] \<and> \<not> ch_open ch (ch_drop_receiver ch q)
          \<and> ch_capacity ch (ch_drop_receiver ch q) = ch_capacity ch q)"

datatype lane_error = LaneFull | LaneClosed | LanePanicked

fun lane_error_text :: "lane_error \<Rightarrow> ustring" where
  "lane_error_text LaneFull = ''blocking queue is full''"
| "lane_error_text LaneClosed = ''blocking lane is closed''"
| "lane_error_text LanePanicked = ''blocking job panicked''"

text \<open>Where the dispatcher's task is: waiting for a permit, waiting for a job with one, or gone.\<close>

datatype dispatcher = AwaitPermit | AwaitJob | Stopped

record ('q, 's, 'j) lane_state =
  ln_queue :: 'q
  ln_permits :: 's
  ln_closed :: bool
  ln_shutdown :: bool
  ln_dispatcher :: dispatcher
  ln_count :: nat
  ln_running :: "'j list"
  ln_accepted :: "'j list"
  ln_started :: "'j list"

text \<open>\<open>None\<close> is the failed assertion on the bounds.\<close>

definition lane_start ::
  "('q, 'j) channel \<Rightarrow> 's semaphore \<Rightarrow> nat \<Rightarrow> nat \<Rightarrow> ('q, 's, 'j) lane_state option"
where
  "lane_start ch sem cap conc =
     (if cap > 0 \<and> conc > 0
      then Some \<lparr>ln_queue = ch_new ch cap, ln_permits = sem_new sem conc, ln_closed = False,
        ln_shutdown = False, ln_dispatcher = AwaitPermit, ln_count = 0, ln_running = [],
        ln_accepted = [], ln_started = []\<rparr>
      else None)"

definition try_submit ::
  "('q, 'j) channel \<Rightarrow> 'j \<Rightarrow> ('q, 's, 'j) lane_state \<Rightarrow> (lane_error + unit) \<times> ('q, 's, 'j) lane_state"
where
  "try_submit ch j s =
     (if ln_closed s then (err LaneClosed, s)
      else
        (case ch_try_send ch j (ln_queue s) of
           Inl SendFull \<Rightarrow> (err LaneFull, s)
         | Inl SendClosed \<Rightarrow> (err LaneClosed, s)
         | Inr q \<Rightarrow> (ok (), s\<lparr>ln_queue := q, ln_accepted := ln_accepted s @ [j]\<rparr>)))"

text \<open>
  What \<open>call_async\<close> resolves to: the admission error, or the job's reply. A job whose reply channel
  is dropped unsent (it was discarded with the queue) reads as closed.
\<close>

definition call_outcome :: "lane_error + unit \<Rightarrow> (lane_error + 'a) option \<Rightarrow> lane_error + 'a" where
  "call_outcome admission reply =
     (case admission of
        Inl e \<Rightarrow> err e
      | Inr _ \<Rightarrow> (case reply of None \<Rightarrow> err LaneClosed | Some r \<Rightarrow> r))"

definition begin_shutdown :: "('q, 's, 'j) lane_state \<Rightarrow> ('q, 's, 'j) lane_state" where
  "begin_shutdown s = s\<lparr>ln_closed := True, ln_shutdown := True\<rparr>"

text \<open>The dispatcher returns or is aborted: its permit, if it holds one, and the receiver are dropped.\<close>

definition stop_dispatcher :: "('q, 'j) channel \<Rightarrow> 's semaphore \<Rightarrow> ('q, 's, 'j) lane_state \<Rightarrow> ('q, 's, 'j) lane_state" where
  "stop_dispatcher ch sem s =
     s\<lparr>ln_dispatcher := Stopped, ln_queue := ch_drop_receiver ch (ln_queue s),
       ln_permits := (if ln_dispatcher s = AwaitJob then sem_release sem (ln_permits s) else ln_permits s)\<rparr>"

text \<open>The job's closure ends, by returning or by a contained panic.\<close>

definition finish_job :: "'s semaphore \<Rightarrow> nat \<Rightarrow> ('q, 's, 'j) lane_state \<Rightarrow> ('q, 's, 'j) lane_state" where
  "finish_job sem n s =
     s\<lparr>ln_running := take n (ln_running s) @ drop (Suc n) (ln_running s),
       ln_permits := sem_release sem (ln_permits s), ln_count := ln_count s - 1\<rparr>"

inductive lane_step ::
  "('q, 'j) channel \<Rightarrow> 's semaphore \<Rightarrow> ('q, 's, 'j) lane_state \<Rightarrow> ('q, 's, 'j) lane_state \<Rightarrow> bool"
  for ch sem
where
  submit: "lane_step ch sem s (snd (try_submit ch j s))"
| permit: "ln_dispatcher s = AwaitPermit \<Longrightarrow> \<not> ln_shutdown s \<Longrightarrow>
    sem_try_acquire sem (ln_permits s) = Some p \<Longrightarrow>
    lane_step ch sem s (s\<lparr>ln_permits := p, ln_dispatcher := AwaitJob\<rparr>)"
| dispatch: "ln_dispatcher s = AwaitJob \<Longrightarrow> \<not> ln_shutdown s \<Longrightarrow> ch_recv ch (ln_queue s) = Some (j, q) \<Longrightarrow>
    lane_step ch sem s (s\<lparr>ln_queue := q, ln_count := ln_count s + 1, ln_running := ln_running s @ [j],
      ln_started := ln_started s @ [j], ln_dispatcher := AwaitPermit\<rparr>)"
| observe_shutdown: "ln_dispatcher s \<noteq> Stopped \<Longrightarrow> ln_shutdown s \<Longrightarrow>
    lane_step ch sem s (stop_dispatcher ch sem s)"
| finish: "n < length (ln_running s) \<Longrightarrow> lane_step ch sem s (finish_job sem n s)"
| shutdown: "lane_step ch sem s (begin_shutdown s)"
| abort_dispatcher: "ln_dispatcher s \<noteq> Stopped \<Longrightarrow> ln_shutdown s \<Longrightarrow>
    lane_step ch sem s (stop_dispatcher ch sem s)"
| drop_lane: "lane_step ch sem s
    ((if ln_dispatcher s = Stopped then s else stop_dispatcher ch sem s)\<lparr>ln_shutdown := True\<rparr>)"

inductive_cases lane_stepE: "lane_step ch sem s s'"

record lane_shutdown =
  dispatcher_stopped :: bool
  active_jobs :: nat

text \<open>The report of \<open>shutdown\<close>, read when its deadline has passed or the lane is idle.\<close>

definition shutdown_report :: "bool \<Rightarrow> ('q, 's, 'j) lane_state \<Rightarrow> lane_shutdown" where
  "shutdown_report in_time s = \<lparr>dispatcher_stopped = in_time, active_jobs = ln_count s\<rparr>"

section \<open>The lane invariant\<close>

definition lane_inv :: "('q, 'j) channel \<Rightarrow> 's semaphore \<Rightarrow> nat \<Rightarrow> nat \<Rightarrow> ('q, 's, 'j) lane_state \<Rightarrow> bool" where
  "lane_inv ch sem cap conc s \<longleftrightarrow>
     ch_capacity ch (ln_queue s) = cap \<and> length (ch_items ch (ln_queue s)) \<le> cap
     \<and> sem_available sem (ln_permits s) + length (ln_running s)
         + (if ln_dispatcher s = AwaitJob then 1 else 0) = conc
     \<and> ln_count s = length (ln_running s)
     \<and> (ch_open ch (ln_queue s) \<longleftrightarrow> ln_dispatcher s \<noteq> Stopped)
     \<and> prefix (ln_started s @ ch_items ch (ln_queue s)) (ln_accepted s)
     \<and> (ln_dispatcher s \<noteq> Stopped \<longrightarrow> ln_accepted s = ln_started s @ ch_items ch (ln_queue s))
     \<and> mset (ln_running s) \<subseteq># mset (ln_started s)"

lemma channel_send:
  assumes "channel_laws ch"
  shows "ch_try_send ch j q = Inr q' \<Longrightarrow> ch_open ch q \<and> length (ch_items ch q) < ch_capacity ch q
      \<and> ch_items ch q' = ch_items ch q @ [j] \<and> ch_open ch q' \<and> ch_capacity ch q' = ch_capacity ch q"
    and "ch_recv ch q = Some (j, q') \<Longrightarrow> ch_items ch q = j # ch_items ch q' \<and> ch_open ch q' = ch_open ch q
      \<and> ch_capacity ch q' = ch_capacity ch q"
    and "ch_items ch (ch_drop_receiver ch q) = [] \<and> \<not> ch_open ch (ch_drop_receiver ch q)
      \<and> ch_capacity ch (ch_drop_receiver ch q) = ch_capacity ch q"
  using assms unfolding channel_laws_def
  by ((elim conjE allE [of _ j] allE [of _ q], simp)+)

lemma semaphore_step:
  assumes "semaphore_laws sem"
  shows "sem_try_acquire sem s = Some s' \<Longrightarrow> sem_available sem s = Suc (sem_available sem s')"
    and "sem_available sem (sem_release sem s) = Suc (sem_available sem s)"
  using assms unfolding semaphore_laws_def by (elim conjE allE [of _ s], simp)+

lemma channel_recv_nonempty:
  assumes "channel_laws ch" "ch_items ch q = j # js"
  obtains q' where "ch_recv ch q = Some (j, q')" "ch_items ch q' = js"
proof (cases "ch_recv ch q")
  case None
  then have "ch_items ch q = []"
    using assms(1) unfolding channel_laws_def by (elim conjE allE [of _ q]) simp
  with assms(2) show ?thesis by simp
next
  case (Some r)
  obtain i q' where r: "r = (i, q')" by (cases r)
  then have "ch_items ch q = i # ch_items ch q'"
    using channel_send(2) [OF assms(1), of q i q'] Some by simp
  with assms(2) Some r that show ?thesis by simp
qed

lemma semaphore_acquire:
  assumes "semaphore_laws sem" "0 < sem_available sem s"
  obtains p where "sem_try_acquire sem s = Some p"
proof (cases "sem_try_acquire sem s")
  case None
  then have "sem_available sem s = 0"
    using assms(1) unfolding semaphore_laws_def by (elim conjE allE [of _ s]) simp
  with assms(2) show ?thesis by simp
qed (use that in simp)

lemma lane_inv_start:
  "channel_laws ch \<Longrightarrow> semaphore_laws sem \<Longrightarrow> lane_start ch sem cap conc = Some s \<Longrightarrow> lane_inv ch sem cap conc s"
  by (auto simp: lane_start_def lane_inv_def channel_laws_def semaphore_laws_def split: if_splits)

lemma lane_inv_submit:
  assumes "channel_laws ch" "lane_inv ch sem cap conc s"
  shows "lane_inv ch sem cap conc (snd (try_submit ch j s))"
proof (cases "ln_closed s")
  case True
  with assms show ?thesis by (simp add: try_submit_def)
next
  case False
  show ?thesis
  proof (cases "ch_try_send ch j (ln_queue s)")
    case (Inl e)
    with assms False show ?thesis by (cases e) (simp_all add: try_submit_def)
  next
    case (Inr q)
    with channel_send(1) [OF assms(1) Inr] assms(2) False show ?thesis
      by (auto simp: try_submit_def lane_inv_def)
  qed
qed

lemma lane_inv_stop:
  assumes "channel_laws ch" "semaphore_laws sem" "lane_inv ch sem cap conc s"
  shows "lane_inv ch sem cap conc (stop_dispatcher ch sem s)"
  using assms(3) channel_send(3) [OF assms(1), of "ln_queue s"] semaphore_step(2) [OF assms(2), of "ln_permits s"]
  by (auto simp: stop_dispatcher_def lane_inv_def dest: append_prefixD)

lemma mset_take_drop: "n < length xs \<Longrightarrow> mset (take n xs @ drop (Suc n) xs) \<subseteq># mset xs"
proof -
  assume "n < length xs"
  then have "mset xs = mset (take n xs @ xs ! n # drop (Suc n) xs)"
    by (simp only: id_take_nth_drop [symmetric])
  then show ?thesis by simp
qed

lemma lane_inv_finish:
  assumes "semaphore_laws sem" "lane_inv ch sem cap conc s" "n < length (ln_running s)"
  shows "lane_inv ch sem cap conc (finish_job sem n s)"
  using assms(2,3) semaphore_step(2) [OF assms(1), of "ln_permits s"]
    subset_mset.order_trans [OF mset_take_drop [OF assms(3)], of "mset (ln_started s)"]
  by (auto simp: finish_job_def lane_inv_def)

lemma lane_inv_step:
  assumes "channel_laws ch" "semaphore_laws sem" "lane_step ch sem s s'" "lane_inv ch sem cap conc s"
  shows "lane_inv ch sem cap conc s'"
  using assms(3)
proof cases
  case (submit j)
  show ?thesis unfolding submit by (rule lane_inv_submit [OF assms(1,4)])
next
  case (permit p)
  then show ?thesis using assms(4) semaphore_step(1) [OF assms(2) permit(4)] by (simp add: lane_inv_def)
next
  case (dispatch j q)
  then show ?thesis using assms(4) channel_send(2) [OF assms(1) dispatch(4)]
    by (auto simp: lane_inv_def)
next
  case (finish n)
  show ?thesis unfolding finish(1) by (rule lane_inv_finish [OF assms(2,4) finish(2)])
next
  case drop_lane
  then show ?thesis using lane_inv_stop [OF assms(1,2,4)] assms(4) by (auto simp: lane_inv_def)
qed (use lane_inv_stop [OF assms(1,2,4)] assms(4) in \<open>simp_all add: begin_shutdown_def lane_inv_def\<close>)

lemma lane_inv_reach:
  assumes "channel_laws ch" "semaphore_laws sem" "(lane_step ch sem)\<^sup>*\<^sup>* s s'" "lane_inv ch sem cap conc s"
  shows "lane_inv ch sem cap conc s'"
  using assms(3,4) by (induction) (auto intro: lane_inv_step [OF assms(1,2)])

text \<open>Once closed a lane accepts nothing; once its dispatcher is gone it starts nothing.\<close>

lemma lane_step_closed:
  "lane_step ch sem s s' \<Longrightarrow> ln_closed s \<Longrightarrow> ln_closed s' \<and> ln_accepted s' = ln_accepted s"
  by (erule lane_stepE)
    (auto simp: try_submit_def begin_shutdown_def stop_dispatcher_def finish_job_def)

lemma lane_step_stopped:
  assumes "lane_step ch sem s s'" "ln_dispatcher s = Stopped"
  shows "ln_dispatcher s' = Stopped \<and> ln_started s' = ln_started s"
  using assms(1)
proof cases
  case (submit j)
  with assms(2) show ?thesis by (auto simp: try_submit_def split: sum.split send_error.split)
qed (use assms(2) in \<open>auto simp: begin_shutdown_def finish_job_def\<close>)

section \<open>Properties\<close>

text \<open>
  The lane's bounds and order. In every reachable state at most \<open>concurrency\<close> jobs run and at
  most \<open>capacity\<close> wait, the activity count is the number of running jobs, jobs start in the order
  they were accepted, each at most once, and while the dispatcher lives every accepted job is
  started or still waiting.
\<close>

lemma lane_bounded:
  assumes "channel_laws ch" "semaphore_laws sem" "lane_start ch sem cap conc = Some s0"
    "(lane_step ch sem)\<^sup>*\<^sup>* s0 s"
  shows "length (ln_running s) \<le> conc \<and> length (ch_items ch (ln_queue s)) \<le> cap
    \<and> ln_count s = length (ln_running s) \<and> mset (ln_running s) \<subseteq># mset (ln_started s)
    \<and> prefix (ln_started s) (ln_accepted s)
    \<and> (ln_dispatcher s \<noteq> Stopped \<longrightarrow> ln_accepted s = ln_started s @ ch_items ch (ln_queue s))"
proof -
  have "lane_inv ch sem cap conc s"
    using lane_inv_reach [OF assms(1,2,4)] lane_inv_start [OF assms(1-3)] by blast
  then show ?thesis by (auto simp: lane_inv_def dest: append_prefixD)
qed

definition list_channel :: "(nat \<times> bool \<times> 'j list, 'j) channel" where
  "list_channel =
     \<lparr>ch_new = (\<lambda>n. (n, True, [])),
      ch_try_send = (\<lambda>j (n, op, xs). if \<not> op then Inl SendClosed else if length xs < n then Inr (n, op, xs @ [j]) else Inl SendFull),
      ch_recv = (\<lambda>(n, op, xs). case xs of [] \<Rightarrow> None | x # xs' \<Rightarrow> Some (x, (n, op, xs'))),
      ch_drop_receiver = (\<lambda>(n, op, xs). (n, False, [])), ch_items = (\<lambda>(n, op, xs). xs),
      ch_open = (\<lambda>(n, op, xs). op), ch_capacity = (\<lambda>(n, op, xs). n)\<rparr>"

lemma list_channel_laws: "channel_laws list_channel"
  by (auto simp: channel_laws_def list_channel_def split: list.split)

definition demo_lane :: "(nat \<times> bool \<times> nat list, nat, nat) lane_state" where
  "demo_lane = \<lparr>ln_queue = (1, True, []), ln_permits = 1, ln_closed = False, ln_shutdown = False,
     ln_dispatcher = AwaitPermit, ln_count = 0, ln_running = [], ln_accepted = [], ln_started = []\<rparr>"

lemma demo_lane_start: "lane_start list_channel nat_semaphore 1 1 = Some demo_lane"
  by (simp add: lane_start_def demo_lane_def list_channel_def nat_semaphore_def)

lemma lane_bounded_witness:
  "prefix (ln_started (snd (try_submit list_channel 7 demo_lane))) (ln_accepted (snd (try_submit list_channel 7 demo_lane)))
   \<and> ln_accepted (snd (try_submit list_channel 7 demo_lane)) = [7]"
proof -
  have "(lane_step list_channel nat_semaphore)\<^sup>*\<^sup>* demo_lane (snd (try_submit list_channel 7 demo_lane))"
    by (rule r_into_rtranclp) (rule lane_step.submit)
  from lane_bounded [OF list_channel_laws nat_semaphore_laws demo_lane_start this]
  show ?thesis by (simp add: try_submit_def demo_lane_def list_channel_def)
qed

text \<open>
  A closed lane stays closed. From a closed state, whatever happens, no submission is accepted
  again, and once the dispatcher has stopped no further job is ever started; jobs already running
  keep being counted until they end.
\<close>

lemma lane_shutdown_final:
  assumes "ln_closed s" "(lane_step ch sem)\<^sup>*\<^sup>* s s'"
  shows "fst (try_submit ch j s') = Inl LaneClosed \<and> ln_accepted s' = ln_accepted s
    \<and> (ln_dispatcher s = Stopped \<longrightarrow> ln_started s' = ln_started s)"
proof -
  have "ln_closed s' \<and> ln_accepted s' = ln_accepted s"
    using assms(2,1) by (induction) (auto dest: lane_step_closed)
  moreover have "ln_dispatcher s = Stopped \<longrightarrow> ln_dispatcher s' = Stopped \<and> ln_started s' = ln_started s"
    using assms(2) by (induction) (auto dest: lane_step_stopped)
  ultimately show ?thesis by (simp add: try_submit_def)
qed

lemma lane_shutdown_final_witness:
  "fst (try_submit list_channel 7 (stop_dispatcher list_channel nat_semaphore (begin_shutdown demo_lane))) = Inl LaneClosed"
proof -
  have c: "ln_closed (begin_shutdown demo_lane)" by (simp add: begin_shutdown_def)
  have r: "(lane_step list_channel nat_semaphore)\<^sup>*\<^sup>* (begin_shutdown demo_lane)
      (stop_dispatcher list_channel nat_semaphore (begin_shutdown demo_lane))"
    by (rule r_into_rtranclp, rule lane_step.observe_shutdown) (simp_all add: begin_shutdown_def demo_lane_def)
  from lane_shutdown_final [OF c r, of 7] show ?thesis by simp
qed



end
