(* ===== verification/Watch.thy ===== *)
theory Watch
  imports Prelude
begin

text \<open>
  \<open>shelllist-daemon-core/src/watch.rs\<close>: the retry penalty of optional file watchers, and the bounded
  plan of directories to watch. Times are nanoseconds; the overflow of an \<open>Instant\<close> is out of scope.
  Reading a directory is the parameter \<open>read_dir\<close>: a failure, or entries each of which may fail,
  whose file type (is it a directory, symbolic links not followed) may fail to be read too.
\<close>

definition seconds :: "nat \<Rightarrow> nanos" where
  "seconds n = n * 1000000000"

definition default_watch_limit :: nat where
  "default_watch_limit = 512"

record watch_backoff =
  retry_at :: nanos
  delay :: nanos
  healthy_since :: "nanos option"

definition backoff_new :: "nanos \<Rightarrow> watch_backoff" where
  "backoff_new now = \<lparr>retry_at = now, delay = seconds 1, healthy_since = None\<rparr>"

definition backoff_ready :: "nanos \<Rightarrow> watch_backoff \<Rightarrow> bool" where
  "backoff_ready now b \<longleftrightarrow> now \<ge> retry_at b"

definition backoff_started :: "nanos \<Rightarrow> watch_backoff \<Rightarrow> watch_backoff" where
  "backoff_started now b = b\<lparr>healthy_since := Some now\<rparr>"

definition backoff_failed :: "nanos \<Rightarrow> watch_backoff \<Rightarrow> watch_backoff" where
  "backoff_failed now b =
     (let d = (case healthy_since b of
                 Some start \<Rightarrow> if now - start \<ge> seconds 60 then seconds 1 else delay b
               | None \<Rightarrow> delay b)
      in \<lparr>retry_at = now + d, delay = min (d * 2) (seconds 30), healthy_since = None\<rparr>)"

section \<open>Bounded watch plans\<close>

datatype 'e watch_error = WatchIo 'e | WatchBudget

type_synonym ('p, 'e) entry = "'e + (('e + bool) \<times> 'p)"
type_synonym ('p, 'e) read_dir = "'p \<Rightarrow> 'e + ('p, 'e) entry list"

definition check_watch_budget :: "nat \<Rightarrow> nat \<Rightarrow> 'e watch_error + unit" where
  "check_watch_budget count limit = (if count > limit then err WatchBudget else ok ())"

text \<open>The loop over one directory's entries, pushing the directories on the stack.\<close>

fun push_directories ::
  "nat \<Rightarrow> nat \<Rightarrow> ('p, 'e) entry list \<Rightarrow> ('p \<times> bool) list \<Rightarrow> 'e watch_error + ('p \<times> bool) list"
where
  "push_directories limit n_paths [] stack = ok stack"
| "push_directories limit n_paths (entry # entries) stack =
     (case entry of
        Inl e \<Rightarrow> err (WatchIo e)
      | Inr (Inl e, _) \<Rightarrow> err (WatchIo e)
      | Inr (Inr is_dir, path) \<Rightarrow>
          if is_dir
          then (case check_watch_budget (n_paths + length stack + 1) limit of
                  Inl e \<Rightarrow> err e
                | Inr _ \<Rightarrow> push_directories limit n_paths entries ((path, True) # stack))
          else push_directories limit n_paths entries stack)"

definition expanded_count :: "('p \<times> bool) list \<Rightarrow> nat" where
  "expanded_count paths = length (filter snd paths)"

text \<open>
  The main loop: the top of the stack, else the next root. A path keeps whether it has been
  expanded; every expansion uses up one unit of the budget, which is why the loop ends on any file
  system, cyclic ones included.
\<close>

definition visit_entry :: "'p \<Rightarrow> bool \<Rightarrow> ('p \<times> bool) list \<Rightarrow> ('p \<times> bool) list" where
  "visit_entry path recursive paths =
     (if recursive then AList.update path True paths
      else case map_of paths path of None \<Rightarrow> AList.update path False paths | Some _ \<Rightarrow> paths)"

definition next_path ::
  "('p \<times> bool) list \<Rightarrow> ('p \<times> bool) list \<Rightarrow> (('p \<times> bool) \<times> ('p \<times> bool) list \<times> ('p \<times> bool) list) option"
where
  "next_path roots stack =
     (case stack of
        t # stack' \<Rightarrow> Some (t, roots, stack')
      | [] \<Rightarrow> (case roots of r # roots' \<Rightarrow> Some (r, roots', []) | [] \<Rightarrow> None))"

lemma next_path_less:
  "next_path roots stack = Some (t, roots', stack') \<Longrightarrow>
   length roots' + length stack' < length roots + length stack"
  by (auto simp: next_path_def split: list.splits)

lemma expanded_le: "expanded_count paths \<le> length paths"
  by (simp add: expanded_count_def)

lemma expanded_visit:
  "expanded_count (visit_entry p r paths) =
     (if r \<and> map_of paths p \<noteq> Some True then Suc (expanded_count paths) else expanded_count paths)"
proof -
  have "expanded_count (AList.update p True paths) =
      (if map_of paths p \<noteq> Some True then Suc (expanded_count paths) else expanded_count paths)"
    by (induction paths) (auto simp: expanded_count_def)
  moreover have "map_of paths p = None \<Longrightarrow> expanded_count (AList.update p False paths) = expanded_count paths"
    by (simp add: expanded_count_def update_fresh)
  ultimately show ?thesis by (auto simp: visit_entry_def split: option.split)
qed

function plan_loop ::
  "('p, 'e) read_dir \<Rightarrow> nat \<Rightarrow> ('p \<times> bool) list \<Rightarrow> ('p \<times> bool) list \<Rightarrow> ('p \<times> bool) list
    \<Rightarrow> 'e watch_error + ('p \<times> bool) list"
where
  "plan_loop read_dir limit roots stack paths =
     (case next_path roots stack of
        None \<Rightarrow> ok paths
      | Some ((path, recursive), roots', stack') \<Rightarrow>
          let descend = (recursive \<and> map_of paths path \<noteq> Some True);
              paths' = visit_entry path recursive paths
          in case check_watch_budget (length paths') limit of
               Inl e \<Rightarrow> err e
             | Inr _ \<Rightarrow>
                 if \<not> descend then plan_loop read_dir limit roots' stack' paths'
                 else (case read_dir path of
                         Inl e \<Rightarrow> err (WatchIo e)
                       | Inr entries \<Rightarrow>
                           (case push_directories limit (length paths') entries stack' of
                              Inl e \<Rightarrow> err e
                            | Inr stack'' \<Rightarrow> plan_loop read_dir limit roots' stack'' paths')))"
  by pat_completeness auto
termination
proof (relation "measures [\<lambda>(rd, limit, roots, stack, paths). limit - expanded_count paths,
    \<lambda>(rd, limit, roots, stack, paths). length roots + length stack]", goal_cases)
  case 1
  then show ?case by simp
next
  case 2
  then show ?case using next_path_less by (fastforce simp: expanded_visit)
next
  case prems: (3 read_dir limit roots stack paths)
  have budget: "expanded_count p \<le> limit" if "check_watch_budget (length p) limit = Inr u" for p :: "('a \<times> bool) list" and u
    using that expanded_le [of p] by (auto simp: check_watch_budget_def split: if_splits)
  show ?case using budget [OF prems(7)] prems(5,6,8) by (auto simp: expanded_visit)
qed

declare plan_loop.simps [simp del]

definition bounded_watch_paths ::
  "('p :: linorder, 'e) read_dir \<Rightarrow> ('p \<times> bool) list \<Rightarrow> nat \<Rightarrow> 'e watch_error + 'p list"
where
  "bounded_watch_paths read_dir roots limit =
     (case plan_loop read_dir limit roots [] [] of
        Inl e \<Rightarrow> err e
      | Inr paths \<Rightarrow> ok (sort (map fst paths)))"

section \<open>What a plan covers\<close>

definition lists :: "('p, 'e) read_dir \<Rightarrow> 'p \<Rightarrow> 'p \<Rightarrow> bool" where
  "lists read_dir p q \<longleftrightarrow> (\<exists>es. read_dir p = Inr es \<and> Inr (Inr True, q) \<in> set es)"

definition under_root :: "('p, 'e) read_dir \<Rightarrow> ('p \<times> bool) list \<Rightarrow> 'p \<Rightarrow> bool" where
  "under_root read_dir roots q \<longleftrightarrow> (\<exists>r. (r, True) \<in> set roots \<and> (lists read_dir)\<^sup>*\<^sup>* r q)"

lemma under_root_lists: "under_root rd roots p \<Longrightarrow> lists rd p q \<Longrightarrow> under_root rd roots q"
  by (auto simp: under_root_def intro: rtranclp.rtrancl_into_rtrancl)

lemma under_root_root: "(p, True) \<in> set roots \<Longrightarrow> under_root rd roots p"
  by (auto simp: under_root_def)

lemma check_budget_ok: "n \<le> limit \<Longrightarrow> check_watch_budget n limit = Inr ()"
  by (simp add: check_watch_budget_def)

lemma push_directories_set:
  "push_directories limit n es stack = Inr stack' \<Longrightarrow>
   set stack' = set stack \<union> {(q, True) | q. Inr (Inr True, q) \<in> set es}"
proof (induction es arbitrary: stack)
  case Nil
  then show ?case by simp
next
  case (Cons e es)
  then obtain d q where e: "e = Inr (Inr d, q)" by (auto split: sum.splits prod.splits)
  show ?case
  proof (cases d)
    case True
    then have "push_directories limit n es ((q, True) # stack) = Inr stack'"
      using Cons.prems by (auto simp: e split: sum.splits)
    from Cons.IH [OF this] True show ?thesis by (auto simp: e)
  next
    case False
    with Cons show ?thesis by (auto simp: e)
  qed
qed

lemma map_of_visit:
  "map_of (visit_entry p r paths) x =
     (if x = p then Some (r \<or> map_of paths p = Some True) else map_of paths x)"
  by (auto simp: visit_entry_def split: option.split)

lemma distinct_visit: "distinct (map fst paths) \<Longrightarrow> distinct (map fst (visit_entry p r paths))"
  by (auto simp: visit_entry_def distinct_update split: option.split)

text \<open>The loop's invariant, against the roots it was started with.\<close>

definition plan_inv ::
  "('p, 'e) read_dir \<Rightarrow> nat \<Rightarrow> ('p \<times> bool) list \<Rightarrow> ('p \<times> bool) list \<Rightarrow> ('p \<times> bool) list \<Rightarrow> ('p \<times> bool) list \<Rightarrow> bool"
where
  "plan_inv rd limit all roots stack paths \<longleftrightarrow>
     distinct (map fst paths) \<and> length paths \<le> limit \<and> set roots \<subseteq> set all
     \<and> (\<forall>(p, r) \<in> set stack. r \<and> under_root rd all p)
     \<and> (\<forall>p b. map_of paths p = Some b \<longrightarrow>
          (p \<in> fst ` set all \<or> under_root rd all p) \<and> (b \<longrightarrow> under_root rd all p))
     \<and> (\<forall>p q. map_of paths p = Some True \<longrightarrow> lists rd p q \<longrightarrow>
          map_of paths q = Some True \<or> (q, True) \<in> set stack)
     \<and> (\<forall>(p, r) \<in> set all. (p, r) \<in> set roots
          \<or> (map_of paths p \<noteq> None \<and> (r \<longrightarrow> map_of paths p = Some True)))"

lemma plan_inv_visit:
  assumes inv: "plan_inv rd limit all roots stack paths"
    and pop: "next_path roots stack = Some ((p, r), roots', stack')"
    and len: "length (visit_entry p r paths) \<le> limit"
    and stack: "set stack'' = set stack' \<union> {(q, True) | q. r \<and> map_of paths p \<noteq> Some True \<and> lists rd p q}"
  shows "plan_inv rd limit all roots' stack'' (visit_entry p r paths)"
proof -
  have r: "r \<Longrightarrow> under_root rd all p" and all: "p \<in> fst ` set all \<or> under_root rd all p"
    and sub: "set roots' \<subseteq> set roots" "set stack' \<subseteq> set stack"
    and rest: "set roots \<subseteq> insert (p, r) (set roots')" "set stack \<subseteq> insert (p, r) (set stack')"
    using pop inv under_root_root [of p all rd]
    by (auto simp: next_path_def plan_inv_def intro: rev_image_eqI split: list.splits)
  have "distinct (map fst (visit_entry p r paths))" using inv by (simp add: plan_inv_def distinct_visit)
  moreover have "set roots' \<subseteq> set all" using inv sub by (auto simp: plan_inv_def)
  moreover have "\<forall>(q, b) \<in> set stack''. b \<and> under_root rd all q"
    using inv sub r unfolding stack plan_inv_def by (auto intro: under_root_lists)
  moreover have "\<forall>q b. map_of (visit_entry p r paths) q = Some b \<longrightarrow>
      (q \<in> fst ` set all \<or> under_root rd all q) \<and> (b \<longrightarrow> under_root rd all q)"
    using inv r all unfolding plan_inv_def map_of_visit by auto
  moreover have "\<forall>x q. map_of (visit_entry p r paths) x = Some True \<longrightarrow> lists rd x q \<longrightarrow>
      map_of (visit_entry p r paths) q = Some True \<or> (q, True) \<in> set stack''"
  proof (intro allI impI)
    fix x q
    assume x: "map_of (visit_entry p r paths) x = Some True" "lists rd x q"
    show "map_of (visit_entry p r paths) q = Some True \<or> (q, True) \<in> set stack''"
    proof (cases "x = p \<and> map_of paths p \<noteq> Some True")
      case True
      with x show ?thesis by (auto simp: map_of_visit stack)
    next
      case False
      then have "map_of paths x = Some True" using x(1) by (auto simp: map_of_visit split: if_splits)
      then have "map_of paths q = Some True \<or> (q, True) \<in> set stack"
        using inv x(2) unfolding plan_inv_def by blast
      then show ?thesis using rest(2) by (auto simp: map_of_visit stack)
    qed
  qed
  moreover have "\<forall>(q, b) \<in> set all. (q, b) \<in> set roots'
      \<or> (map_of (visit_entry p r paths) q \<noteq> None \<and> (b \<longrightarrow> map_of (visit_entry p r paths) q = Some True))"
    using inv rest(1) unfolding plan_inv_def map_of_visit by (fastforce split: if_splits)
  ultimately show ?thesis using len by (simp add: plan_inv_def)
qed

lemma plan_loop_inv:
  "plan_inv rd limit all roots stack paths \<Longrightarrow> plan_loop rd limit roots stack paths = Inr paths' \<Longrightarrow>
   plan_inv rd limit all [] [] paths'"
proof (induction rd limit roots stack paths rule: plan_loop.induct)
  case (1 rd limit roots stack paths)
  show ?case
  proof (cases "next_path roots stack")
    case None
    then have "roots = []" "stack = []" by (auto simp: next_path_def split: list.splits)
    moreover have "plan_loop rd limit roots stack paths = Inr paths"
      by (subst plan_loop.simps) (simp add: None)
    ultimately show ?thesis using 1(3,4) by simp
  next
    case (Some t)
    obtain p r roots' stack' where t: "t = ((p, r), roots', stack')" by (metis prod.collapse)
    note pop = Some [unfolded t]
    let ?paths = "visit_entry p r paths"
    note unf = 1(4) [unfolded plan_loop.simps [of rd limit roots] pop, simplified]
    have len: "length ?paths \<le> limit"
      using unf by (auto simp: Let_def check_watch_budget_def split: if_splits)
    note budget = check_budget_ok [OF len]
    show ?thesis
    proof (cases "r \<and> map_of paths p \<noteq> Some True")
      case False
      have "plan_inv rd limit all roots' stack' ?paths"
        using plan_inv_visit [OF 1(3) pop len, of stack'] False by auto
      moreover have "plan_loop rd limit roots' stack' ?paths = Inr paths'"
        using unf False by (auto simp: Let_def check_budget_ok [OF len])
      ultimately show ?thesis
        using 1(1) [OF pop refl refl refl refl refl budget] False by blast
    next
      case True
      then obtain es stack'' where es: "rd p = Inr es"
        "push_directories limit (length ?paths) es stack' = Inr stack''"
        "plan_loop rd limit roots' stack'' ?paths = Inr paths'"
        using unf True by (auto simp: Let_def check_budget_ok [OF len] split: sum.splits)
      have "set stack'' = set stack' \<union> {(q, True) | q. r \<and> map_of paths p \<noteq> Some True \<and> lists rd p q}"
        using push_directories_set [OF es(2)] es(1) True by (auto simp: lists_def)
      then have "plan_inv rd limit all roots' stack'' ?paths"
        by (rule plan_inv_visit [OF 1(3) pop len])
      then show ?thesis
        using 1(2) [OF pop refl refl refl refl refl budget _ es(1,2)] True es(3) by blast
    qed
  qed
qed

section \<open>Properties\<close>

text \<open>
  C14. A watch plan is complete and within budget. The planner ends on every file system, cyclic or
  changing answers of \<open>read_dir\<close> included. If it yields a plan, the plan has at most \<open>limit\<close> paths,
  without repetition and in order, and they are exactly the given roots and every directory reachable
  from a recursive root; partial coverage is never reported as a plan.
\<close>

theorem watch_plan_complete:
  "case bounded_watch_paths read_dir roots limit of
     Inl _ \<Rightarrow> True
   | Inr ps \<Rightarrow> length ps \<le> limit \<and> sorted ps \<and> distinct ps
       \<and> set ps = fst ` set roots \<union> {q. under_root read_dir roots q}"
proof (cases "plan_loop read_dir limit roots [] []")
  case (Inl e)
  then show ?thesis by (simp add: bounded_watch_paths_def)
next
  case (Inr paths)
  have "plan_inv read_dir limit roots roots [] []" by (auto simp: plan_inv_def)
  then have inv: "plan_inv read_dir limit roots [] [] paths" using Inr by (rule plan_loop_inv)
  have expanded: "map_of paths q = Some True" if u: "under_root read_dir roots q" for q
  proof -
    obtain r where "(r, True) \<in> set roots" "(lists read_dir)\<^sup>*\<^sup>* r q"
      using u unfolding under_root_def by blast
    from this(2,1) show ?thesis
      by (induction) (use inv in \<open>fastforce simp: plan_inv_def\<close>)+
  qed
  have keys: "fst ` set paths = {p. map_of paths p \<noteq> None}"
    by (auto simp: map_of_eq_None_iff)
  have "fst ` set paths = fst ` set roots \<union> {q. under_root read_dir roots q}"
    unfolding keys
  proof (intro set_eqI iffI)
    fix x
    assume "x \<in> {p. map_of paths p \<noteq> None}"
    then obtain b where "map_of paths x = Some b" by auto
    then show "x \<in> fst ` set roots \<union> {q. under_root read_dir roots q}"
      using inv unfolding plan_inv_def by blast
  next
    fix x
    assume x: "x \<in> fst ` set roots \<union> {q. under_root read_dir roots q}"
    have "map_of paths x \<noteq> None" if "x \<in> fst ` set roots"
      using that inv unfolding plan_inv_def by fastforce
    with x expanded show "x \<in> {p. map_of paths p \<noteq> None}" by auto
  qed
  then show ?thesis using Inr inv
    by (simp add: bounded_watch_paths_def plan_inv_def)
qed

fun flapping :: "(nanos \<times> nanos) list \<Rightarrow> watch_backoff \<Rightarrow> watch_backoff" where
  "flapping [] b = b"
| "flapping ((start, stop) # cycles) b = flapping cycles (backoff_failed stop (backoff_started start b))"

lemma flapping_append: "flapping (xs @ ys) b = flapping ys (flapping xs b)"
  by (induction xs b rule: flapping.induct) auto

lemma flapping_delay:
  "list_all (\<lambda>(start, stop). stop - start < seconds 60) cycles \<Longrightarrow>
   delay b = min (seconds (2 ^ n)) (seconds 30) \<Longrightarrow>
   delay (flapping cycles b) = min (seconds (2 ^ (n + length cycles))) (seconds 30)"
proof (induction cycles arbitrary: b n)
  case Nil
  then show ?case by simp
next
  case (Cons c cycles)
  obtain start stop where c: "c = (start, stop)" by (cases c)
  have "delay (backoff_failed stop (backoff_started start b)) = min (seconds (2 ^ Suc n)) (seconds 30)"
    using Cons.prems by (simp add: c backoff_failed_def backoff_started_def seconds_def min_def)
  from Cons.IH [OF _ this] Cons.prems(1) show ?case by (simp add: c)
qed

text \<open>
  Watcher recovery is rate-limited. Watchers that keep failing, each before it has been healthy
  for a full minute, are retried after 1, 2, 4, 8, 16 and then always 30 seconds; construction alone
  does not shorten the penalty, and a minute of health resets it to one second.
\<close>

lemma backoff_sequence:
  assumes "list_all (\<lambda>(start, stop). stop - start < seconds 60) cycles" "stop - start < seconds 60"
  shows "retry_at (flapping (cycles @ [(start, stop)]) (backoff_new now))
      = stop + min (seconds (2 ^ length cycles)) (seconds 30)
    \<and> retry_at (backoff_failed (start + seconds 60 + extra) (backoff_started start (flapping cycles (backoff_new now))))
      = start + seconds 60 + extra + seconds 1"
proof -
  have "delay (flapping cycles (backoff_new now)) = min (seconds (2 ^ (0 + length cycles))) (seconds 30)"
    using assms(1) by (rule flapping_delay) (simp add: backoff_new_def seconds_def)
  with assms(2) show ?thesis
    by (simp add: flapping_append backoff_failed_def backoff_started_def Let_def)
qed

lemma backoff_sequence_witness:
  "retry_at (flapping ([(0, 5), (10, 12)] @ [(20, 30)]) (backoff_new 0)) = 30 + seconds 4"
proof -
  have 1: "list_all (\<lambda>(start, stop). stop - start < seconds 60) [(0, 5), (10, 12)]" "30 - 20 < seconds 60"
    by (simp_all add: seconds_def)
  show ?thesis using backoff_sequence [OF 1, of 0 0] by (simp add: seconds_def)
qed

end
