(* ===== verification/Jsonl_Client.thy ===== *)
theory Jsonl_Client
  imports Output_Actor Service_Boundary Framing
begin

text \<open>
  \<open>shelllist-daemon-tokio/src/jsonl.rs\<close>: the bridge client. Requests read from standard input are
  admitted under two semaphores, executed against the daemon over D-Bus, and answered through the
  output actor; an event forwarder and an owner watcher recover from lost connections.

  The D-Bus connection is the environment: what each interaction would answer, within the deadline
  that applies to it, is a field of the record \<open>environment\<close> (\<open>env_connect\<close> is the first
  \<open>get\<close> of a request, \<open>env_reconnect\<close> the one before each cancellation of a release). A run of a request is the D-Bus
  requests it sends, the commands it gives to the output actor on the way, and its final command.
  Time itself is not modelled: an \<open>Expired\<close> answer is one that missed its deadline. Parsing of a
  request line is \<open>serde\<close>'s, the parameter \<open>parse\<close>.
\<close>

definition output_capacity :: nat where "output_capacity = 64"
definition initial_reconnect_delay :: nat where "initial_reconnect_delay = 250"
definition max_reconnect_delay :: nat where "max_reconnect_delay = 5000"
definition request_timeout :: nat where "request_timeout = 30000"
definition control_timeout :: nat where "control_timeout = 5000"
definition control_capacity :: nat where "control_capacity = 16"

text \<open>A failure carries its text as \<open>to_string\<close> gives it and with its causes (\<open>{:#}\<close>).\<close>

datatype 'a answer = Answer 'a | Failure ustring ustring | Expired

datatype dbus_request = DbusCall ustring json | DbusSubscribe "ustring list" | DbusCancel ustring

record environment =
  env_connect :: "unit answer"
  env_reconnect :: "ustring \<Rightarrow> unit answer"
  env_ready :: bool
  env_call :: "ustring \<Rightarrow> json \<Rightarrow> json answer"
  env_subscribe :: "ustring list \<Rightarrow> json answer"
  env_cancel :: "ustring \<Rightarrow> json answer"
  env_owned :: "client_route \<Rightarrow> ustring list"
  env_output_open :: bool

record request_run =
  dispatched :: "dbus_request list"
  emitted :: "output_command list"
  final :: output_command

definition send_failed :: ustring where
  "send_failed = ''send daemon output command''"

section \<open>Admission\<close>

record 's request_slots =
  rs_calls :: 's
  rs_controls :: 's

definition slots_new :: "'s semaphore \<Rightarrow> nat \<Rightarrow> 's request_slots" where
  "slots_new sem maximum_calls = \<lparr>rs_calls = sem_new sem maximum_calls, rs_controls = sem_new sem control_capacity\<rparr>"

fun slot_lane :: "client_request \<Rightarrow> lane" where
  "slot_lane (Call _ _ _) = CallLane"
| "slot_lane (Subscribe _ _) = CallLane"
| "slot_lane _ = ControlLane"

definition acquire_slot :: "'s semaphore \<Rightarrow> client_request \<Rightarrow> 's request_slots \<Rightarrow> 's request_slots option" where
  "acquire_slot sem req slots =
     (case slot_lane req of
        CallLane \<Rightarrow> map_option (\<lambda>s. slots\<lparr>rs_calls := s\<rparr>) (sem_try_acquire sem (rs_calls slots))
      | ControlLane \<Rightarrow> map_option (\<lambda>s. slots\<lparr>rs_controls := s\<rparr>) (sem_try_acquire sem (rs_controls slots)))"

definition release_slot :: "'s semaphore \<Rightarrow> client_request \<Rightarrow> 's request_slots \<Rightarrow> 's request_slots" where
  "release_slot sem req slots =
     (case slot_lane req of
        CallLane \<Rightarrow> slots\<lparr>rs_calls := sem_release sem (rs_calls slots)\<rparr>
      | ControlLane \<Rightarrow> slots\<lparr>rs_controls := sem_release sem (rs_controls slots)\<rparr>)"

section \<open>Execution\<close>

definition response_command ::
  "ustring \<Rightarrow> ustring + json \<Rightarrow> ustring option \<Rightarrow> client_route option \<Rightarrow> output_command"
where
  "response_command rid result cancelled_id rt = Response rid result cancelled_id rt"

definition cancellation_succeeded :: "json \<Rightarrow> bool" where
  "cancellation_succeeded response \<longleftrightarrow> Option.bind (json_get ''ok'' response) as_bool \<noteq> Some False"

fun ordinary_call :: "ustring \<Rightarrow> client_route option \<Rightarrow> nat \<Rightarrow> json answer \<Rightarrow> output_command" where
  "ordinary_call rid rt timeout (Answer response) = response_command rid (Inr response) None rt"
| "ordinary_call rid rt timeout Expired = RequestError rid ''outcome-unknown''
     (''daemon request timed out after '' @ decimal timeout
       @ ''ms; outcome unknown; reconcile state, do not retry automatically'') rt"
| "ordinary_call rid rt timeout (Failure text chain) = RequestError rid ''outcome-unknown''
     (''daemon call reply unavailable; outcome unknown; do not retry automatically: '' @ chain) rt"

text \<open>Returns the commands given to the output actor, and the result.\<close>

fun with_transport_timeout :: "bool \<Rightarrow> nat \<Rightarrow> 'a answer \<Rightarrow> output_command list \<times> (ustring + 'a)" where
  "with_transport_timeout output_open timeout (Answer v) = ([], Inr v)"
| "with_transport_timeout output_open timeout (Failure text chain) = ([], Inl text)"
| "with_transport_timeout output_open timeout Expired =
     (let m = ''daemon request timed out after '' @ decimal timeout @ ''ms''
      in if output_open then ([TransportError m], Inl m) else ([], Inl send_failed))"

fun after_connect :: "unit answer \<Rightarrow> 'b answer \<Rightarrow> 'b answer" where
  "after_connect (Answer _) a = a"
| "after_connect (Failure t c) a = Failure t c"
| "after_connect Expired a = Expired"

fun connected :: "unit answer \<Rightarrow> bool" where
  "connected (Answer _) = True"
| "connected _ = False"

text \<open>The loop of \<open>release_consumer\<close>, under one deadline for all the cancellations.\<close>

fun release_loop ::
  "environment \<Rightarrow> nat \<Rightarrow> ustring list \<Rightarrow> dbus_request list \<times> output_command list \<times> json answer"
where
  "release_loop env count [] = ([], [], Answer (jobj [(''released'', JNumber (PosInt count))]))"
| "release_loop env count (i # ids) =
     (case env_reconnect env i of
        Failure t c \<Rightarrow> ([], [], Failure t c)
      | Expired \<Rightarrow> ([], [], Expired)
      | Answer _ \<Rightarrow>
          (case env_cancel env i of
             Failure t c \<Rightarrow> ([DbusCancel i], [], Failure t c)
           | Expired \<Rightarrow> ([DbusCancel i], [], Expired)
           | Answer response \<Rightarrow>
               if \<not> cancellation_succeeded response
               then ([DbusCancel i], [], Failure (''daemon rejected cancellation of '' @ i)
                      (''daemon rejected cancellation of '' @ i))
               else if \<not> env_output_open env then ([DbusCancel i], [], Failure send_failed send_failed)
               else (let (ds, es, a) = release_loop env count ids
                     in (DbusCancel i # ds, Cancelled i # es, a))))"

definition release_consumer ::
  "environment \<Rightarrow> client_route option \<Rightarrow> dbus_request list \<times> output_command list \<times> (ustring + json)"
where
  "release_consumer env rt =
     (case rt of
        None \<Rightarrow> ([], [], Inl ''release requires a consumer route'')
      | Some r \<Rightarrow>
          let ids = env_owned env r;
              (ds, es, a) = release_loop env (length ids) ids;
              (es', result) = with_transport_timeout (env_output_open env) control_timeout a
          in (ds, es @ es', result))"

fun execute_request :: "environment \<Rightarrow> client_message \<Rightarrow> request_run" where
  "execute_request env m =
     (case request m of
        Call rid method params \<Rightarrow>
          if connected (env_connect env)
          then \<lparr>dispatched = [DbusCall method params], emitted = [],
                final = ordinary_call rid (route m) request_timeout (env_call env method params)\<rparr>
          else \<lparr>dispatched = [], emitted = [],
                final = RequestError rid ''rejected-before-dispatch''
                  ''daemon connection unavailable; request was not sent'' (route m)\<rparr>
      | Subscribe rid streams \<Rightarrow>
          if \<not> env_ready env
          then \<lparr>dispatched = [], emitted = [],
                final = RequestError rid ''rejected-before-dispatch''
                  ''daemon event forwarding is not ready; subscription was not sent'' (route m)\<rparr>
          else
            let (es, result) = with_transport_timeout (env_output_open env) request_timeout
                  (after_connect (env_connect env) (env_subscribe env streams))
            in \<lparr>dispatched = (if connected (env_connect env) then [DbusSubscribe streams] else []),
                emitted = es, final = response_command rid result None (route m)\<rparr>
      | Cancel rid request_id \<Rightarrow>
          let (es, result) = with_transport_timeout (env_output_open env) control_timeout
                (after_connect (env_connect env) (env_cancel env request_id));
              cancelled_id = (case result of
                  Inr response \<Rightarrow> if cancellation_succeeded response then Some request_id else None
                | Inl _ \<Rightarrow> None)
          in \<lparr>dispatched = (if connected (env_connect env) then [DbusCancel request_id] else []),
              emitted = es, final = response_command rid result cancelled_id (route m)\<rparr>
      | Release rid \<Rightarrow>
          let (ds, es, result) = release_consumer env (route m)
          in \<lparr>dispatched = ds, emitted = es, final = response_command rid result None (route m)\<rparr>
      | Shutdown rid \<Rightarrow> \<lparr>dispatched = [], emitted = [], final = OutShutdown rid\<rparr>)"

definition spawn_request ::
  "'s semaphore \<Rightarrow> environment \<Rightarrow> client_message \<Rightarrow> 's request_slots \<Rightarrow> request_run \<times> 's request_slots"
where
  "spawn_request sem env m slots =
     (case acquire_slot sem (request m) slots of
        None \<Rightarrow>
          (\<lparr>dispatched = [], emitted = [],
            final = RequestError (req_id (request m)) ''rejected-before-dispatch''
              ''bridge request capacity exceeded; request was not sent'' (route m)\<rparr>, slots)
      | Some slots' \<Rightarrow> (execute_request env m, slots'))"

section \<open>The request loop\<close>

text \<open>\<open>str::trim().is_empty()\<close>: only Unicode white space, in UTF-8.\<close>

fun blank :: "ustring \<Rightarrow> bool" where
  "blank [] = True"
| "blank (a # r) =
     (if byte_in a 0x09 0x0D \<or> byte_in a 0x20 0x20 then blank r
      else (case r of
        b # r' \<Rightarrow>
          if byte_in a 0xC2 0xC2 \<and> (byte_in b 0x85 0x85 \<or> byte_in b 0xA0 0xA0) then blank r'
          else (case r' of
            c # r'' \<Rightarrow>
              ((byte_in a 0xE1 0xE1 \<and> byte_in b 0x9A 0x9A \<and> byte_in c 0x80 0x80)
               \<or> (byte_in a 0xE2 0xE2 \<and> byte_in b 0x80 0x80
                   \<and> (byte_in c 0x80 0x8A \<or> byte_in c 0xA8 0xA9 \<or> byte_in c 0xAF 0xAF))
               \<or> (byte_in a 0xE2 0xE2 \<and> byte_in b 0x81 0x81 \<and> byte_in c 0x9F 0x9F)
               \<or> (byte_in a 0xE3 0xE3 \<and> byte_in b 0x80 0x80 \<and> byte_in c 0x80 0x80)) \<and> blank r''
          | [] \<Rightarrow> False)
      | [] \<Rightarrow> False))"

fun route_error_text :: "route_error \<Rightarrow> ustring" where
  "route_error_text ReleaseNeedsRoute = ''release requires a consumer route''"
| "route_error_text BadIdentifierLength = ''invalid bridge route identifier length''"
| "route_error_text KindMismatch = ''bridge route kind does not match request''"

datatype parsed = Skip | Malformed ustring | Parsed client_message

definition parse_request :: "(ustring \<Rightarrow> ustring + client_message) \<Rightarrow> ustring \<Rightarrow> parsed" where
  "parse_request parse l =
     (if blank l then Skip
      else
        (case parse l of
           Inl e \<Rightarrow> Malformed e
         | Inr m \<Rightarrow> (case validate m of Inl e \<Rightarrow> Malformed (route_error_text e) | Inr _ \<Rightarrow> Parsed m)))"

text \<open>
  What the loop does, frame by frame. Each frame comes with whether the output is closed when it has
  been read and whether a command sent for it is accepted.
\<close>

datatype loop_action = Report ustring | Dispatch client_message

datatype loop_end = LoopShutdown ustring | LoopEof | LoopOutputClosed | LoopSendFailed

fun request_loop ::
  "(ustring \<Rightarrow> ustring + client_message) \<Rightarrow> nat \<Rightarrow> (frame \<times> bool \<times> bool) list \<Rightarrow> loop_action list \<times> loop_end"
where
  "request_loop parse byte_limit [] = ([], LoopEof)"
| "request_loop parse byte_limit ((f, closed, accepted) # fs) =
     (if closed then ([], LoopOutputClosed)
      else
        (case f of
           TooLarge \<Rightarrow>
             if accepted
             then (let (as, e) = request_loop parse byte_limit fs
                   in (Report (''JSONL request exceeds '' @ decimal byte_limit @ '' bytes'') # as, e))
             else ([], LoopSendFailed)
         | Line l \<Rightarrow>
             (case parse_request parse l of
                Skip \<Rightarrow> request_loop parse byte_limit fs
              | Malformed e \<Rightarrow>
                  if accepted
                  then (let (as, e') = request_loop parse byte_limit fs in (Report e # as, e'))
                  else ([], LoopSendFailed)
              | Parsed m \<Rightarrow>
                  (case request m of
                     Shutdown rid \<Rightarrow> ([], LoopShutdown rid)
                   | _ \<Rightarrow> (let (as, e') = request_loop parse byte_limit fs in (Dispatch m # as, e'))))))"

section \<open>Recovery\<close>

definition report_transport_error :: "ustring option \<Rightarrow> ustring \<Rightarrow> output_command list \<times> ustring option" where
  "report_transport_error last_error m =
     (if last_error = Some m then ([], last_error) else ([TransportError m], Some m))"

definition next_delay :: "nat \<Rightarrow> nat" where
  "next_delay d = min (d * 2) max_reconnect_delay"

text \<open>
  The event forwarder, one failure of the event stream after another, while the output accepts its
  commands: the commands it sends and the delays it sleeps, in milliseconds.
\<close>

fun forwarder :: "nat \<Rightarrow> ustring option \<Rightarrow> ustring list \<Rightarrow> output_command list \<times> nat list" where
  "forwarder d last_error [] = ([], [])"
| "forwarder d last_error (m # ms) =
     (let (es, last') = report_transport_error last_error m;
          (cs, ds) = forwarder (next_delay d) last' ms
      in (ResetCorrelation # es @ cs, d # ds))"

definition event_forwarder :: "ustring list \<Rightarrow> output_command list \<times> nat list" where
  "event_forwarder failures = forwarder initial_reconnect_delay None failures"

text \<open>One round of the owner watcher: the commands it sends, when they are accepted.\<close>

definition watch_owner_once :: "ustring \<Rightarrow> bool \<Rightarrow> output_command list" where
  "watch_owner_once exe replaced =
     (if replaced then [ResetCorrelation, TransportError (exe @ '' D-Bus owner changed'')] else [])"

text \<open>
  The clean-up after the loop: if a connection can be had, every active ID is cancelled once, whatever
  the daemon answers, until the one budget of the whole clean-up has passed.
\<close>

fun cancel_each :: "environment \<Rightarrow> ustring list \<Rightarrow> dbus_request list" where
  "cancel_each env [] = []"
| "cancel_each env (i # ids) = DbusCancel i # (case env_cancel env i of Expired \<Rightarrow> [] | _ \<Rightarrow> cancel_each env ids)"

definition cancel_active :: "environment \<Rightarrow> ustring list \<Rightarrow> dbus_request list" where
  "cancel_active env ids = (if connected (env_connect env) then cancel_each env ids else [])"

definition valid_request_limit :: "nat \<Rightarrow> bool" where
  "valid_request_limit n \<longleftrightarrow> 1 \<le> n \<and> n \<le> max_jsonl_request_bytes"

section \<open>Outcomes\<close>

fun command_id :: "output_command \<Rightarrow> ustring option" where
  "command_id (RequestError rid _ _ _) = Some rid"
| "command_id (Response rid _ _ _) = Some rid"
| "command_id (OutShutdown rid) = Some rid"
| "command_id _ = None"

fun command_route :: "output_command \<Rightarrow> client_route option" where
  "command_route (RequestError _ _ _ rt) = rt"
| "command_route (Response _ _ _ rt) = rt"
| "command_route _ = None"

fun rejected_unsent :: "output_command \<Rightarrow> bool" where
  "rejected_unsent (RequestError _ oc _ _) \<longleftrightarrow> oc = ''rejected-before-dispatch''"
| "rejected_unsent _ \<longleftrightarrow> False"

fun outcome_unknown :: "output_command \<Rightarrow> bool" where
  "outcome_unknown (RequestError _ oc _ _) \<longleftrightarrow> oc = ''outcome-unknown''"
| "outcome_unknown _ \<longleftrightarrow> False"

fun answered_with :: "json \<Rightarrow> output_command \<Rightarrow> bool" where
  "answered_with v (Response _ result cancelled_id _) \<longleftrightarrow> result = Inr v \<and> cancelled_id = None"
| "answered_with v _ \<longleftrightarrow> False"

definition is_shutdown :: "client_request \<Rightarrow> bool" where
  "is_shutdown req = (case req of Shutdown _ \<Rightarrow> True | _ \<Rightarrow> False)"

lemma outcomes_differ [simp]: "''outcome-unknown'' \<noteq> ''rejected-before-dispatch''" by simp

lemma ordinary_call_outcome:
  "command_id (ordinary_call rid rt t a) = Some rid"
  "command_route (ordinary_call rid rt t a) = rt"
  "\<not> rejected_unsent (ordinary_call rid rt t a)"
  "case a of Answer v \<Rightarrow> answered_with v (ordinary_call rid rt t a)
    | _ \<Rightarrow> outcome_unknown (ordinary_call rid rt t a)"
  by (cases a; simp add: response_command_def)+

lemma execute_request_id:
  "command_id (final (execute_request env m)) = Some (req_id (request m))"
  by (cases "request m")
     (simp_all add: ordinary_call_outcome response_command_def Let_def case_prod_beta)

lemma execute_request_route:
  "\<not> is_shutdown (request m) \<Longrightarrow> command_route (final (execute_request env m)) = route m"
  by (cases "request m")
     (simp_all add: ordinary_call_outcome response_command_def Let_def case_prod_beta is_shutdown_def)

lemma execute_request_unsent:
  "rejected_unsent (final (execute_request env m)) \<Longrightarrow> dispatched (execute_request env m) = []"
  by (cases "request m")
     (simp_all add: ordinary_call_outcome response_command_def Let_def case_prod_beta split: if_splits)

lemma execute_request_once:
  "\<not> is_release (request m) \<Longrightarrow> length (dispatched (execute_request env m)) \<le> 1"
  by (cases "request m") (simp_all add: Let_def case_prod_beta)

lemma execute_call:
  assumes "request m = Call rid method params" "dispatched (execute_request env m) \<noteq> []"
  shows "dispatched (execute_request env m) = [DbusCall method params]"
    and "case env_call env method params of
           Answer v \<Rightarrow> answered_with v (final (execute_request env m))
         | _ \<Rightarrow> outcome_unknown (final (execute_request env m))"
proof -
  show "dispatched (execute_request env m) = [DbusCall method params]"
    using assms by (auto split: if_splits)
  have "final (execute_request env m)
      = ordinary_call rid (route m) request_timeout (env_call env method params)"
    using assms by (auto split: if_splits)
  then show "case env_call env method params of
           Answer v \<Rightarrow> answered_with v (final (execute_request env m))
         | _ \<Rightarrow> outcome_unknown (final (execute_request env m))"
    by (simp only: ordinary_call_outcome(4))
qed

lemmas execute_request_facts =
  execute_request_id execute_request_route execute_request_unsent execute_request_once

text \<open>
  C15. The outcome a client is told is true, and nothing is replayed. However the request ends, its
  final command carries the request's own ID and, unless it is a shutdown, its own route. A command
  that says \<open>rejected-before-dispatch\<close> means no D-Bus request was sent; apart from a release, a
  request sends at most one; and a call that was sent ends in the daemon's own answer, or, when that
  answer failed or missed its deadline, in \<open>outcome-unknown\<close>.
\<close>

theorem outcome_is_truthful:
  assumes "spawn_request sem env m slots = (run, slots')"
  shows "command_id (final run) = Some (req_id (request m))
    \<and> (\<not> is_shutdown (request m) \<longrightarrow> command_route (final run) = route m)
    \<and> (rejected_unsent (final run) \<longrightarrow> dispatched run = [])
    \<and> (\<not> is_release (request m) \<longrightarrow> length (dispatched run) \<le> 1)
    \<and> (\<forall>rid method params. request m = Call rid method params \<and> dispatched run \<noteq> [] \<longrightarrow>
         dispatched run = [DbusCall method params]
         \<and> (case env_call env method params of
              Answer v \<Rightarrow> answered_with v (final run) | _ \<Rightarrow> outcome_unknown (final run)))"
proof (cases "acquire_slot sem (request m) slots")
  case None
  then show ?thesis
    using assms by (auto simp: spawn_request_def)
next
  case (Some s)
  then have run: "run = execute_request env m"
    using assms by (simp add: spawn_request_def)
  show ?thesis
    unfolding run using execute_request_facts[where env = env and m = m] execute_call[where env = env and m = m] by blast
qed

definition demo_env :: environment where
  "demo_env = \<lparr>env_connect = Answer (), env_reconnect = (\<lambda>_. Answer ()), env_ready = True,
     env_call = (\<lambda>_ _. Expired), env_subscribe = (\<lambda>_. Answer JNull),
     env_cancel = (\<lambda>i. if i = ''b'' then Failure ''no'' ''no'' else Answer JNull),
     env_owned = (\<lambda>_. [''a'', ''b'', ''c'']), env_output_open = True\<rparr>"

definition demo_call :: client_message where
  "demo_call = \<lparr>request = Call ''r'' ''m'' JNull, route = None\<rparr>"

lemma outcome_is_truthful_witness:
  "outcome_unknown (final (fst (spawn_request nat_semaphore demo_env demo_call (slots_new nat_semaphore 1))))
   \<and> dispatched (fst (spawn_request nat_semaphore demo_env demo_call (slots_new nat_semaphore 1)))
     = [DbusCall ''m'' JNull]"
proof -
  obtain run slots where r: "spawn_request nat_semaphore demo_env demo_call (slots_new nat_semaphore 1) = (run, slots)"
    by fastforce
  moreover have "dispatched run \<noteq> []"
    using r by (auto simp: spawn_request_def acquire_slot_def slots_new_def nat_semaphore_def demo_call_def
        demo_env_def)
  ultimately show ?thesis
    using outcome_is_truthful[OF r]
    by (auto simp: demo_call_def demo_env_def)
qed

section \<open>Release\<close>

definition confirms :: "environment \<Rightarrow> ustring \<Rightarrow> bool" where
  "confirms env i \<longleftrightarrow> connected (env_reconnect env i) \<and> env_output_open env
     \<and> (case env_cancel env i of Answer response \<Rightarrow> cancellation_succeeded response | _ \<Rightarrow> False)"

lemma release_loop_confirmed:
  "release_loop env count (good @ ids) =
     (case release_loop env count ids of (ds, es, a) \<Rightarrow> (map DbusCancel good @ ds, map Cancelled good @ es, a))"
  if "\<forall>i\<in>set good. confirms env i"
  using that
  by (induction good) (auto simp: confirms_def split: answer.splits prod.splits elim: connected.elims)

lemma release_loop_stops:
  assumes "\<not> confirms env i"
  shows "\<exists>ds a. release_loop env count (i # ids) = (ds, [], a) \<and> set ds \<subseteq> {DbusCancel i} \<and> length ds \<le> 1
    \<and> (\<nexists>v. a = Answer v)"
  using assms by (auto simp: confirms_def split: answer.splits)

lemma with_transport_timeout_cases:
  "snd (with_transport_timeout b t a) = Inr v \<longleftrightarrow> a = Answer v"
  "fst (with_transport_timeout b t a) =
     (case a of Expired \<Rightarrow> if b then [TransportError (''daemon request timed out after '' @ decimal t @ ''ms'')] else []
      | _ \<Rightarrow> [])"
  by (cases a; auto simp: Let_def)+

definition cancelled_of :: "output_command list \<Rightarrow> ustring list" where
  "cancelled_of cs = concat (map (\<lambda>c. case c of Cancelled i \<Rightarrow> [i] | _ \<Rightarrow> []) cs)"

lemma cancelled_of_simps [simp]:
  "cancelled_of [] = []"
  "cancelled_of (xs @ ys) = cancelled_of xs @ cancelled_of ys"
  "cancelled_of (map Cancelled is) = is"
  "cancelled_of (fst (with_transport_timeout b t a)) = []"
  by (simp_all add: cancelled_of_def with_transport_timeout_cases comp_def split: answer.split)

text \<open>
  Releasing a consumer cancels the IDs it owns in the order they are listed, up to the first
  one the daemon does not confirm: exactly the confirmed ones lose their correlation, at most one
  further cancellation is sent, and the release succeeds, reporting how many IDs there were, exactly
  when every one of them was confirmed.
\<close>

lemma release_stops_at_first_failure:
  "case release_consumer env (Some rt) of (ds, es, result) \<Rightarrow>
     let owned = env_owned env rt; good = takeWhile (confirms env) owned in
       cancelled_of es = good
       \<and> ds \<in> {map DbusCancel good, map DbusCancel (take (Suc (length good)) owned)}
       \<and> (result = Inr (jobj [(''released'', JNumber (PosInt (length owned)))]) \<longleftrightarrow> good = owned)
       \<and> (good = owned \<longleftrightarrow> (\<exists>v. result = Inr v))"
proof -
  define owned where "owned = env_owned env rt"
  define good where "good = takeWhile (confirms env) owned"
  define rest where "rest = dropWhile (confirms env) owned"
  have split: "owned = good @ rest" and conf: "\<forall>i\<in>set good. confirms env i"
    by (auto simp: good_def rest_def dest: set_takeWhileD)
  have loop: "release_loop env (length owned) owned =
      (case release_loop env (length owned) rest of
         (ds, es, a) \<Rightarrow> (map DbusCancel good @ ds, map Cancelled good @ es, a))"
    using release_loop_confirmed[OF conf, of "length owned" rest] split by simp
  have rc: "release_consumer env (Some rt) =
      (let (ds, es, a) = release_loop env (length owned) owned;
           (es', result) = with_transport_timeout (env_output_open env) control_timeout a
       in (ds, es @ es', result))"
    by (simp add: release_consumer_def owned_def Let_def)
  show ?thesis
  proof (cases rest)
    case Nil
    then have "good = owned"
      using split by simp
    then show ?thesis
      unfolding rc Let_def owned_def[symmetric] good_def[symmetric]
      using loop Nil by simp
  next
    case (Cons i ids)
    then have "\<not> confirms env i"
      by (metis hd_dropWhile list.distinct(1) list.sel(1) rest_def)
    then obtain ds a where stop: "release_loop env (length owned) (i # ids) = (ds, [], a)"
        "set ds \<subseteq> {DbusCancel i}" "length ds \<le> 1" "\<nexists>v. a = Answer v"
      using release_loop_stops by blast
    then have ds: "ds = [] \<or> ds = [DbusCancel i]"
      by (cases ds) auto
    have "good \<noteq> owned" "take (Suc (length good)) owned = good @ [i]"
      using split Cons by (metis append_self_conv list.distinct(1)) (simp add: split Cons)
    moreover have "snd (with_transport_timeout (env_output_open env) control_timeout a) \<noteq> Inr v" for v
      using stop(4) with_transport_timeout_cases(1) by metis
    ultimately show ?thesis
      unfolding rc Let_def owned_def[symmetric] good_def[symmetric]
      using loop Cons stop(1) ds by (auto simp: case_prod_beta simp del: release_loop.simps)
  qed
qed

section \<open>What the request loop dispatches\<close>

text \<open>The reference: when a frame stops the loop, and what it makes the loop do otherwise.\<close>

definition frame_stops ::
  "(ustring \<Rightarrow> ustring + client_message) \<Rightarrow> frame \<times> bool \<times> bool \<Rightarrow> loop_end option"
where
  "frame_stops parse = (\<lambda>(f, closed, accepted).
     if closed then Some LoopOutputClosed
     else (case f of
         TooLarge \<Rightarrow> if accepted then None else Some LoopSendFailed
       | Line l \<Rightarrow> (case parse_request parse l of
             Skip \<Rightarrow> None
           | Malformed _ \<Rightarrow> if accepted then None else Some LoopSendFailed
           | Parsed m \<Rightarrow> (case request m of Shutdown rid \<Rightarrow> Some (LoopShutdown rid) | _ \<Rightarrow> None))))"

definition frame_action ::
  "(ustring \<Rightarrow> ustring + client_message) \<Rightarrow> nat \<Rightarrow> frame \<times> bool \<times> bool \<Rightarrow> loop_action list"
where
  "frame_action parse byte_limit = (\<lambda>(f, closed, accepted).
     case f of
       TooLarge \<Rightarrow> [Report (''JSONL request exceeds '' @ decimal byte_limit @ '' bytes'')]
     | Line l \<Rightarrow> (case parse_request parse l of
           Skip \<Rightarrow> [] | Malformed e \<Rightarrow> [Report e] | Parsed m \<Rightarrow> [Dispatch m]))"

lemma parsed_is_valid:
  "parse_request parse l = Parsed m \<Longrightarrow> \<not> blank l \<and> parse l = Inr m \<and> validate m = Inr ()"
  by (auto simp: parse_request_def split: if_splits sum.splits)

lemma request_loop_cons:
  "request_loop parse n (x # xs) =
     (case frame_stops parse x of
        Some e \<Rightarrow> ([], e)
      | None \<Rightarrow> (frame_action parse n x @ fst (request_loop parse n xs), snd (request_loop parse n xs)))"
proof (cases x)
  case (fields f closed accepted)
  then show ?thesis
    by (cases f)
       (auto simp: frame_stops_def frame_action_def Let_def case_prod_beta
         split: parsed.split client_request.split)
qed

text \<open>
  The request loop handles the frames in order, up to the first that stops it: a frame read
  after the output was closed, a report the output does not accept, a shutdown request, or the end
  of the input, which is what the loop returns. Before it, every line that parses to a valid message
  is dispatched once, every malformed or oversized record is reported once and blank lines are
  skipped; from it on nothing is dispatched.
\<close>

lemma request_loop_reference:
  "request_loop parse n fs =
     (concat (map (frame_action parse n) (takeWhile (\<lambda>x. frame_stops parse x = None) fs)),
      case dropWhile (\<lambda>x. frame_stops parse x = None) fs of
        [] \<Rightarrow> LoopEof | x # _ \<Rightarrow> the (frame_stops parse x))"
proof (induction fs)
  case (Cons x fs)
  then show ?case
    by (simp add: request_loop_cons split: option.split del: request_loop.simps(2))
qed simp

lemma dispatched_are_valid:
  "Dispatch m \<in> set (fst (request_loop parse n fs)) \<Longrightarrow> validate m = Inr () \<and> \<not> is_shutdown (request m)"
proof (induction fs)
  case (Cons x fs)
  show ?case
  proof (cases "frame_stops parse x")
    case None
    then have "Dispatch m \<in> set (frame_action parse n x) \<or> Dispatch m \<in> set (fst (request_loop parse n fs))"
      using Cons.prems by (simp add: request_loop_cons del: request_loop.simps(2))
    moreover have "validate m = Inr () \<and> \<not> is_shutdown (request m)"
      if dispatch: "Dispatch m \<in> set (frame_action parse n x)"
    proof -
      obtain l closed accepted where x: "x = (Line l, closed, accepted)" "parse_request parse l = Parsed m"
        using dispatch by (cases x) (auto simp: frame_action_def split: frame.splits parsed.splits)
      show ?thesis
        using None x parsed_is_valid[OF x(2)]
        by (simp add: frame_stops_def is_shutdown_def split: client_request.splits if_splits)
    qed
    ultimately show ?thesis
      using Cons.IH by blast
  qed (use Cons.prems in \<open>simp add: request_loop_cons del: request_loop.simps(2)\<close>)
qed simp

section \<open>Reconnection\<close>

lemma forwarder_delays:
  "snd (forwarder (min (d * 2 ^ k) max_reconnect_delay) last_error ms) =
     map (\<lambda>n. min (d * 2 ^ (k + n)) max_reconnect_delay) [0..<length ms]"
proof (induction ms arbitrary: k last_error)
  case (Cons m ms)
  have step: "next_delay (min (d * 2 ^ k) max_reconnect_delay) = min (d * 2 ^ Suc k) max_reconnect_delay"
    by (auto simp: next_delay_def min_def)
  show ?case
    using Cons[of "Suc k"]
    by (simp add: step case_prod_beta map_upt_Suc Let_def del: upt_Suc)
qed simp

definition transport_errors :: "output_command list \<Rightarrow> ustring list" where
  "transport_errors cs = concat (map (\<lambda>c. case c of TransportError m \<Rightarrow> [m] | _ \<Rightarrow> []) cs)"

lemma transport_errors_simps [simp]:
  "transport_errors [] = []"
  "transport_errors (ResetCorrelation # cs) = transport_errors cs"
  "transport_errors (TransportError m # cs) = m # transport_errors cs"
  by (simp_all add: transport_errors_def)

lemma forwarder_errors:
  "transport_errors (fst (forwarder d (Some m) ms)) = tl (remdups_adj (m # ms))"
  "transport_errors (fst (forwarder d None ms)) = remdups_adj ms"
proof -
  show some: "transport_errors (fst (forwarder d (Some m) ms)) = tl (remdups_adj (m # ms))" for d m ms
    by (induction ms arbitrary: d m)
       (auto simp: report_transport_error_def case_prod_beta Let_def remdups_adj_Cons split: list.splits)
  show "transport_errors (fst (forwarder d None ms)) = remdups_adj ms"
    by (cases ms)
       (simp_all add: report_transport_error_def case_prod_beta Let_def some)
qed

lemma forwarder_resets:
  "filter (\<lambda>c. c = ResetCorrelation) (fst (forwarder d last_error ms)) = replicate (length ms) ResetCorrelation"
  by (induction ms arbitrary: d last_error) (auto simp: report_transport_error_def case_prod_beta Let_def)

lemma forwarder_reset_first:
  "fst (forwarder d last_error ms) = us @ TransportError m # vs \<Longrightarrow> us \<noteq> [] \<and> last us = ResetCorrelation"
proof (induction ms arbitrary: d last_error us)
  case (Cons x ms)
  obtain us' where us: "us = ResetCorrelation # us'"
    using Cons.prems by (cases us) (auto simp: case_prod_beta Let_def)
  obtain e where "fst (report_transport_error last_error x) @ fst (forwarder (next_delay d) e ms)
      = us' @ TransportError m # vs"
    using Cons.prems us by (auto simp: case_prod_beta Let_def)
  then show ?case
    using Cons.IH[of "next_delay d" e] us
    by (cases us') (auto simp: report_transport_error_def split: if_splits)
qed simp

text \<open>
  Every failure of the event stream resets the correlation state before anything is reported
  (each transport error directly follows a reset, and there is a reset per failure), an error that
  repeats is reported once, and the n-th reconnection waits \<open>min (250 * 2^n, 5000)\<close> milliseconds.
\<close>

lemma event_forwarder_recovers:
  "filter (\<lambda>c. c = ResetCorrelation) (fst (event_forwarder failures)) = replicate (length failures) ResetCorrelation
   \<and> (\<forall>us m vs. fst (event_forwarder failures) = us @ TransportError m # vs \<longrightarrow> us \<noteq> [] \<and> last us = ResetCorrelation)
   \<and> transport_errors (fst (event_forwarder failures)) = remdups_adj failures
   \<and> snd (event_forwarder failures) = map (\<lambda>n. min (250 * 2 ^ n) 5000) [0..<length failures]"
proof -
  have d: "min (initial_reconnect_delay * 2 ^ 0) max_reconnect_delay = initial_reconnect_delay"
    by (simp add: initial_reconnect_delay_def max_reconnect_delay_def)
  show ?thesis
    unfolding event_forwarder_def
    using forwarder_delays[of initial_reconnect_delay 0 None failures, unfolded d]
    by (simp add: forwarder_resets forwarder_errors initial_reconnect_delay_def max_reconnect_delay_def)
       (use forwarder_reset_first in blast)
qed

lemma event_forwarder_recovers_witness:
  "event_forwarder [''gone'', ''gone''] = ([ResetCorrelation, TransportError ''gone'', ResetCorrelation], [250, 500])
   \<and> transport_errors (fst (event_forwarder [''gone'', ''gone''])) = [''gone'']"
  using event_forwarder_recovers[of "[''gone'', ''gone'']"]
  by (simp add: event_forwarder_def report_transport_error_def next_delay_def initial_reconnect_delay_def
      max_reconnect_delay_def)

end
