(* ===== verification/Fixed_Decimal.thy ===== *)
theory Fixed_Decimal
  imports Text_Format "HOL-Library.Word"
begin

text \<open>
  \<open>shelllist-daemon-core/src/decimal.rs\<close>: presentation rounding of an \<open>f64\<close> to a fixed number of
  decimals. A float is its 64 bits. \<open>print_fixed\<close> is Rust's formatter for \<open>{:.d}\<close>, which prints the
  exact binary value rounded to \<open>d\<close> decimals with ties to even; \<open>fixed_decimal\<close> steers its ties away
  from zero. \<open>ties_away_text\<close> says which text that is meant to be.
\<close>

unbundle bit_operations_syntax

type_synonym f64 = "64 word"

section \<open>Reading the bits\<close>

definition negative :: "f64 \<Rightarrow> bool" where
  "negative b \<longleftrightarrow> bit b 63"

text \<open>\<open>value.abs().to_bits()\<close>\<close>

definition magnitude :: "f64 \<Rightarrow> f64" where
  "magnitude b = take_bit 63 b"

definition copysign :: "f64 \<Rightarrow> f64 \<Rightarrow> f64" where
  "copysign x y = (if negative y then set_bit 63 x else unset_bit 63 x)"

definition exponent_field :: "f64 \<Rightarrow> nat" where
  "exponent_field b = unat (drop_bit 52 b AND 0x7ff)"

definition is_finite :: "f64 \<Rightarrow> bool" where
  "is_finite b \<longleftrightarrow> exponent_field b \<noteq> 0x7ff"

definition mantissa :: "f64 \<Rightarrow> nat" where
  "mantissa b = unat (b AND mask 52) OR (if exponent_field b = 0 then 0 else 2 ^ 52)"

definition binary_exponent :: "f64 \<Rightarrow> int" where
  "binary_exponent b = (if exponent_field b = 0 then - 1074 else int (exponent_field b) - 1023 - 52)"

section \<open>Rust's formatter\<close>

definition round_half_even :: "nat \<Rightarrow> nat \<Rightarrow> nat" where
  "round_half_even n d =
     (let q = n div d; r = n mod d
      in if 2 * r < d then q else if d < 2 * r then q + 1 else if even q then q else q + 1)"

definition padded :: "nat \<Rightarrow> nat \<Rightarrow> ustring" where
  "padded w n = replicate (w - length (decimal n)) CHR ''0'' @ decimal n"

definition fixed_text :: "nat \<Rightarrow> nat \<Rightarrow> ustring" where
  "fixed_text n d =
     (if d = 0 then decimal n else decimal (n div 10 ^ d) @ CHR ''.'' # padded d (n mod 10 ^ d))"

text \<open>The value, times \<open>10 ^ d\<close>, as a fraction: the numerator and the denominator.\<close>

definition scaled :: "f64 \<Rightarrow> nat \<Rightarrow> nat \<times> nat" where
  "scaled b d = (mantissa b * 2 ^ nat (binary_exponent b) * 10 ^ d, 2 ^ nat (- binary_exponent b))"

definition print_fixed :: "f64 \<Rightarrow> nat \<Rightarrow> ustring" where
  "print_fixed b d =
     (if negative b then ''-'' else []) @ fixed_text (round_half_even (fst (scaled b d)) (snd (scaled b d))) d"

section \<open>The function\<close>

text \<open>
  The \<open>u128\<close> arithmetic is on natural numbers: \<open>numerator_fits\<close> shows that nothing overflows.
\<close>

definition numerator :: "f64 \<Rightarrow> nat \<Rightarrow> nat" where
  "numerator b d = mantissa (magnitude b) * 5 ^ d"

definition shift :: "f64 \<Rightarrow> nat \<Rightarrow> int" where
  "shift b d = - (binary_exponent (magnitude b) + int d)"

definition tie :: "f64 \<Rightarrow> nat \<Rightarrow> bool" where
  "tie b d \<longleftrightarrow> 1 \<le> shift b d \<and> shift b d < 128
     \<and> numerator b d AND (2 ^ nat (shift b d) - 1) = 2 ^ nat (shift b d - 1)"

text \<open>\<open>value + 0.0\<close> is \<open>value\<close>, except that \<open>-0.0 + 0.0\<close> is \<open>0.0\<close>.\<close>

definition plus_zero :: "f64 \<Rightarrow> f64" where
  "plus_zero b = (if magnitude b = 0 then 0 else b)"

definition rounded :: "f64 \<Rightarrow> nat \<Rightarrow> f64" where
  "rounded b d = (if tie b d then copysign (magnitude b + 1) b else plus_zero b)"

definition fixed_decimal :: "f64 \<Rightarrow> nat \<Rightarrow> ustring option" where
  "fixed_decimal b d =
     (if \<not> is_finite b \<or> 9 < d then None else Some (print_fixed (rounded b d) d))"

section \<open>The intended text\<close>

definition round_half_up :: "nat \<Rightarrow> nat \<Rightarrow> nat" where
  "round_half_up n d = (2 * n + d) div (2 * d)"

definition ties_away_text :: "f64 \<Rightarrow> nat \<Rightarrow> ustring" where
  "ties_away_text b d =
     (if negative b \<and> magnitude b \<noteq> 0 then ''-'' else [])
     @ fixed_text (round_half_up (fst (scaled b d)) (snd (scaled b d))) d"

section \<open>Words as fields\<close>

lemma magnitude_fields:
  "unat (magnitude b) < 2 ^ 63"
  "unat (magnitude b) = exponent_field b * 2 ^ 52 + unat (b AND mask 52)"
  "exponent_field b < 2 ^ 11"
  "unat (b AND mask 52) < 2 ^ 52"
proof -
  have e: "exponent_field b = take_bit 11 (unat b div 2 ^ 52)"
  proof -
    have "(0x7ff :: f64) = mask 11" by (simp add: mask_eq_exp_minus_1)
    then have "exponent_field b = unat (take_bit 11 (drop_bit 52 b))"
      unfolding exponent_field_def by (simp only: take_bit_eq_mask)
    then show ?thesis
      by (simp only: unsigned_take_bit_eq unat_drop_bit_eq) (simp only: drop_bit_eq_div)
  qed
  show "exponent_field b < 2 ^ 11"
    unfolding e by (rule take_bit_nat_less_exp)
  show "unat (b AND mask 52) < 2 ^ 52"
    by (simp add: unsigned_take_bit_eq take_bit_nat_less_exp[of 52, simplified] flip: take_bit_eq_mask)
  show m: "unat (magnitude b) < 2 ^ 63"
    by (simp add: magnitude_def unsigned_take_bit_eq take_bit_nat_less_exp[of 63, simplified])
  have "unat (magnitude b) = take_bit 63 (unat b)" "unat (b AND mask 52) = take_bit 52 (unat b)"
    by (simp_all only: magnitude_def unsigned_take_bit_eq flip: take_bit_eq_mask)
  then show "unat (magnitude b) = exponent_field b * 2 ^ 52 + unat (b AND mask 52)"
    using mod_mult2_eq[of "unat b" "2 ^ 52" "2 ^ 11"] unfolding e by (simp add: take_bit_eq_mod)
qed

lemma mantissa_sum: "mantissa b = unat (b AND mask 52) + (if exponent_field b = 0 then 0 else 2 ^ 52)"
proof -
  have "\<not> bit (unat (b AND mask 52)) 52"
    using magnitude_fields(4)[of b] by (simp add: bit_iff_odd)
  then have "unat (b AND mask 52) AND 2 ^ 52 = 0"
    by (simp only: and_exp_eq_0_iff_not_bit simp_thms)
  then show ?thesis
    by (simp add: mantissa_def disjunctive_add_eq_or)
qed

text \<open>The fields of a magnitude are quotient and remainder, and the next float has the next mantissa.\<close>

lemma fields_of_magnitude:
  "exponent_field b = unat (magnitude b) div 2 ^ 52"
  "unat (b AND mask 52) = unat (magnitude b) mod 2 ^ 52"
  using magnitude_fields[of b] by simp_all

lemma magnitude_idem [simp]: "magnitude (magnitude b) = magnitude b"
  by (simp add: magnitude_def)

lemma magnitude_copysign [simp]: "magnitude (copysign x y) = magnitude x"
  by (rule bit_word_eqI) (auto simp: magnitude_def copysign_def bit_simps)

lemma negative_copysign [simp]: "negative (copysign x y) = negative y"
  by (simp add: negative_def copysign_def bit_simps)

lemma same_magnitude:
  assumes "magnitude b = magnitude c"
  shows "exponent_field b = exponent_field c" "mantissa b = mantissa c" "binary_exponent b = binary_exponent c"
    "scaled b d = scaled c d" "is_finite b = is_finite c"
  using assms by (simp_all add: scaled_def mantissa_sum binary_exponent_def is_finite_def fields_of_magnitude)

lemma numerator_eq: "numerator b d = mantissa b * 5 ^ d"
  by (simp add: numerator_def same_magnitude(2)[of "magnitude b" b])

lemma shift_eq: "shift b d = - (binary_exponent b + int d)"
  by (simp add: shift_def same_magnitude(3)[of "magnitude b" b])

lemma mantissa_less: "mantissa b < 2 ^ 53"
  using magnitude_fields(4)[of b] by (simp add: mantissa_sum)

lemma numerator_fits:
  assumes "d \<le> 9"
  shows "numerator b d < 2 ^ 74"
proof -
  have "(5::nat) ^ d \<le> 5 ^ 9"
    using assms by (intro power_increasing) auto
  then have "numerator b d \<le> 2 ^ 53 * 5 ^ 9"
    unfolding numerator_eq using mantissa_less[of b] by (intro mult_le_mono) auto
  then show ?thesis by simp
qed

section \<open>Rounding a fraction\<close>

lemma round_half_even_cancel: "0 < k \<Longrightarrow> round_half_even (n * k) (d * k) = round_half_even n d"
  by (simp add: round_half_even_def Let_def mult_mod_left)

lemma round_half_up_eq:
  assumes "0 < d"
  shows "round_half_up n d = (if 2 * (n mod d) < d then n div d else n div d + 1)"
proof -
  have "2 * n + d = (2 * (n mod d) + d) + n div d * (2 * d)"
    by (metis (no_types, lifting) add.commute add.left_commute distrib_left div_mult_mod_eq mult.left_commute)
  then have "round_half_up n d = (2 * (n mod d) + d) div (2 * d) + n div d"
    unfolding round_half_up_def using assms by (simp only: div_mult_self3 mult_eq_0_iff) simp
  moreover have "(2 * (n mod d) + d) div (2 * d) = (if 2 * (n mod d) < d then 0 else 1)"
    using assms mod_less_divisor[OF assms, of n] by (auto simp: div_eq_0_iff intro!: div_nat_eqI)
  ultimately show ?thesis by simp
qed

lemma round_half_up_cancel: "0 < k \<Longrightarrow> round_half_up (n * k) (d * k) = round_half_up n d"
  unfolding round_half_up_def
  by (metis add_mult_distrib div_mult_mult2 less_not_refl mult.assoc)

lemma half_even_is_half_up:
  "0 < d \<Longrightarrow> 2 * (n mod d) \<noteq> d \<Longrightarrow> round_half_even n d = round_half_up n d"
  by (auto simp: round_half_even_def round_half_up_eq Let_def)

lemma half_even_above_tie:
  assumes "2 * (n mod d) = d" "0 < d" "0 < u"
  shows "u < d \<Longrightarrow> round_half_even (n + u) d = round_half_up n d"
    and "d < u \<Longrightarrow> round_half_up n d < round_half_even (n + u) d"
proof -
  define q where "q = n div d"
  have n: "n + u = q * d + (n mod d + u)"
    by (simp add: q_def)
  have up: "round_half_up n d = q + 1"
    using assms by (simp add: round_half_up_eq q_def)
  show "round_half_even (n + u) d = round_half_up n d" if "u < d"
  proof (cases "n mod d + u < d")
    case True
    then have "(n + u) div d = q" "(n + u) mod d = n mod d + u"
      unfolding n using assms(2) by simp_all
    then show ?thesis using assms True by (simp add: round_half_even_def up)
  next
    case False
    then have "n + u = (q + 1) * d + (n mod d + u - d)" "n mod d + u - d < d"
      using n that assms by auto
    then have "(n + u) div d = q + 1" "(n + u) mod d = n mod d + u - d"
      by (simp_all only: div_mult_self3 mod_mult_self3) simp_all
    then show ?thesis using assms that False by (auto simp: round_half_even_def up Let_def)
  qed
  show "round_half_up n d < round_half_even (n + u) d" if "d < u"
  proof -
    have "(q + 1) * d + n mod d < n + u"
      using n that by simp
    then have ge: "q + 1 \<le> (n + u) div d"
      using assms(2) by (simp add: less_eq_div_iff_mult_less_eq)
    show ?thesis
    proof (cases "(n + u) div d = q + 1")
      case True
      then have "n + u = (q + 1) * d + (n + u) mod d"
        by (metis div_mult_mod_eq)
      then have "n mod d < (n + u) mod d"
        using \<open>(q + 1) * d + n mod d < n + u\<close> by linarith
      then show ?thesis using assms(1) True by (auto simp: round_half_even_def up Let_def)
    next
      case False
      then show ?thesis using ge by (auto simp: round_half_even_def up Let_def)
    qed
  qed
qed

section \<open>The shifted fraction\<close>

lemma scaled_shift:
  assumes "1 \<le> shift b d"
  shows "scaled b d = (numerator b d * 2 ^ d, 2 ^ nat (shift b d) * 2 ^ d)"
proof -
  have "nat (binary_exponent b) = 0" "nat (- binary_exponent b) = nat (shift b d) + d"
    using assms by (simp_all add: shift_eq)
  then show ?thesis
    by (simp add: scaled_def numerator_eq power_add flip: power_mult_distrib)
qed

lemma scaled_integral:
  assumes "shift b d \<le> 0"
  shows "snd (scaled b d) dvd fst (scaled b d)" "0 < snd (scaled b d)"
proof -
  have "nat (- binary_exponent b) \<le> d" using assms by (simp add: shift_eq)
  then have "(2::nat) ^ nat (- binary_exponent b) dvd 2 ^ d * 5 ^ d"
    by (intro dvd_mult2 le_imp_power_dvd)
  then show "snd (scaled b d) dvd fst (scaled b d)"
    by (simp add: scaled_def flip: power_mult_distrib)
  show "0 < snd (scaled b d)" by (simp add: scaled_def)
qed

lemma tie_iff:
  assumes "d \<le> 9"
  shows "tie b d \<longleftrightarrow> 1 \<le> shift b d \<and> 2 * (numerator b d mod 2 ^ nat (shift b d)) = 2 ^ nat (shift b d)"
proof (cases "1 \<le> shift b d")
  case True
  define s where "s = nat (shift b d - 1)"
  have s: "shift b d = int (Suc s)" using True by (simp add: s_def)
  have "s < 127" if "2 * (numerator b d mod 2 ^ Suc s) = 2 ^ Suc s"
  proof -
    have "2 ^ s \<le> numerator b d"
      using that mod_less_eq_dividend[of "numerator b d" "2 ^ Suc s"] by simp
    then have "(2::nat) ^ s < 2 ^ 74"
      using numerator_fits[OF assms, of b] by simp
    then have "s < 74" by (rule power_less_imp_less_exp [rotated]) simp
    then show ?thesis by simp
  qed
  moreover have "numerator b d AND (2 ^ Suc s - 1) = numerator b d mod 2 ^ Suc s"
    by (simp only: take_bit_eq_mod flip: mask_eq_exp_minus_1 take_bit_eq_mask)
  ultimately show ?thesis
    unfolding tie_def s nat_int by auto
qed (simp add: tie_def)

section \<open>The next float\<close>

lemma next_magnitude:
  assumes "is_finite b"
  shows "unat (magnitude b + 1) = unat (magnitude b) + 1" "magnitude (magnitude b + 1) = magnitude b + 1"
proof -
  have "exponent_field b < 0x7ff"
    using assms magnitude_fields(3)[of b] by (simp add: is_finite_def)
  then have "unat (magnitude b) + 1 < 2 ^ 63"
    using magnitude_fields(2,4)[of b] by simp
  then show 1: "unat (magnitude b + 1) = unat (magnitude b) + 1"
    by (simp add: unat_word_ariths)
  have "unat (magnitude (magnitude b + 1)) = unat (magnitude b + 1)"
    unfolding magnitude_def[of "magnitude b + 1"] unsigned_take_bit_eq 1
    by (rule take_bit_nat_eq_self) fact
  then show "magnitude (magnitude b + 1) = magnitude b + 1" by (simp only: word_unat_eq_iff)
qed

lemma next_fields:
  assumes "is_finite b" "exponent_field b \<noteq> 0"
  shows "(mantissa (magnitude b + 1), binary_exponent (magnitude b + 1))
    \<in> {(mantissa b + 1, binary_exponent b), (2 ^ 52, binary_exponent b + 1)}
    \<and> (binary_exponent (magnitude b + 1) \<noteq> binary_exponent b \<longrightarrow> mantissa b + 1 = 2 ^ 53)"
proof -
  define n where "n = unat (magnitude b)"
  note fields = fields_of_magnitude[of b] fields_of_magnitude[of "magnitude b + 1"]
  note next_n = next_magnitude[OF assms(1)]
  have "n mod 2 ^ 52 < 2 ^ 52" by simp
  then show ?thesis
    using assms(2) unfolding n_def[symmetric]
    by (cases "Suc (n mod 2 ^ 52) = 2 ^ 52")
       (simp_all add: mantissa_sum binary_exponent_def fields next_n div_Suc mod_Suc flip: n_def)
qed

lemma tie_next_fraction:
  assumes "is_finite b" "d \<le> 9" "tie b d"
  shows "round_half_even (fst (scaled (magnitude b + 1) d)) (snd (scaled (magnitude b + 1) d))
    = round_half_even (numerator b d + 5 ^ d) (2 ^ nat (shift b d))"
proof -
  have shift: "1 \<le> shift b d" "shift b d < 128" using assms(3) by (simp_all add: tie_def)
  then have normal: "exponent_field b \<noteq> 0"
    using assms(2) by (auto simp: shift_eq binary_exponent_def split: if_splits)
  have neg: "binary_exponent b \<le> - 1" using shift by (simp add: shift_eq)
  have den: "(2::nat) ^ nat (- binary_exponent b) = 2 ^ nat (shift b d) * 2 ^ d"
  proof -
    have "nat (- binary_exponent b) = nat (shift b d) + d" using shift(1) by (simp add: shift_eq)
    then show ?thesis by (simp add: power_add)
  qed
  have num: "(mantissa b + 1) * 10 ^ d = (numerator b d + 5 ^ d) * 2 ^ d"
    by (simp add: numerator_eq algebra_simps flip: power_mult_distrib)
  have target: "round_half_even ((mantissa b + 1) * 10 ^ d) (2 ^ nat (- binary_exponent b))
      = round_half_even (numerator b d + 5 ^ d) (2 ^ nat (shift b d))"
    unfolding num den by (rule round_half_even_cancel) simp
  from next_fields[OF assms(1) normal] show ?thesis
  proof (elim conjE insertE)
    assume "(mantissa (magnitude b + 1), binary_exponent (magnitude b + 1)) = (mantissa b + 1, binary_exponent b)"
    then show ?thesis
      unfolding target[symmetric] using neg by (simp add: scaled_def)
  next
    assume eq: "(mantissa (magnitude b + 1), binary_exponent (magnitude b + 1)) = (2 ^ 52, binary_exponent b + 1)"
      and "binary_exponent (magnitude b + 1) \<noteq> binary_exponent b \<longrightarrow> mantissa b + 1 = 2 ^ 53"
    then have "(mantissa b + 1) * 10 ^ d = 2 ^ 52 * 10 ^ d * 2"
      by simp
    moreover have "(2::nat) ^ nat (- binary_exponent b) = 2 ^ nat (- (binary_exponent b + 1)) * 2"
    proof -
      have "nat (- binary_exponent b) = Suc (nat (- (binary_exponent b + 1)))" using neg by simp
      then show ?thesis by simp
    qed
    ultimately have "round_half_even ((mantissa b + 1) * 10 ^ d) (2 ^ nat (- binary_exponent b))
        = round_half_even (2 ^ 52 * 10 ^ d) (2 ^ nat (- (binary_exponent b + 1)))"
      by (simp only: round_half_even_cancel zero_less_numeral)
    then show ?thesis
      unfolding target[symmetric] using neg eq by (simp add: scaled_def)
  qed simp
qed

section \<open>The text determines the number\<close>

lemma decimal_value_append_zeros: "decimal_value (replicate k CHR ''0'' @ s) = decimal_value s"
proof -
  have "fold (\<lambda>c n. n * 10 + digit_value c) (replicate k CHR ''0'') 0 = 0"
    by (induction k) (simp_all add: digit_value_def)
  then show ?thesis by (simp add: decimal_value_def)
qed

lemma decimal_value_padded [simp]: "decimal_value (padded w n) = n"
  by (simp add: padded_def decimal_value_append_zeros)

lemma no_dot: "CHR ''.'' \<notin> set (decimal n)"
  using decimal_digits[of n] by (auto simp: list_all_iff is_digit_def)

lemma fixed_text_inj: "fixed_text m d = fixed_text n d \<longleftrightarrow> m = n"
proof (cases "d = 0")
  case True
  then show ?thesis by (simp add: fixed_text_def decimal_inj)
next
  case False
  have "m = n" if eq: "fixed_text m d = fixed_text n d"
  proof -
    have "takeWhile (\<lambda>c. c \<noteq> CHR ''.'') (decimal k @ CHR ''.'' # s) = decimal k"
      "dropWhile (\<lambda>c. c \<noteq> CHR ''.'') (decimal k @ CHR ''.'' # s) = CHR ''.'' # s" for k s
      using no_dot[of k] by (simp_all add: takeWhile_append dropWhile_append)
    then have "decimal (m div 10 ^ d) = decimal (n div 10 ^ d)" "padded d (m mod 10 ^ d) = padded d (n mod 10 ^ d)"
      using eq False unfolding fixed_text_def by (metis (no_types, lifting) list.inject)+
    then have "m div 10 ^ d = n div 10 ^ d" "m mod 10 ^ d = n mod 10 ^ d"
      by (metis decimal_inj, metis decimal_value_padded)
    then show ?thesis by (metis div_mult_mod_eq)
  qed
  then show ?thesis by blast
qed

section \<open>When the text is the intended one\<close>

text \<open>A tie whose next float is more than one unit of the last decimal away.\<close>

definition overshoots :: "f64 \<Rightarrow> nat \<Rightarrow> bool" where
  "overshoots b d \<longleftrightarrow> tie b d \<and> 2 ^ nat (shift b d) < (5::nat) ^ d"

lemma fixed_decimal_no_tie:
  assumes "is_finite b" "d \<le> 9" "\<not> tie b d"
  shows "fixed_decimal b d = Some (ties_away_text b d)"
proof -
  have "round_half_even (fst (scaled b d)) (snd (scaled b d)) = round_half_up (fst (scaled b d)) (snd (scaled b d))"
  proof (cases "1 \<le> shift b d")
    case True
    then have "2 * (numerator b d mod 2 ^ nat (shift b d)) \<noteq> 2 ^ nat (shift b d)"
      using assms tie_iff by simp
    then show ?thesis
      by (simp add: scaled_shift[OF True] round_half_even_cancel round_half_up_cancel half_even_is_half_up)
  next
    case False
    then have "fst (scaled b d) mod snd (scaled b d) = 0" "0 < snd (scaled b d)"
      using scaled_integral[of b d] by auto
    then show ?thesis by (simp add: half_even_is_half_up)
  qed
  moreover have "scaled 0 d = scaled b d" if "magnitude b = 0"
    by (rule same_magnitude(4)) (use that in \<open>simp add: magnitude_def\<close>)
  ultimately show ?thesis
    using assms
    by (auto simp: fixed_decimal_def rounded_def print_fixed_def ties_away_text_def plus_zero_def negative_def)
qed

lemma fixed_decimal_tie:
  assumes "is_finite b" "d \<le> 9" "tie b d"
  shows "fixed_decimal b d = Some (ties_away_text b d) \<longleftrightarrow> \<not> overshoots b d"
proof -
  define D where "D = (2::nat) ^ nat (shift b d)"
  have shift: "1 \<le> shift b d" and half: "2 * (numerator b d mod D) = D"
    using assms tie_iff by (auto simp: D_def)
  have "magnitude b \<noteq> 0"
    using half by (auto simp: numerator_eq mantissa_sum fields_of_magnitude D_def)
  then have sign: "ties_away_text b d = (if negative b then ''-'' else []) @ fixed_text (round_half_up (numerator b d) D) d"
    by (simp add: ties_away_text_def scaled_shift[OF shift] round_half_up_cancel D_def)
  have "scaled (copysign (magnitude b + 1) b) d = scaled (magnitude b + 1) d"
    by (rule same_magnitude(4)) simp
  then have code: "fixed_decimal b d = Some ((if negative b then ''-'' else [])
      @ fixed_text (round_half_even (numerator b d + 5 ^ d) D) d)"
    using assms tie_next_fraction[OF assms]
    by (simp add: fixed_decimal_def rounded_def print_fixed_def D_def)
  have "(5::nat) ^ d \<noteq> D"
  proof
    assume eq: "(5::nat) ^ d = D"
    obtain k where "nat (shift b d) = Suc k" using shift by (cases "nat (shift b d)") auto
    then have "even ((5::nat) ^ d)" unfolding eq D_def by simp
    then show False by simp
  qed
  then show ?thesis
    using half_even_above_tie[OF half, of "5 ^ d"] assms(3)
    by (auto simp: code sign fixed_text_inj overshoots_def D_def)
qed

text \<open>
  C25. Rounding for presentation, exactly. The function answers for the finite floats and up to nine
  decimals. There its text is the exact binary value rounded to nearest with ties away from zero
  unless it steps over the mark: the value is a tie and one unit in its last binary place, by which
  the code advances it, exceeds one unit of the last decimal. Below \<open>2 ^ 23\<close> that never happens.
\<close>

theorem fixed_decimal_exact:
  assumes "is_finite b" "d \<le> 9"
  shows "(fixed_decimal b d = Some (ties_away_text b d) \<longleftrightarrow> \<not> overshoots b d)
    \<and> (exponent_field b < 1023 + 23 \<longrightarrow> \<not> overshoots b d)"
proof
  show "fixed_decimal b d = Some (ties_away_text b d) \<longleftrightarrow> \<not> overshoots b d"
    using assms fixed_decimal_tie fixed_decimal_no_tie by (cases "tie b d") (auto simp: overshoots_def)
  show "exponent_field b < 1023 + 23 \<longrightarrow> \<not> overshoots b d"
  proof (intro impI notI)
    assume small: "exponent_field b < 1023 + 23" and over: "overshoots b d"
    have "(5::nat) ^ d \<le> 5 ^ 9" using assms(2) by (intro power_increasing) auto
    then have "(2::nat) ^ nat (shift b d) < 2 ^ 21"
      using over by (simp add: overshoots_def)
    then have "nat (shift b d) < 21" by (rule power_less_imp_less_exp [rotated]) simp
    then show False
      using small assms(2) by (simp add: shift_eq binary_exponent_def split: if_splits)
  qed
qed

lemma fixed_decimal_rejects: "\<not> is_finite b \<or> 9 < d \<Longrightarrow> fixed_decimal b d = None"
  by (simp add: fixed_decimal_def)

text \<open>\<open>2 ^ 50 + 0.25\<close>, whose last binary place is \<open>0.25\<close>, to one decimal.\<close>

abbreviation large_tie :: f64 where
  "large_tie \<equiv> 0x4310000000000001"

lemma large_tie_fields:
  "exponent_field large_tie = 0x431" "mantissa large_tie = 2 ^ 52 + 1" "binary_exponent large_tie = - 2"
  "is_finite large_tie" "\<not> negative large_tie" "magnitude large_tie = large_tie"
proof -
  show e: "exponent_field large_tie = 0x431" by (simp add: exponent_field_def)
  show "mantissa large_tie = 2 ^ 52 + 1" by (simp add: mantissa_sum e mask_eq_exp_minus_1)
  show "binary_exponent large_tie = - 2" "is_finite large_tie" by (simp_all add: binary_exponent_def is_finite_def e)
  show "\<not> negative large_tie" by (simp add: negative_def)
  show "magnitude large_tie = large_tie" by (simp add: magnitude_def)
qed

lemma large_tie_overshoots: "overshoots large_tie 1"
proof -
  have "shift large_tie 1 = 1" "numerator large_tie 1 = (2 ^ 52 + 1) * 5"
    by (simp_all add: shift_eq numerator_eq large_tie_fields)
  then show ?thesis
    by (simp add: overshoots_def tie_iff)
qed

text \<open>The function prints \<open>.5\<close>; the nearest text is \<open>.3\<close> with ties away from zero, \<open>.2\<close> with ties to even.\<close>

lemma large_tie_text:
  "fixed_decimal large_tie 1 = Some ''1125899906842624.5''"
  "ties_away_text large_tie 1 = ''1125899906842624.3''"
proof -
  show "ties_away_text large_tie 1 = ''1125899906842624.3''"
    by (simp add: ties_away_text_def scaled_def large_tie_fields round_half_up_def fixed_text_def padded_def
        decimal.simps digit_chars digit_chars[unfolded One_nat_def])
  have "tie large_tie 1" using large_tie_overshoots by (simp add: overshoots_def)
  then have "fixed_decimal large_tie 1 = Some (fixed_text (round_half_even (numerator large_tie 1 + 5 ^ 1)
      (2 ^ nat (shift large_tie 1))) 1)"
    using tie_next_fraction[of large_tie 1] same_magnitude(4)[of "copysign (large_tie + 1) large_tie" "large_tie + 1" 1]
    by (simp add: fixed_decimal_def rounded_def print_fixed_def large_tie_fields)
  then show "fixed_decimal large_tie 1 = Some ''1125899906842624.5''"
    by (simp add: shift_eq numerator_eq large_tie_fields round_half_even_def fixed_text_def padded_def
        decimal.simps digit_chars digit_chars[unfolded One_nat_def])
qed

lemma fixed_decimal_exact_witness:
  "fixed_decimal large_tie 1 \<noteq> Some (ties_away_text large_tie 1)"
  using fixed_decimal_exact[OF large_tie_fields(4), of 1] large_tie_overshoots by simp

end
