(* ===== verification/Paths.thy ===== *)
theory Paths
  imports Prelude
begin

text \<open>
  Paths as \<open>std::path\<close> sees them, by their components, and the XDG path resolution of
  \<open>shelllist-daemon-core/src/state.rs\<close>. Two paths are equal when their components are, so a path is
  its component list; \<open>components\<close> reads one off its text.
\<close>

section \<open>Components\<close>

datatype component = RootDir | CurDir | ParentDir | Normal ustring

type_synonym path = "component list"

fun split_on :: "char \<Rightarrow> ustring \<Rightarrow> ustring list" where
  "split_on c [] = [[]]"
| "split_on c (x # xs) =
     (if x = c then [] # split_on c xs
      else (case split_on c xs of p # ps \<Rightarrow> (x # p) # ps | [] \<Rightarrow> [[x]]))"

fun component_of :: "ustring \<Rightarrow> component list" where
  "component_of p = (if p = [] \<or> p = ''.'' then [] else if p = ''..'' then [ParentDir] else [Normal p])"

text \<open>Empty parts and \<open>.\<close> are dropped, except a \<open>.\<close> that a relative path starts with.\<close>

definition components :: "ustring \<Rightarrow> path" where
  "components s =
     (let parts = split_on CHR ''/'' s; body = concat (map component_of parts)
      in if take 1 s = ''/'' then RootDir # body
         else if hd parts = ''.'' then CurDir # body
         else body)"

definition is_absolute :: "path \<Rightarrow> bool" where
  "is_absolute p \<longleftrightarrow> p \<noteq> [] \<and> hd p = RootDir"

definition join :: "path \<Rightarrow> path \<Rightarrow> path" where
  "join p q = (if is_absolute q then q else if p \<noteq> [] \<and> q \<noteq> [] \<and> hd q = CurDir then p @ tl q else p @ q)"

definition parent :: "path \<Rightarrow> path option" where
  "parent p = (if p = [] \<or> last p = RootDir then None else Some (butlast p))"

definition file_name :: "path \<Rightarrow> ustring option" where
  "file_name p = (if p = [] then None else case last p of Normal n \<Rightarrow> Some n | _ \<Rightarrow> None)"

fun is_normal :: "component \<Rightarrow> bool" where
  "is_normal (Normal _) = True"
| "is_normal _ = False"

section \<open>Order on paths\<close>

text \<open>\<open>Path\<close> orders component by component, in the order of \<open>std::path::Component\<close>.\<close>

fun component_rank :: "component \<Rightarrow> nat" where
  "component_rank RootDir = 0"
| "component_rank CurDir = 1"
| "component_rank ParentDir = 2"
| "component_rank (Normal _) = 3"

fun component_text :: "component \<Rightarrow> ustring" where
  "component_text (Normal n) = n"
| "component_text _ = []"

lemma component_key: "component_rank a = component_rank b \<Longrightarrow> component_text a = component_text b \<Longrightarrow> a = b"
  by (cases a; cases b) simp_all

instantiation component :: linorder
begin

definition less_eq_component :: "component \<Rightarrow> component \<Rightarrow> bool" where
  "a \<le> b \<longleftrightarrow> component_rank a < component_rank b
     \<or> component_rank a = component_rank b \<and> component_text a \<le> component_text b"

definition less_component :: "component \<Rightarrow> component \<Rightarrow> bool" where
  "a < b \<longleftrightarrow> a \<le> b \<and> \<not> b \<le> (a :: component)"

instance
  by standard (auto simp: less_eq_component_def less_component_def intro: component_key)

end

section \<open>XDG directories\<close>

datatype xdg_root = XdgConfig | XdgState | XdgCache | XdgRuntime

type_synonym environ = "ustring \<Rightarrow> ustring option"

definition absolute_env :: "environ \<Rightarrow> ustring \<Rightarrow> path option" where
  "absolute_env env name =
     (case env name of
        None \<Rightarrow> None
      | Some v \<Rightarrow> if is_absolute (components v) then Some (components v) else None)"

definition xdg_home :: "environ \<Rightarrow> ustring \<Rightarrow> ustring \<Rightarrow> path option" where
  "xdg_home env variable fallback =
     (case absolute_env env variable of
        Some p \<Rightarrow> Some p
      | None \<Rightarrow> map_option (\<lambda>home. join home (components fallback)) (absolute_env env ''HOME''))"

fun resolve_xdg_root :: "environ \<Rightarrow> xdg_root \<Rightarrow> path option" where
  "resolve_xdg_root env XdgConfig = xdg_home env ''XDG_CONFIG_HOME'' ''.config''"
| "resolve_xdg_root env XdgState = xdg_home env ''XDG_STATE_HOME'' ''.local/state''"
| "resolve_xdg_root env XdgCache = xdg_home env ''XDG_CACHE_HOME'' ''.cache''"
| "resolve_xdg_root env XdgRuntime = absolute_env env ''XDG_RUNTIME_DIR''"

definition is_single_normal_component :: "path \<Rightarrow> bool" where
  "is_single_normal_component p \<longleftrightarrow> (case p of [Normal _] \<Rightarrow> True | _ \<Rightarrow> False)"

definition is_safe_relative_path :: "ustring \<Rightarrow> bool" where
  "is_safe_relative_path s \<longleftrightarrow> s \<noteq> [] \<and> list_all is_normal (components s)"

definition resolve_xdg_path :: "environ \<Rightarrow> xdg_root \<Rightarrow> ustring \<Rightarrow> ustring \<Rightarrow> path option" where
  "resolve_xdg_path env root application p =
     (if \<not> is_single_normal_component (components application) \<or> \<not> is_safe_relative_path p then None
      else map_option (\<lambda>base. join (join base (components application)) (components p)) (resolve_xdg_root env root))"

section \<open>Facts\<close>

lemma split_on_not_Nil [simp]: "split_on c s \<noteq> []"
  by (induction s) (auto split: list.splits)

lemma split_on_no_sep: "x \<in> set (split_on c s) \<Longrightarrow> c \<notin> set x"
proof (induction s arbitrary: x)
  case (Cons a s)
  then show ?case
    by (cases "split_on c s") (auto split: if_splits)
qed simp

lemma components_nonempty:
  assumes "s \<noteq> []"
  shows "components s \<noteq> []"
proof -
  have *: "s = [] \<or> take 1 s = [c] \<or> hd (split_on c s) \<noteq> []" for c s
    by (cases s) (auto split: list.splits)
  show ?thesis
  proof (cases "take 1 s = ''/''")
    case False
    then have "hd (split_on CHR ''/'' s) \<noteq> []"
      using *[of s "CHR ''/''"] assms by blast
    then show ?thesis
      using False by (cases "split_on CHR ''/'' s") (auto simp: components_def Let_def)
  qed (simp add: components_def Let_def)
qed

lemma normal_components:
  "Normal n \<in> set (components s) \<Longrightarrow> n \<noteq> [] \<and> n \<noteq> ''.'' \<and> n \<noteq> ''..'' \<and> CHR ''/'' \<notin> set n"
  by (auto simp: components_def Let_def split: if_splits dest: split_on_no_sep)

lemma normal_list: "list_all is_normal p \<longleftrightarrow> (\<exists>ns. p = map Normal ns)"
proof
  show "list_all is_normal p \<Longrightarrow> \<exists>ns. p = map Normal ns"
  proof (induction p)
    case (Cons c p)
    then obtain n ns where "c = Normal n" "p = map Normal ns"
      by (cases c) auto
    then show ?case by (metis list.simps(9))
  qed simp
qed (auto simp: list_all_iff)

lemma join_normal: "join p (map Normal ns) = p @ map Normal ns"
  by (cases ns) (simp_all add: join_def is_absolute_def)

lemma single_normal: "is_single_normal_component p \<longleftrightarrow> (\<exists>n. p = [Normal n])"
  by (auto simp: is_single_normal_component_def split: list.splits component.splits)

lemma resolved_root_absolute: "resolve_xdg_root env root = Some base \<Longrightarrow> is_absolute base"
proof -
  have env: "absolute_env env v = Some p \<Longrightarrow> is_absolute p" for v p
    by (auto simp: absolute_env_def split: option.splits if_splits)
  have home: "xdg_home env v f = Some p \<Longrightarrow> is_absolute p" for v f p
    using env by (auto simp: xdg_home_def join_def is_absolute_def hd_append split: option.splits if_splits)
  show "resolve_xdg_root env root = Some base \<Longrightarrow> is_absolute base"
    using env home by (cases root) auto
qed

text \<open>
  C26. Resolution cannot escape. A path is resolved exactly when the root is known, the application
  is one ordinary name and the path is a non-empty list of ordinary names; the result is the absolute
  root, the application, and those names in order, none of which is empty, \<open>.\<close>, \<open>..\<close> or contains a
  separator. So it lies strictly below the application's own directory.
\<close>

theorem xdg_path_confined:
  "resolve_xdg_path env root application p = Some q \<longleftrightarrow>
     (\<exists>base n ns. resolve_xdg_root env root = Some base \<and> is_absolute base
        \<and> components application = [Normal n] \<and> components p = map Normal ns \<and> ns \<noteq> []
        \<and> q = base @ Normal n # map Normal ns
        \<and> list_all (\<lambda>s. s \<notin> {[], ''.'', ''..''} \<and> CHR ''/'' \<notin> set s) (n # ns))"
proof -
  have names: "list_all (\<lambda>s. s \<notin> {[], ''.'', ''..''} \<and> CHR ''/'' \<notin> set s) ns"
    if "components t = map Normal ns" for t ns
    using that normal_components[of _ t] by (auto simp: list_all_iff)
  have app: "list_all (\<lambda>s. s \<notin> {[], ''.'', ''..''} \<and> CHR ''/'' \<notin> set s) [n]"
    if "components application = [Normal n]" for n
    using names[of application "[n]"] that by simp
  have join_app: "join (join base [Normal n]) (map Normal ns) = base @ Normal n # map Normal ns" for base n ns
    using join_normal[of base "[n]"] join_normal[of "base @ [Normal n]" ns] by simp
  have empty: "components [] = []"
    by (simp add: components_def)
  show ?thesis
  proof
    assume r: "resolve_xdg_path env root application p = Some q"
    then obtain base n ns where parts: "resolve_xdg_root env root = Some base"
        "components application = [Normal n]" "p \<noteq> []" "components p = map Normal ns"
        "q = base @ Normal n # map Normal ns"
      by (auto simp: resolve_xdg_path_def single_normal is_safe_relative_path_def normal_list join_app
          split: if_splits)
    moreover have "ns \<noteq> []"
      using components_nonempty[OF parts(3)] parts(4) by auto
    ultimately show "\<exists>base n ns. resolve_xdg_root env root = Some base \<and> is_absolute base
        \<and> components application = [Normal n] \<and> components p = map Normal ns \<and> ns \<noteq> []
        \<and> q = base @ Normal n # map Normal ns
        \<and> list_all (\<lambda>s. s \<notin> {[], ''.'', ''..''} \<and> CHR ''/'' \<notin> set s) (n # ns)"
      using names[OF parts(4)] app[OF parts(2)] resolved_root_absolute[OF parts(1)]
      by (intro exI[of _ base] exI[of _ n] exI[of _ ns]) simp
  next
    assume "\<exists>base n ns. resolve_xdg_root env root = Some base \<and> is_absolute base
        \<and> components application = [Normal n] \<and> components p = map Normal ns \<and> ns \<noteq> []
        \<and> q = base @ Normal n # map Normal ns
        \<and> list_all (\<lambda>s. s \<notin> {[], ''.'', ''..''} \<and> CHR ''/'' \<notin> set s) (n # ns)"
    then show "resolve_xdg_path env root application p = Some q"
      using empty
      by (auto simp: resolve_xdg_path_def single_normal is_safe_relative_path_def normal_list join_app)
  qed
qed

end
