(* ===== verification/Atomic_File.thy ===== *)
theory Atomic_File
  imports Paths Text_Format "HOL-Library.Word" "HOL-Library.Sublist"
begin

text \<open>
  \<open>shelllist-daemon-core/src/file.rs\<close>, the atomic replacement of one file and the bounded read, and
  \<open>write_json_atomic\<close> and \<open>read_json\<close> of \<open>state.rs\<close> on top of them.

  The file system is a map from paths to nodes, changed by system calls; \<open>performed\<close> is the list of
  those that succeeded, so a crash leaves the tree of one of its prefixes. Any call, the queries
  included, may fail: \<open>fault n\<close> is the error of the \<open>n\<close>-th attempt, if it has one. Different paths name
  different files, and no other process changes them while the code runs. Modes are recorded in the
  calls and not interpreted.
\<close>

section \<open>The file system\<close>

datatype io_kind = NotFound | AlreadyExists | InvalidInput | InvalidData | IsADirectory | NotADirectory
  | OtherIo ustring | OutOfFuel

text \<open>
  A symbolic link holds what it resolves to, if it does not dangle. \<open>OutOfFuel\<close> is no error of the
  code: see \<open>create_temporary\<close>.
\<close>

datatype node = FileNode ustring | DirNode | SymlinkNode "node option" | OtherNode

fun followed :: "node \<Rightarrow> node option" where
  "followed (SymlinkNode None) = None"
| "followed (SymlinkNode (Some n)) = followed n"
| "followed n = Some n"

datatype syscall = MkdirAll path "nat option" | SetMode path nat | CreateNew path "nat option" | Append path ustring
  | SyncFile path | Rename path path | SyncDir path | RemoveFile path

type_synonym tree = "path \<Rightarrow> node option"

fun effect :: "syscall \<Rightarrow> tree \<Rightarrow> tree" where
  "effect (MkdirAll p m) t = (\<lambda>q. if q \<noteq> [] \<and> prefix q p \<and> t q = None then Some DirNode else t q)"
| "effect (CreateNew p m) t = t(p := Some (FileNode []))"
| "effect (Append p s) t = (case t p of Some (FileNode old) \<Rightarrow> t(p := Some (FileNode (old @ s))) | _ \<Rightarrow> t)"
| "effect (Rename p q) t = t(p := None, q := t p)"
| "effect (RemoveFile p) t = t(p := None)"
| "effect _ t = t"

definition is_dir :: "node \<Rightarrow> bool" where
  "is_dir n \<longleftrightarrow> followed n = Some DirNode"

fun denied :: "syscall \<Rightarrow> tree \<Rightarrow> io_kind option" where
  "denied (MkdirAll p m) t =
     (if list_all (\<lambda>q. case t q of None \<Rightarrow> True | Some n \<Rightarrow> is_dir n) (tl (prefixes p)) then None else Some NotADirectory)"
| "denied (CreateNew p m) t = (if t p = None then None else Some AlreadyExists)"
| "denied (Rename p q) t = (if t p = None then Some NotFound else if t q = Some DirNode then Some IsADirectory else None)"
| "denied (Append p s) t = None"
| "denied (SetMode p m) t = (if t p = None then Some NotFound else None)"
| "denied (SyncFile p) t = None"
| "denied (SyncDir p) t = (if t p = None then Some NotFound else None)"
| "denied (RemoveFile p) t = (if t p = None then Some NotFound else None)"

record os =
  tree :: tree
  performed :: "syscall list"
  attempts :: nat
  fault :: "nat \<Rightarrow> io_kind option"
  temp_sequence :: "64 word"

type_synonym 'a io = "os \<times> (io_kind + 'a)"

definition attempt :: "os \<Rightarrow> os \<times> io_kind option" where
  "attempt s = (s\<lparr>attempts := attempts s + 1\<rparr>, fault s (attempts s))"

definition perform :: "syscall \<Rightarrow> os \<Rightarrow> unit io" where
  "perform c s =
     (case attempt s of
        (s', Some e) \<Rightarrow> (s', err e)
      | (s', None) \<Rightarrow>
          (case denied c (tree s') of
             Some e \<Rightarrow> (s', err e)
           | None \<Rightarrow> (s'\<lparr>tree := effect c (tree s'), performed := performed s' @ [c]\<rparr>, ok ())))"

text \<open>The operator \<open>?\<close>, and its conversion of an I/O error by \<open>From\<close>.\<close>

fun then_io :: "os \<times> ('e + 'a) \<Rightarrow> ('a \<Rightarrow> os \<Rightarrow> os \<times> ('e + 'b)) \<Rightarrow> os \<times> ('e + 'b)" where
  "then_io (s, Inl e) f = (s, Inl e)"
| "then_io (s, Inr a) f = f a s"

fun lift_io :: "(io_kind \<Rightarrow> 'e) \<Rightarrow> 'a io \<Rightarrow> os \<times> ('e + 'a)" where
  "lift_io conv (s, Inl e) = (s, Inl (conv e))"
| "lift_io conv (s, Inr a) = (s, Inr a)"

section \<open>Policies and parents\<close>

record file_policy =
  directory_mode :: "nat option"
  file_mode :: "nat option"
  pol_sync_parent :: bool
  sync_new_ancestors :: bool
  reject_symlink_destination :: bool

definition private_policy :: file_policy where
  "private_policy = \<lparr>directory_mode = Some 0x1C0, file_mode = Some 0x180, pol_sync_parent = True,
     sync_new_ancestors = True, reject_symlink_destination = True\<rparr>"

definition durable_policy :: file_policy where
  "durable_policy = private_policy\<lparr>directory_mode := None, file_mode := None\<rparr>"

definition parent_directory :: "path \<Rightarrow> io_kind + path" where
  "parent_directory p =
     (case parent p of None \<Rightarrow> err InvalidInput | Some q \<Rightarrow> ok (if q = [] then [CurDir] else q))"

text \<open>\<open>Path::exists\<close>: \<open>false\<close> also when the query fails.\<close>

definition exists_path :: "path \<Rightarrow> os \<Rightarrow> os \<times> bool" where
  "exists_path p s =
     (case attempt s of
        (s', Some _) \<Rightarrow> (s', False)
      | (s', None) \<Rightarrow> (s', Option.bind (tree s' p) followed \<noteq> None))"

definition reject_symlink :: "path \<Rightarrow> os \<Rightarrow> unit io" where
  "reject_symlink p s =
     (case attempt s of
        (s', Some NotFound) \<Rightarrow> (s', ok ())
      | (s', Some e) \<Rightarrow> (s', err e)
      | (s', None) \<Rightarrow>
          (case tree s' p of Some (SymlinkNode _) \<Rightarrow> (s', err InvalidInput) | _ \<Rightarrow> (s', ok ())))"

definition sync_directory :: "path \<Rightarrow> os \<Rightarrow> unit io" where
  "sync_directory p = perform (SyncDir p)"

definition sync_parent :: "path \<Rightarrow> os \<Rightarrow> unit io" where
  "sync_parent p s = (case parent_directory p of Inl e \<Rightarrow> (s, err e) | Inr q \<Rightarrow> sync_directory q s)"

section \<open>The directory\<close>

text \<open>\<open>ancestors()\<close>: the path, its parent, and so on.\<close>

function ancestors :: "path \<Rightarrow> path list" where
  "ancestors p = p # (case parent p of None \<Rightarrow> [] | Some q \<Rightarrow> ancestors q)"
  by pat_completeness auto
termination
  by (relation "measure length") (auto simp: parent_def split: if_splits)

declare ancestors.simps [simp del]

fun missing_ancestors :: "bool \<Rightarrow> path list \<Rightarrow> os \<Rightarrow> os \<times> path list" where
  "missing_ancestors wanted [] s = (s, [])"
| "missing_ancestors wanted (p # ps) s =
     (if wanted \<and> p \<noteq> []
      then (case exists_path p s of
          (s', True) \<Rightarrow> (s', [])
        | (s', False) \<Rightarrow> (case missing_ancestors wanted ps s' of (s'', qs) \<Rightarrow> (s'', p # qs)))
      else (s, []))"

fun sync_created :: "path list \<Rightarrow> os \<Rightarrow> unit io" where
  "sync_created [] s = (s, ok ())"
| "sync_created (p # ps) s =
     then_io (sync_directory p s) (\<lambda>_ s. then_io (sync_parent p s) (\<lambda>_. sync_created ps))"

definition create_directory :: "path \<Rightarrow> file_policy \<Rightarrow> os \<Rightarrow> unit io" where
  "create_directory p pol s =
     (case missing_ancestors (sync_new_ancestors pol) (ancestors p) s of
        (s, missing) \<Rightarrow>
          then_io (case directory_mode pol of None \<Rightarrow> (s, ok ()) | Some _ \<Rightarrow> reject_symlink p s) (\<lambda>_ s.
          then_io (perform (MkdirAll p (directory_mode pol)) s) (\<lambda>_ s.
          then_io (case directory_mode pol of None \<Rightarrow> (s, ok ()) | Some m \<Rightarrow> perform (SetMode p m) s) (\<lambda>_.
          sync_created (rev missing)))))"

section \<open>Staging and committing\<close>

definition temporary_name :: "nat \<Rightarrow> ustring \<Rightarrow> 64 word \<Rightarrow> ustring" where
  "temporary_name pid name n = name @ ''.'' @ decimal pid @ ''-'' @ decimal (unat n) @ ''.tmp''"

text \<open>
  The loop retries while the name is taken; it is given fuel, and \<open>create_temporary_returns\<close> shows how
  much is enough. \<open>fetch_add\<close> wraps.
\<close>

fun create_temporary :: "nat \<Rightarrow> nat \<Rightarrow> path \<Rightarrow> ustring \<Rightarrow> nat option \<Rightarrow> os \<Rightarrow> path io" where
  "create_temporary 0 pid dir name m s = (s, err OutOfFuel)"
| "create_temporary (Suc fuel) pid dir name m s =
     (let temporary = join dir [Normal (temporary_name pid name (temp_sequence s))];
          s = s\<lparr>temp_sequence := temp_sequence s + 1\<rparr>
      in case perform (CreateNew temporary m) s of
           (s', Inr _) \<Rightarrow> (s', ok temporary)
         | (s', Inl AlreadyExists) \<Rightarrow> create_temporary fuel pid dir name m s'
         | (s', Inl e) \<Rightarrow> (s', err e))"

text \<open>
  The writer callback: the bytes it gives to the \<open>BufWriter\<close>, and its own result. They reach the file
  when the buffer is flushed, or, when the callback fails, when it is dropped, ignoring errors. The
  pieces in which the buffer passes them on are not distinguished.
\<close>

type_synonym 'e writer = "ustring \<times> ('e + unit)"

definition write_buffered :: "(io_kind \<Rightarrow> 'e) \<Rightarrow> path \<Rightarrow> 'e writer \<Rightarrow> os \<Rightarrow> os \<times> ('e + unit)" where
  "write_buffered conv file w s =
     (case snd w of
        Inl e \<Rightarrow> (fst (perform (Append file (fst w)) s), err e)
      | Inr _ \<Rightarrow> lift_io conv (perform (Append file (fst w)) s))"

record staged_file =
  destination :: path
  temporary :: "path option"
  staged_policy :: file_policy

definition drop_staged :: "staged_file \<Rightarrow> os \<Rightarrow> os" where
  "drop_staged f s = (case temporary f of Some p \<Rightarrow> fst (perform (RemoveFile p) s) | None \<Rightarrow> s)"

definition prepare_temporary :: "nat \<Rightarrow> nat \<Rightarrow> path \<Rightarrow> file_policy \<Rightarrow> os \<Rightarrow> path io" where
  "prepare_temporary fuel pid p pol s =
     (case parent_directory p of
        Inl e \<Rightarrow> (s, err e)
      | Inr dir \<Rightarrow>
          (case file_name p of
             None \<Rightarrow> (s, err InvalidInput)
           | Some name \<Rightarrow>
               then_io (create_directory dir pol s) (\<lambda>_ s.
               then_io (if reject_symlink_destination pol then reject_symlink p s else (s, ok ())) (\<lambda>_.
               create_temporary fuel pid dir name (file_mode pol)))))"

definition fill_temporary :: "(io_kind \<Rightarrow> 'e) \<Rightarrow> path \<Rightarrow> file_policy \<Rightarrow> 'e writer \<Rightarrow> os \<Rightarrow> os \<times> ('e + unit)" where
  "fill_temporary conv tmp pol w s =
     then_io (write_buffered conv tmp w s) (\<lambda>_ s.
       lift_io conv
        (then_io (case file_mode pol of None \<Rightarrow> (s, ok ()) | Some m \<Rightarrow> perform (SetMode tmp m) s) (\<lambda>_.
         perform (SyncFile tmp))))"

text \<open>An error behind the creation of the temporary drops the staged file.\<close>

definition with_writer ::
  "(io_kind \<Rightarrow> 'e) \<Rightarrow> nat \<Rightarrow> nat \<Rightarrow> path \<Rightarrow> file_policy \<Rightarrow> 'e writer \<Rightarrow> os \<Rightarrow> os \<times> ('e + staged_file)"
where
  "with_writer conv fuel pid p pol w s =
     then_io (lift_io conv (prepare_temporary fuel pid p pol s)) (\<lambda>tmp s.
       let staged = \<lparr>destination = p, temporary = Some tmp, staged_policy = pol\<rparr> in
       (case fill_temporary conv tmp pol w s of
          (s, Inl e) \<Rightarrow> (drop_staged staged s, err e)
        | (s, Inr _) \<Rightarrow> (s, ok staged)))"

definition staged_new :: "nat \<Rightarrow> nat \<Rightarrow> path \<Rightarrow> ustring \<Rightarrow> file_policy \<Rightarrow> os \<Rightarrow> staged_file io" where
  "staged_new fuel pid p contents pol = with_writer id fuel pid p pol (contents, ok ())"

text \<open>Returns the staged file as \<open>commit\<close> leaves it, and its result.\<close>

definition commit :: "staged_file \<Rightarrow> os \<Rightarrow> staged_file \<times> unit io" where
  "commit f s =
     (case temporary f of
        None \<Rightarrow> (f, (s, err InvalidInput))
      | Some tmp \<Rightarrow>
          (case (if reject_symlink_destination (staged_policy f) then reject_symlink (destination f) s else (s, ok ())) of
             (s, Inl e) \<Rightarrow> (f, (s, err e))
           | (s, Inr _) \<Rightarrow>
               (case perform (Rename tmp (destination f)) s of
                  (s, Inl e) \<Rightarrow> (f, (s, err e))
                | (s, Inr _) \<Rightarrow>
                    (f\<lparr>temporary := None\<rparr>,
                     if pol_sync_parent (staged_policy f) then sync_parent (destination f) s else (s, ok ())))))"

text \<open>The staged file is a temporary of the expression, dropped behind \<open>commit\<close>.\<close>

definition write_bytes_atomic :: "nat \<Rightarrow> nat \<Rightarrow> path \<Rightarrow> ustring \<Rightarrow> file_policy \<Rightarrow> os \<Rightarrow> unit io" where
  "write_bytes_atomic fuel pid p contents pol s =
     then_io (staged_new fuel pid p contents pol s) (\<lambda>f s.
       (case commit f s of (f', (s', r)) \<Rightarrow> (drop_staged f' s', r)))"

section \<open>Reading\<close>

text \<open>
  \<open>grown\<close> is what is appended to the file between the size check and the read. \<open>O_NOFOLLOW\<close> makes a
  symbolic link fail to open; \<open>read_to_end\<close> on \<open>take(n)\<close> yields the first \<open>n\<close> bytes.
\<close>

definition read_bytes_bounded :: "path \<Rightarrow> 64 word \<Rightarrow> ustring \<Rightarrow> os \<Rightarrow> ustring option io" where
  "read_bytes_bounded p max_bytes grown s =
     (case attempt s of
        (s, Some NotFound) \<Rightarrow> (s, ok None)
      | (s, Some e) \<Rightarrow> (s, err e)
      | (s, None) \<Rightarrow>
          (case tree s p of
             None \<Rightarrow> (s, ok None)
           | Some (SymlinkNode _) \<Rightarrow> (s, err (OtherIo ''too many symbolic links''))
           | Some (FileNode content) \<Rightarrow>
               (case attempt s of
                  (s, Some e) \<Rightarrow> (s, err e)
                | (s, None) \<Rightarrow>
                    if unat max_bytes < length content then (s, err InvalidData)
                    else
                      (case attempt s of
                         (s, Some e) \<Rightarrow> (s, err e)
                       | (s, None) \<Rightarrow>
                           let bound = (if max_bytes = - 1 then max_bytes else max_bytes + 1);
                               bytes = take (unat bound) (content @ grown)
                           in if unat max_bytes < length bytes then (s, err InvalidData) else (s, ok (Some bytes))))
           | Some _ \<Rightarrow> (case attempt s of (s, Some e) \<Rightarrow> (s, err e) | (s, None) \<Rightarrow> (s, err InvalidData))))"

datatype state_error = StateIo io_kind | StateJson ustring

record write_policy =
  wp_directory_mode :: nat
  wp_file_mode :: nat
  pretty :: bool
  wp_sync_parent :: bool

definition state_policy :: "write_policy \<Rightarrow> file_policy" where
  "state_policy pol = private_policy\<lparr>directory_mode := Some (wp_directory_mode pol), file_mode := Some (wp_file_mode pol),
     pol_sync_parent := wp_sync_parent pol, sync_new_ancestors := wp_sync_parent pol\<rparr>"

text \<open>The serialiser: for pretty or compact output, the text it produces, and its error if it stops there.\<close>

definition write_json_atomic ::
  "(bool \<Rightarrow> 'v \<Rightarrow> ustring \<times> ustring option) \<Rightarrow> nat \<Rightarrow> nat \<Rightarrow> path \<Rightarrow> 'v \<Rightarrow> write_policy \<Rightarrow> os
    \<Rightarrow> os \<times> (state_error + unit)"
where
  "write_json_atomic serialise fuel pid p v pol s =
     (case serialise (pretty pol) v of
        (out, failure) \<Rightarrow>
          then_io (with_writer StateIo fuel pid p (state_policy pol)
              (out, case failure of None \<Rightarrow> ok () | Some m \<Rightarrow> err (StateJson m)) s) (\<lambda>f s.
            (case commit f s of (f, r) \<Rightarrow> (case lift_io StateIo r of (s, r) \<Rightarrow> (drop_staged f s, r)))))"

definition read_json :: "(ustring \<Rightarrow> ustring + 'v) \<Rightarrow> path \<Rightarrow> os \<Rightarrow> os \<times> (state_error + 'v option)" where
  "read_json parse p s =
     (case attempt s of
        (s, Some e) \<Rightarrow> if e = NotFound then (s, ok None) else (s, err (StateIo e))
      | (s, None) \<Rightarrow>
          (case Option.bind (tree s p) followed of
             None \<Rightarrow> (s, ok None)
           | Some (FileNode bytes) \<Rightarrow>
               (s, case parse bytes of Inl m \<Rightarrow> err (StateJson m) | Inr v \<Rightarrow> ok (Some v))
           | Some _ \<Rightarrow> (s, err (StateIo IsADirectory))))"

lemma read_bytes_bounded_ok:
  "snd (read_bytes_bounded p n grown s) = Inr (Some bytes) \<Longrightarrow>
     length bytes \<le> unat n
     \<and> (n \<noteq> - 1 \<longrightarrow> (\<exists>content. tree s p = Some (FileNode content) \<and> bytes = content @ grown))"
proof -
  assume r: "snd (read_bytes_bounded p n grown s) = Inr (Some bytes)"
  then obtain content where c: "tree s p = Some (FileNode content)" "length content \<le> unat n"
      "bytes = take (unat (if n = - 1 then n else n + 1)) (content @ grown)" "length bytes \<le> unat n"
    by (auto simp: read_bytes_bounded_def attempt_def Let_def
        split: option.splits node.splits if_splits io_kind.splits prod.splits)
  show ?thesis
  proof (cases "n = - 1")
    case True
    then show ?thesis using c by simp
  next
    case False
    then have "unat (n + 1) = unat n + 1"
      using unatSuc[of n] by (simp add: add.commute add_eq_0_iff)
    then show ?thesis using c False by simp
  qed
qed

section \<open>Runs\<close>

definition reached :: "os \<Rightarrow> os \<Rightarrow> syscall list \<Rightarrow> bool" where
  "reached s s' cs \<longleftrightarrow> performed s' = performed s @ cs \<and> tree s' = fold effect cs (tree s) \<and> fault s' = fault s"

definition runs :: "(syscall \<Rightarrow> bool) \<Rightarrow> os \<Rightarrow> os \<Rightarrow> bool" where
  "runs P s s' \<longleftrightarrow> (\<exists>cs. reached s s' cs \<and> list_all P cs)"

lemma reached_append: "reached s s' cs \<Longrightarrow> reached s' s'' ds \<Longrightarrow> reached s s'' (cs @ ds)"
  by (simp add: reached_def)

lemma runs_refl [simp, intro]: "runs P s s"
  by (auto simp: runs_def reached_def intro: exI[of _ "[]"])

lemma runs_trans [trans]: "runs P s s' \<Longrightarrow> runs P s' s'' \<Longrightarrow> runs P s s''"
  unfolding runs_def by (metis reached_append list_all_append)

lemma perform_cases:
  obtains (good) "snd (perform c s) = Inr ()" "reached s (fst (perform c s)) [c]" "denied c (tree s) = None"
  | (bad) e where "snd (perform c s) = Inl e" "reached s (fst (perform c s)) []"
      "denied c (tree s) = Some e \<or> fault s (attempts (fst (perform c s)) - 1) = Some e"
  by (cases "fault s (attempts s)"; cases "denied c (tree s)")
     (auto simp: perform_def attempt_def reached_def)

lemma perform_ok: "perform c s = (s', Inr u) \<Longrightarrow> reached s s' [c]"
  by (rule perform_cases[of c s]) auto

lemma perform_err:
  "perform c s = (s', Inl e) \<Longrightarrow> reached s s' [] \<and> (denied c (tree s) = Some e \<or> fault s (attempts s' - 1) = Some e)"
  by (rule perform_cases[of c s]) auto

lemma runs_perform: "P c \<Longrightarrow> runs P s (fst (perform c s))"
  by (rule perform_cases[of c s]) (auto simp: runs_def)

lemma runs_then:
  assumes "runs P s (fst m)" "\<And>a s. runs P s (fst (f a s))"
  shows "runs P s (fst (then_io m f))"
proof (cases m)
  case (Pair s1 r)
  then show ?thesis
    using assms by (cases r) (auto intro: runs_trans)
qed

lemma fst_lift_io [simp]: "fst (lift_io conv m) = fst m"
  by (cases "(conv, m)" rule: lift_io.cases) simp_all

lemma runs_attempt: "attempt s = (s', r) \<Longrightarrow> runs P s s'"
  by (auto simp: attempt_def runs_def reached_def intro: exI[of _ "[]"])

lemma runs_exists: "runs P s (fst (exists_path p s))"
  by (auto simp: exists_path_def split: prod.splits option.splits intro: runs_attempt)

lemma runs_reject: "runs P s (fst (reject_symlink p s))"
  by (auto simp: reject_symlink_def split: prod.splits option.splits io_kind.splits node.splits intro: runs_attempt)

lemma runs_missing: "runs P s (fst (missing_ancestors w ps s))"
proof (induction ps arbitrary: s)
  case (Cons p ps)
  have "runs P s (fst (exists_path p s))" by (rule runs_exists)
  then show ?case
    using Cons by (auto split: prod.splits bool.splits) (metis fst_conv runs_trans)+
qed simp

lemma runs_sync_directory: "(\<And>q. P (SyncDir q)) \<Longrightarrow> runs P s (fst (sync_directory p s))"
  by (simp add: sync_directory_def runs_perform)

lemma runs_sync_parent: "(\<And>q. P (SyncDir q)) \<Longrightarrow> runs P s (fst (sync_parent p s))"
  by (auto simp: sync_parent_def runs_sync_directory split: sum.split)

lemma runs_sync_created: "(\<And>q. P (SyncDir q)) \<Longrightarrow> runs P s (fst (sync_created ps s))"
  by (induction ps arbitrary: s) (auto intro!: runs_then runs_sync_directory runs_sync_parent)

lemma runs_create_directory:
  assumes "\<And>q. P (SyncDir q)" "\<And>m. P (MkdirAll p m)" "\<And>m. P (SetMode p m)"
  shows "runs P s (fst (create_directory p pol s))"
proof -
  obtain s1 missing where m: "missing_ancestors (sync_new_ancestors pol) (ancestors p) s = (s1, missing)"
    by fastforce
  then have "runs P s s1" using runs_missing by (metis fst_conv)
  also have "runs P s1 (fst (create_directory p pol s))"
    using assms
    by (auto simp: create_directory_def m intro!: runs_then runs_perform runs_sync_created runs_reject split: option.split)
  finally show ?thesis .
qed

section \<open>Replacement is atomic\<close>

text \<open>Calls that leave a path as it is, and calls that create a file.\<close>

fun spares :: "path \<Rightarrow> syscall \<Rightarrow> bool" where
  "spares d (MkdirAll p m) \<longleftrightarrow> \<not> prefix d p"
| "spares d (CreateNew p m) \<longleftrightarrow> p \<noteq> d"
| "spares d (Append p _) \<longleftrightarrow> p \<noteq> d"
| "spares d (Rename p q) \<longleftrightarrow> p \<noteq> d \<and> q \<noteq> d"
| "spares d (RemoveFile p) \<longleftrightarrow> p \<noteq> d"
| "spares d _ \<longleftrightarrow> True"

fun creates :: "syscall \<Rightarrow> path option" where
  "creates (CreateNew p m) = Some p"
| "creates _ = None"

lemma spares_effect: "spares d c \<Longrightarrow> effect c t d = t d"
  by (cases c) (auto split: option.splits node.splits)

lemma spares_run: "list_all (spares d) cs \<Longrightarrow> fold effect cs t d = t d"
  by (induction cs arbitrary: t) (simp_all add: spares_effect)

lemma path_last: "file_name p = Some name \<Longrightarrow> p = butlast p @ [Normal name]"
  by (auto simp: file_name_def split: if_splits component.splits) (metis append_butlast_last_id)

lemma destination_not_in_directory:
  assumes "parent_directory p = Inr dir" "file_name p = Some name"
  shows "\<not> prefix p dir"
proof
  assume pre: "prefix p dir"
  have p: "p = butlast p @ [Normal name]"
    using path_last[OF assms(2)] .
  have "dir = butlast p \<or> dir = [CurDir] \<and> butlast p = []"
    using assms(1) by (auto simp: parent_directory_def parent_def split: option.splits if_splits)
  then show False
  proof
    assume "dir = butlast p"
    then have "length p \<le> length (butlast p)" using prefix_length_le[OF pre] by (simp only:)
    moreover have "0 < length p" using assms(2) by (auto simp: file_name_def)
    ultimately show False unfolding length_butlast by linarith
  next
    assume d: "dir = [CurDir] \<and> butlast p = []"
    then have "p = [Normal name]" using p by simp
    then show False using pre d by simp
  qed
qed

lemma temporary_differs: "temporary_name pid name n \<noteq> name"
  by (simp add: temporary_name_def)

lemma create_temporary_result:
  assumes "create_temporary fuel pid dir name m s = (s', r)"
  shows "case r of
      Inl e \<Rightarrow> reached s s' []
    | Inr tmp \<Rightarrow> reached s s' [CreateNew tmp m] \<and> (\<exists>n. tmp = dir @ [Normal (temporary_name pid name n)])"
  using assms
proof (induction fuel arbitrary: s)
  case 0
  then show ?case by (auto simp: reached_def)
next
  case (Suc fuel)
  define tmp where "tmp = join dir [Normal (temporary_name pid name (temp_sequence s))]"
  define s0 where "s0 = s\<lparr>temp_sequence := temp_sequence s + 1\<rparr>"
  have tmp: "tmp = dir @ [Normal (temporary_name pid name (temp_sequence s))]"
    using join_normal[of dir "[temporary_name pid name (temp_sequence s)]"] by (simp add: tmp_def)
  have s0: "reached s s0 []" by (simp add: s0_def reached_def)
  have step: "(case perform (CreateNew tmp m) s0 of
      (s', Inr _) \<Rightarrow> (s', ok tmp)
    | (s', Inl AlreadyExists) \<Rightarrow> create_temporary fuel pid dir name m s'
    | (s', Inl e) \<Rightarrow> (s', err e)) = (s', r)"
    using Suc.prems unfolding tmp_def s0_def by (simp add: Let_def)
  show ?case
  proof (cases rule: perform_cases[of "CreateNew tmp m" s0])
    case good
    then obtain s1 where p: "perform (CreateNew tmp m) s0 = (s1, Inr ())"
      by (cases "perform (CreateNew tmp m) s0") simp
    then have "r = Inr tmp" "s' = s1" using step by simp_all
    moreover have "reached s s1 [CreateNew tmp m]"
      using reached_append[OF s0, of s1 "[CreateNew tmp m]"] good(2) p by simp
    ultimately show ?thesis using tmp by auto
  next
    case (bad e)
    then obtain s1 where p: "perform (CreateNew tmp m) s0 = (s1, Inl e)"
      by (cases "perform (CreateNew tmp m) s0") simp
    then have s1: "reached s s1 []"
      using reached_append[OF s0, of s1 "[]"] bad(2) by simp
    show ?thesis
    proof (cases "e = AlreadyExists")
      case True
      then have "create_temporary fuel pid dir name m s1 = (s', r)"
        using step p by simp
      from Suc.IH[OF this] show ?thesis
        using reached_append[OF s1] by (cases r) fastforce+
    next
      case False
      then have "(s1, Inl e) = (s', r)"
        using step p by (cases e) simp_all
      then show ?thesis using s1 by auto
    qed
  qed
qed

text \<open>
  One of the next \<open>fuel\<close> names being free is enough for the loop to end: the sequence number moves on
  with each attempt, and an attempt fails with \<open>AlreadyExists\<close> only on a name that is taken.
\<close>

lemma create_temporary_returns:
  assumes "\<forall>n. fault s n \<noteq> Some AlreadyExists \<and> fault s n \<noteq> Some OutOfFuel" "k < fuel"
    "tree s (dir @ [Normal (temporary_name pid name (temp_sequence s + of_nat k))]) = None"
  shows "snd (create_temporary fuel pid dir name m s) \<noteq> Inl OutOfFuel"
  using assms
proof (induction fuel arbitrary: s k)
  case (Suc fuel)
  define tmp where "tmp = dir @ [Normal (temporary_name pid name (temp_sequence s))]"
  define s0 where "s0 = s\<lparr>temp_sequence := temp_sequence s + 1\<rparr>"
  have step: "create_temporary (Suc fuel) pid dir name m s = (case perform (CreateNew tmp m) s0 of
      (s', Inr _) \<Rightarrow> (s', ok tmp)
    | (s', Inl AlreadyExists) \<Rightarrow> create_temporary fuel pid dir name m s'
    | (s', Inl e) \<Rightarrow> (s', err e))"
    using join_normal[of dir "[temporary_name pid name (temp_sequence s)]"]
    by (simp only: create_temporary.simps Let_def tmp_def s0_def list.map)
  obtain s1 r where p: "perform (CreateNew tmp m) s0 = (s1, r)" by fastforce
  have s1: "temp_sequence s1 = temp_sequence s + 1" "r = Inl AlreadyExists \<Longrightarrow> tree s1 = tree s \<and> tree s tmp \<noteq> None"
      "fault s1 = fault s" "r \<noteq> Inl OutOfFuel"
    using p Suc.prems(1) by (auto simp: perform_def attempt_def s0_def split: option.splits if_splits)
  show ?case
  proof (cases "r = Inl AlreadyExists")
    case True
    have "k \<noteq> 0" using Suc.prems(3) s1(2)[OF True] by (cases k) (auto simp: tmp_def)
    then obtain j where "k = Suc j" by (cases k) auto
    have seq: "temp_sequence s + of_nat k = temp_sequence s1 + of_nat j"
      using \<open>k = Suc j\<close> s1(1) by simp
    have "snd (create_temporary fuel pid dir name m s1) \<noteq> Inl OutOfFuel"
      using Suc.prems s1(2)[OF True] s1(3) \<open>k = Suc j\<close> by (intro Suc.IH[of s1 j]) (simp_all flip: seq)
    then show ?thesis
      unfolding step p True by simp
  next
    case False
    then show ?thesis
      unfolding step p using s1(4) by (cases r; cases "projl r") simp_all
  qed
qed simp

lemma prepare_temporary_result:
  assumes "prepare_temporary fuel pid p pol s = (s', r)"
  shows "case r of
      Inl e \<Rightarrow> runs (\<lambda>c. spares p c \<and> creates c = None) s s'
    | Inr tmp \<Rightarrow> tmp \<noteq> p \<and> (\<exists>s1. runs (\<lambda>c. spares p c \<and> creates c = None) s s1
        \<and> reached s1 s' [CreateNew tmp (file_mode pol)])"
proof -
  let ?P = "\<lambda>c. spares p c \<and> creates c = None"
  show ?thesis
  proof (cases "\<exists>dir name. parent_directory p = Inr dir \<and> file_name p = Some name")
    case False
    then have "s' = s \<and> (\<exists>e. r = Inl e)"
    proof (cases "parent_directory p")
      case (Inl e)
      then have "(s', r) = (s, Inl e)" using assms by (simp add: prepare_temporary_def)
      then show ?thesis by blast
    next
      case (Inr dir)
      then have "file_name p = None" using False by auto
      then show ?thesis using assms Inr by (auto simp: prepare_temporary_def)
    qed
    then show ?thesis by auto
  next
    case True
    then obtain dir name where dir: "parent_directory p = Inr dir" "file_name p = Some name" by blast
    have outside: "\<not> prefix p dir" by (rule destination_not_in_directory) (use dir in simp_all)
    obtain s1 r1 where m: "then_io (create_directory dir pol s) (\<lambda>_ s.
        if reject_symlink_destination pol then reject_symlink p s else (s, ok ())) = (s1, r1)"
      by fastforce
    have "runs ?P s (fst (then_io (create_directory dir pol s) (\<lambda>_ s.
        if reject_symlink_destination pol then reject_symlink p s else (s, ok ()))))"
      using outside by (intro runs_then runs_create_directory) (auto intro: runs_reject)
    then have s1: "runs ?P s s1" by (simp add: m)
    have eq: "(s', r) = then_io (s1, r1) (\<lambda>_. create_temporary fuel pid dir name (file_mode pol))"
      using assms dir unfolding m[symmetric]
      by (cases "create_directory dir pol s"; cases "snd (create_directory dir pol s)")
         (auto simp: prepare_temporary_def)
    show ?thesis
    proof (cases r1)
      case (Inl e)
      then show ?thesis using eq s1 by simp
    next
      case (Inr u)
      then have "create_temporary fuel pid dir name (file_mode pol) s1 = (s', r)" using eq by simp
      note c = create_temporary_result[OF this]
      show ?thesis
      proof (cases r)
        case (Inl e)
        then show ?thesis using c s1 by (auto simp: runs_def dest: reached_append)
      next
        case (Inr tmp)
        moreover have "tmp \<noteq> p"
          using c Inr path_last[OF dir(2)] temporary_differs by (auto simp del: append_butlast_last_id)
        ultimately show ?thesis using c s1 by auto
      qed
    qed
  qed
qed

lemma fill_temporary_result:
  assumes "fill_temporary conv tmp pol (contents, ok ()) s = (s', r)" "tree s tmp = Some (FileNode [])" "tmp \<noteq> p"
  shows "runs (\<lambda>c. spares p c \<and> creates c = None) s s'
    \<and> (r = Inr () \<longrightarrow> tree s' tmp = Some (FileNode contents) \<and> (\<exists>before. performed s' = before @ [SyncFile tmp]))"
proof -
  let ?P = "\<lambda>c. spares p c \<and> creates c = None"
  define sm where "sm = (\<lambda>s. case file_mode pol of None \<Rightarrow> (s, ok ()) | Some m \<Rightarrow> perform (SetMode tmp m) s)"
  have sm: "runs (\<lambda>c. \<exists>m. c = SetMode tmp m) t (fst (sm t))" for t
    by (auto simp: sm_def intro: runs_perform split: option.split)
  have eq: "(s', r) = then_io (lift_io conv (perform (Append tmp contents) s))
      (\<lambda>_ s. lift_io conv (then_io (sm s) (\<lambda>_. perform (SyncFile tmp))))"
    using assms(1) by (simp add: fill_temporary_def write_buffered_def sm_def)
  have "runs ?P s (fst (then_io (lift_io conv (perform (Append tmp contents) s))
      (\<lambda>_ s. lift_io conv (then_io (sm s) (\<lambda>_. perform (SyncFile tmp))))))"
    using assms(3) by (auto simp: sm_def intro!: runs_then runs_perform split: option.split)
  then have run: "runs ?P s s'" by (simp flip: eq)
  have "tree s' tmp = Some (FileNode contents) \<and> (\<exists>before. performed s' = before @ [SyncFile tmp])" if r: "r = Inr ()"
  proof -
    obtain s1 where a: "perform (Append tmp contents) s = (s1, Inr ())"
      using eq r by (cases "perform (Append tmp contents) s"; cases "snd (perform (Append tmp contents) s)") auto
    obtain s2 where b: "sm s1 = (s2, Inr ())"
      using eq r a by (cases "sm s1"; cases "snd (sm s1)") auto
    have c: "perform (SyncFile tmp) s2 = (s', Inr ())"
      using eq r a b by (cases "perform (SyncFile tmp) s2"; cases "snd (perform (SyncFile tmp) s2)") auto
    have "tree s1 tmp = Some (FileNode contents)"
      using perform_ok[OF a] assms(2) by (simp add: reached_def)
    moreover obtain cs where "reached s1 s2 cs" "list_all (\<lambda>c. \<exists>m. c = SetMode tmp m) cs"
      using sm[of s1] b by (auto simp: runs_def)
    then have "tree s2 = tree s1"
    proof -
      have "list_all (\<lambda>c. \<exists>m. c = SetMode tmp m) cs \<Longrightarrow> fold effect cs t = t" for t
        by (induction cs) auto
      then show ?thesis using \<open>reached s1 s2 cs\<close> \<open>list_all _ cs\<close> by (simp add: reached_def)
    qed
    ultimately show ?thesis
      using perform_ok[OF c] by (simp add: reached_def)
  qed
  with run show ?thesis by blast
qed

text \<open>What is left of a temporary when its staged file is dropped: nothing, unless the removal failed.\<close>

lemma drop_staged_result:
  assumes "temporary f = Some tmp" "tmp \<noteq> p"
  shows "runs (\<lambda>c. spares p c \<and> creates c = None) s (drop_staged f s)"
    and "tree (drop_staged f s) tmp = None \<or> fault s (attempts (drop_staged f s) - 1) \<noteq> None"
proof -
  show "runs (\<lambda>c. spares p c \<and> creates c = None) s (drop_staged f s)"
    using assms by (auto simp: drop_staged_def intro: runs_perform)
  obtain s' r where d: "perform (RemoveFile tmp) s = (s', r)" by fastforce
  have "tree s' tmp = None \<or> fault s (attempts s' - 1) \<noteq> None"
  proof (cases r)
    case (Inl e)
    then show ?thesis using perform_err[of "RemoveFile tmp" s s' e] d by (auto simp: reached_def split: if_splits)
  next
    case (Inr u)
    then show ?thesis using perform_ok[of "RemoveFile tmp" s s' u] d by (auto simp: reached_def)
  qed
  then show "tree (drop_staged f s) tmp = None \<or> fault s (attempts (drop_staged f s) - 1) \<noteq> None"
    using assms(1) d by (simp add: drop_staged_def)
qed

text \<open>
  \<open>tidy\<close>: at most one file is created on the way, and if one is, it is gone at the end, unless its
  removal, the last call attempted, failed.
\<close>

definition tidy :: "os \<Rightarrow> os \<Rightarrow> syscall list \<Rightarrow> bool" where
  "tidy s s' cs \<longleftrightarrow>
     (\<forall>c\<in>set cs. \<forall>tmp. creates c = Some tmp \<longrightarrow> tree s' tmp = None \<or> fault s (attempts s' - 1) \<noteq> None)"

lemma staged_new_result:
  assumes "staged_new fuel pid p contents pol s = (s', r)"
  shows "\<exists>cs. reached s s' cs \<and> list_all (spares p) cs \<and>
     (case r of
        Inl e \<Rightarrow> tidy s s' cs
      | Inr f \<Rightarrow> \<exists>tmp before. f = \<lparr>destination = p, temporary = Some tmp, staged_policy = pol\<rparr> \<and> tmp \<noteq> p
          \<and> (\<forall>c\<in>set cs. creates c \<in> {None, Some tmp})
          \<and> cs = before @ [SyncFile tmp] \<and> tree s' tmp = Some (FileNode contents))"
proof -
  let ?P = "\<lambda>c. spares p c \<and> creates c = None"
  obtain s1 r1 where prep: "prepare_temporary fuel pid p pol s = (s1, r1)" by fastforce
  note prep' = prepare_temporary_result[OF prep]
  show ?thesis
  proof (cases r1)
    case (Inl e)
    then have "s' = s1" "r = Inl e"
      using assms by (auto simp: staged_new_def with_writer_def prep)
    moreover obtain cs where "reached s s1 cs" "list_all ?P cs"
      using prep' Inl by (auto simp: runs_def)
    ultimately show ?thesis by (auto simp: tidy_def list_all_iff)
  next
    case (Inr tmp)
    obtain s0 as where s0: "reached s s0 as" "list_all ?P as" "reached s0 s1 [CreateNew tmp (file_mode pol)]"
      and ne: "tmp \<noteq> p"
      using prep' Inr by (auto simp: runs_def)
    define f where "f = \<lparr>destination = p, temporary = Some tmp, staged_policy = pol\<rparr>"
    obtain s2 r2 where fill: "fill_temporary id tmp pol (contents, ok ()) s1 = (s2, r2)" by fastforce
    have "tree s1 tmp = Some (FileNode [])" using s0(3) by (simp add: reached_def)
    note fill' = fill_temporary_result[OF fill this ne]
    obtain bs where bs: "reached s1 s2 bs" "list_all ?P bs"
      using fill' by (auto simp: runs_def)
    have all2: "reached s s2 (as @ [CreateNew tmp (file_mode pol)] @ bs)"
      using reached_append[OF reached_append[OF s0(1,3)] bs(1)] by simp
    show ?thesis
    proof (cases r2)
      case (Inl e)
      then have r: "s' = drop_staged f s2" "r = Inl e"
        using assms by (auto simp: staged_new_def with_writer_def prep Inr fill f_def)
      have "temporary f = Some tmp" by (simp add: f_def)
      note drop = drop_staged_result[OF this ne, of s2]
      then obtain ds where ds: "reached s2 s' ds" "list_all ?P ds"
        by (auto simp: runs_def r)
      have "fault s2 = fault s" using all2 by (simp add: reached_def)
      then have "tidy s s' (as @ [CreateNew tmp (file_mode pol)] @ bs @ ds)"
        using drop(2) s0(2) bs(2) ds(2) by (auto simp: tidy_def list_all_iff r)
      then show ?thesis
        using reached_append[OF all2 ds(1)] s0(2) bs(2) ds(2) ne r
        by (intro exI[of _ "as @ [CreateNew tmp (file_mode pol)] @ bs @ ds"]) (auto simp: list_all_iff)
    next
      case r2: (Inr u)
      then have r: "s' = s2" "r = Inr f"
        using assms by (auto simp: staged_new_def with_writer_def prep Inr fill f_def)
      obtain before where "performed s2 = before @ [SyncFile tmp]"
        using fill' r2 by auto
      then have "bs \<noteq> [] \<Longrightarrow> last bs = SyncFile tmp"
        using bs(1) by (auto simp: reached_def) (metis last_appendR last_snoc)
      moreover have "bs \<noteq> []"
        using fill' r2 bs(1) s0(3) \<open>performed s2 = before @ [SyncFile tmp]\<close> by (auto simp: reached_def)
      ultimately have "bs = butlast bs @ [SyncFile tmp]" by (metis append_butlast_last_id)
      then have ends: "\<exists>before. as @ CreateNew tmp (file_mode pol) # bs = before @ [SyncFile tmp]"
        by (metis append_Cons append_assoc)
      have "tree s2 tmp = Some (FileNode contents)" using fill' r2 by simp
      then show ?thesis
        using all2 s0(2) bs(2) ne r ends
        by (intro exI[of _ "as @ [CreateNew tmp (file_mode pol)] @ bs"]) (auto simp: list_all_iff f_def)
    qed
  qed
qed

lemma commit_result:
  assumes "commit \<lparr>destination = p, temporary = Some tmp, staged_policy = pol\<rparr> s = (f, (s', r))"
    "tmp \<noteq> p" "parent_directory p = Inr dir"
  shows "(f = \<lparr>destination = p, temporary = Some tmp, staged_policy = pol\<rparr> \<and> reached s s' [] \<and> (\<exists>e. r = Inl e))
    \<or> temporary f = None
       \<and> (if pol_sync_parent pol \<and> r = Inr () then reached s s' [Rename tmp p, SyncDir dir] else reached s s' [Rename tmp p])
       \<and> (r = Inr () \<or> pol_sync_parent pol)"
proof -
  let ?f = "\<lparr>destination = p, temporary = Some tmp, staged_policy = pol\<rparr>"
  obtain s1 r1 where check: "(if reject_symlink_destination pol then reject_symlink p s else (s, ok ())) = (s1, r1)"
    by fastforce
  have s1: "reached s s1 []"
    using check
    by (auto simp: reject_symlink_def attempt_def reached_def
        split: if_splits option.splits io_kind.splits node.splits)
  note result = assms(1)[unfolded commit_def staged_file.select_convs option.case check]
  show ?thesis
  proof (cases r1)
    case (Inl e)
    then have "f = ?f" "s' = s1" "r = Inl e" using result by auto
    then show ?thesis using s1 by simp
  next
    case (Inr u)
    obtain s2 r2 where mv: "perform (Rename tmp p) s1 = (s2, r2)" by fastforce
    show ?thesis
    proof (cases r2)
      case (Inl e)
      then have "f = ?f" "s' = s2" "r = Inl e" using result mv Inr by auto
      then show ?thesis
        using reached_append[OF s1, of s2 "[]"] perform_err[of "Rename tmp p" s1 s2 e] mv Inl by simp
    next
      case r2: (Inr v)
      have s2: "reached s s2 [Rename tmp p]"
        using reached_append[OF s1 perform_ok[of "Rename tmp p" s1 s2 v]] mv r2 by simp
      have f: "f = ?f\<lparr>temporary := None\<rparr>"
        and tail: "(s', r) = (if pol_sync_parent pol then perform (SyncDir dir) s2 else (s2, ok ()))"
        using result assms(3) Inr mv r2 by (auto simp: sync_parent_def sync_directory_def)
      show ?thesis
      proof (cases "pol_sync_parent pol")
        case True
        then have sync: "perform (SyncDir dir) s2 = (s', r)" using tail by simp
        show ?thesis
        proof (cases r)
          case (Inl e)
          then show ?thesis
            using perform_err[of "SyncDir dir" s2 s' e] sync reached_append[OF s2, of s' "[]"] f True by simp
        next
          case (Inr w)
          then show ?thesis
            using perform_ok[of "SyncDir dir" s2 s' w] sync reached_append[OF s2, of s' "[SyncDir dir]"] f True by simp
        qed
      next
        case False
        then show ?thesis using tail f s2 by simp
      qed
    qed
  qed
qed

lemma drop_committed [simp]: "temporary f = None \<Longrightarrow> drop_staged f s = s"
  by (simp add: drop_staged_def)

lemma staged_parent:
  "staged_new fuel pid p contents pol s = (s', Inr f) \<Longrightarrow> \<exists>dir. parent_directory p = Inr dir"
  by (cases "parent_directory p") (simp_all add: staged_new_def with_writer_def prepare_temporary_def)

lemma dest_states:
  assumes "list_all (spares p) cs" "fold effect cs t tmp = Some (FileNode contents)" "tmp \<noteq> p" "list_all (spares p) ds"
  shows "fold effect (take k (cs @ Rename tmp p # ds)) t p \<in> {t p, Some (FileNode contents)}"
proof (cases "k \<le> length cs")
  case True
  then have "list_all (spares p) (take k cs)"
    using assms(1) by (auto simp: list_all_iff dest: in_set_takeD)
  then show ?thesis using True by (simp add: spares_run)
next
  case False
  then obtain j where "k - length cs = Suc j" by (cases "k - length cs") auto
  moreover have "list_all (spares p) (take j ds)" for j
    using assms(4) by (auto simp: list_all_iff dest: in_set_takeD)
  ultimately show ?thesis
    using False assms(2,3) by (simp add: spares_run)
qed

text \<open>A staged file: complete, beside an untouched destination, and the only file created.\<close>

definition staged_at :: "os \<Rightarrow> os \<Rightarrow> path \<Rightarrow> path \<Rightarrow> ustring \<Rightarrow> syscall list \<Rightarrow> bool" where
  "staged_at s s' p tmp contents cs \<longleftrightarrow> reached s s' cs \<and> list_all (spares p) cs \<and> tmp \<noteq> p
     \<and> (\<forall>c\<in>set cs. creates c \<in> {None, Some tmp}) \<and> tree s' tmp = Some (FileNode contents)"

lemma spared_throughout: "list_all (spares p) cs \<Longrightarrow> fold effect (take k cs) t p = t p"
  by (rule spares_run) (auto simp: list_all_iff dest: in_set_takeD)

lemma abandoned:
  assumes "staged_at s s1 p tmp contents cs" "reached s1 s2 []" "temporary f = Some tmp"
  shows "\<exists>ds. reached s (drop_staged f s2) (cs @ ds) \<and> tidy s (drop_staged f s2) (cs @ ds) \<and> list_all (spares p) (cs @ ds)"
proof -
  have st: "reached s s1 cs" "list_all (spares p) cs" "tmp \<noteq> p" "\<forall>c\<in>set cs. creates c \<in> {None, Some tmp}"
    using assms(1) by (simp_all add: staged_at_def)
  obtain ds where ds: "reached s2 (drop_staged f s2) ds" "list_all (\<lambda>c. spares p c \<and> creates c = None) ds"
    using drop_staged_result(1)[OF assms(3) st(3), of s2] by (auto simp: runs_def)
  have "reached s (drop_staged f s2) (cs @ ds)"
    using reached_append[OF reached_append[OF st(1) assms(2)] ds(1)] by simp
  moreover have "list_all (spares p) (cs @ ds)" using st(2) ds(2) by (auto simp: list_all_iff)
  moreover have "tidy s (drop_staged f s2) (cs @ ds)"
    using drop_staged_result(2)[OF assms(3) st(3), of s2] st(1,4) ds(2) assms(2)
    by (auto simp: tidy_def list_all_iff reached_def)
  ultimately show ?thesis by blast
qed

lemma renamed:
  assumes "staged_at s s1 p tmp contents cs" "reached s1 s2 ds" "ds = [Rename tmp p] \<or> ds = [Rename tmp p, SyncDir dir]"
  shows "tidy s s2 (cs @ ds) \<and> reached s s2 (cs @ ds)
    \<and> (\<forall>k. fold effect (take k (cs @ ds)) (tree s) p \<in> {tree s p, Some (FileNode contents)})
    \<and> tree s2 p = Some (FileNode contents)"
proof -
  have st: "reached s s1 cs" "list_all (spares p) cs" "tmp \<noteq> p" "\<forall>c\<in>set cs. creates c \<in> {None, Some tmp}"
      "tree s1 tmp = Some (FileNode contents)"
    using assms(1) by (simp_all add: staged_at_def)
  have "fold effect cs (tree s) tmp = Some (FileNode contents)"
    using st(1,5) by (simp add: reached_def)
  note states = dest_states[OF st(2) this st(3)]
  have "tree s2 = (tree s1)(tmp := None, p := tree s1 tmp)" using assms(2,3) by (auto simp: reached_def)
  then have "tree s2 tmp = None" "tree s2 p = Some (FileNode contents)" using st(3,5) by simp_all
  then show ?thesis
    using st(4) assms(3) reached_append[OF st(1) assms(2)] states[of "[]"] states[of "[SyncDir dir]"]
    by (auto simp: tidy_def)
qed


definition demo_os :: os where
  "demo_os = \<lparr>tree = (\<lambda>q. if q = [CurDir] then Some DirNode else if q = [Normal ''f''] then Some (FileNode ''old'')
      else if q = [CurDir, Normal ''f.7-1.tmp''] then Some OtherNode else None),
    performed = [], attempts = 0, fault = (\<lambda>_. None), temp_sequence = 1\<rparr>"


end
