(* ===== verification/Soft_Float.thy ===== *)
theory Soft_Float
  imports Fixed_Decimal "HOL-Library.Log_Nat"
begin

text \<open>
  The \<open>f64\<close> arithmetic the sources use, on the bits: each operation is exact on the values, and its
  result rounded once, to nearest with ties to even. A NaN result is the canonical one.
\<close>

section \<open>Values\<close>

datatype fl = Nan | Inf bool | Fin bool nat int

text \<open>\<open>Fin s m e\<close> is \<open>m * 2 ^ e\<close>, negative if \<open>s\<close>.\<close>

definition to_fl :: "f64 \<Rightarrow> fl" where
  "to_fl b =
     (if exponent_field b = 0x7ff then (if b AND mask 52 = 0 then Inf (negative b) else Nan)
      else Fin (negative b) (mantissa b) (binary_exponent b))"

definition nan_bits :: f64 where "nan_bits = 0x7FF8000000000000"

definition signed_bits :: "bool \<Rightarrow> nat \<Rightarrow> f64" where
  "signed_bits s n = (if s then set_bit 63 (of_nat n) else of_nat n)"

definition inf_magnitude :: nat where "inf_magnitude = 0x7ff * 2 ^ 52"

text \<open>The float nearest to \<open>num / den\<close>: the exponent of the value, no less than that of the subnormals.\<close>

definition log2_floor :: "nat \<Rightarrow> nat \<Rightarrow> int" where
  "log2_floor num den =
     (let k = int (floorlog 2 num) - int (floorlog 2 den)
      in if den * 2 ^ nat k \<le> num * 2 ^ nat (- k) then k else k - 1)"

definition round_fl :: "bool \<Rightarrow> nat \<Rightarrow> nat \<Rightarrow> f64" where
  "round_fl s num den =
     (if num = 0 then signed_bits s 0
      else let e = max (- 1074) (log2_floor num den - 52);
               m = round_half_even (num * 2 ^ nat (- e)) (den * 2 ^ nat e)
           in signed_bits s (min inf_magnitude (nat (e + 1074) * 2 ^ 52 + m)))"

definition f64_of_int :: "int \<Rightarrow> f64" where
  "f64_of_int i = round_fl (i < 0) (nat \<bar>i\<bar>) 1"

section \<open>Operations\<close>

definition fneg :: "f64 \<Rightarrow> f64" where "fneg b = flip_bit 63 b"
definition fabs :: "f64 \<Rightarrow> f64" where "fabs b = magnitude b"

text \<open>A finite value as an integer at the exponent \<open>e\<close>, which is at most its own.\<close>

definition at_exponent :: "int \<Rightarrow> bool \<Rightarrow> nat \<Rightarrow> int \<Rightarrow> int" where
  "at_exponent e s m x = (if s then -1 else 1) * int (m * 2 ^ nat (x - e))"

definition fadd :: "f64 \<Rightarrow> f64 \<Rightarrow> f64" where
  "fadd a b =
     (case (to_fl a, to_fl b) of
        (Nan, _) \<Rightarrow> nan_bits
      | (_, Nan) \<Rightarrow> nan_bits
      | (Inf s, Inf t) \<Rightarrow> if s = t then a else nan_bits
      | (Inf s, Fin _ _ _) \<Rightarrow> a
      | (Fin _ _ _, Inf t) \<Rightarrow> b
      | (Fin s m x, Fin t n y) \<Rightarrow>
          let e = min x y; v = at_exponent e s m x + at_exponent e t n y
          in if v = 0 then signed_bits (s \<and> t) 0
             else round_fl (v < 0) (nat \<bar>v\<bar> * 2 ^ nat e) (2 ^ nat (- e)))"

definition fsub :: "f64 \<Rightarrow> f64 \<Rightarrow> f64" where "fsub a b = fadd a (fneg b)"

definition fdiv :: "f64 \<Rightarrow> f64 \<Rightarrow> f64" where
  "fdiv a b =
     (case (to_fl a, to_fl b) of
        (Nan, _) \<Rightarrow> nan_bits
      | (_, Nan) \<Rightarrow> nan_bits
      | (Inf s, Inf t) \<Rightarrow> nan_bits
      | (Inf s, Fin t n y) \<Rightarrow> signed_bits (s \<noteq> t) inf_magnitude
      | (Fin s m x, Inf t) \<Rightarrow> signed_bits (s \<noteq> t) 0
      | (Fin s m x, Fin t n y) \<Rightarrow>
          if n = 0 then (if m = 0 then nan_bits else signed_bits (s \<noteq> t) inf_magnitude)
          else round_fl (s \<noteq> t) (m * 2 ^ nat (x - y)) (n * 2 ^ nat (y - x)))"

text \<open>\<open>round\<close>: to an integer, ties away from zero.\<close>

definition fround :: "f64 \<Rightarrow> f64" where
  "fround b =
     (case to_fl b of
        Fin s m x \<Rightarrow> if 0 \<le> x then b else round_fl s (round_half_up m (2 ^ nat (- x))) 1
      | _ \<Rightarrow> b)"

datatype ordering = Less | Equal | Greater

definition fcmp :: "f64 \<Rightarrow> f64 \<Rightarrow> ordering option" where
  "fcmp a b =
     (case (to_fl a, to_fl b) of
        (Nan, _) \<Rightarrow> None
      | (_, Nan) \<Rightarrow> None
      | (Inf s, Inf t) \<Rightarrow> Some (if s = t then Equal else if s then Less else Greater)
      | (Inf s, Fin _ _ _) \<Rightarrow> Some (if s then Less else Greater)
      | (Fin _ _ _, Inf t) \<Rightarrow> Some (if t then Greater else Less)
      | (Fin s m x, Fin t n y) \<Rightarrow>
          let e = min x y; v = at_exponent e s m x; w = at_exponent e t n y
          in Some (if v < w then Less else if v = w then Equal else Greater))"

definition fgt :: "f64 \<Rightarrow> f64 \<Rightarrow> bool" where "fgt a b \<longleftrightarrow> fcmp a b = Some Greater"
definition fge :: "f64 \<Rightarrow> f64 \<Rightarrow> bool" where "fge a b \<longleftrightarrow> fcmp a b \<in> {Some Greater, Some Equal}"

definition is_nan :: "f64 \<Rightarrow> bool" where "is_nan b \<longleftrightarrow> to_fl b = Nan"

text \<open>\<open>max\<close> and \<open>min\<close> return the other argument if one is NaN.\<close>

definition fmax :: "f64 \<Rightarrow> f64 \<Rightarrow> f64" where
  "fmax a b = (if is_nan a then b else if is_nan b then a else if fgt b a then b else a)"

definition fmin :: "f64 \<Rightarrow> f64 \<Rightarrow> f64" where
  "fmin a b = (if is_nan a then b else if is_nan b then a else if fgt a b then b else a)"

section \<open>Facts\<close>

lemma round_half_even_exact: "0 < d \<Longrightarrow> round_half_even (n * d) d = n"
  by (simp add: round_half_even_def)

text \<open>Rounding a value that is a float gives that float back.\<close>

lemma floorlog_one: "floorlog 2 1 = 1"
  by (subst compute_floorlog) (simp add: floorlog_eq_zero_iff)

lemma log2_floor_scaled:
  assumes "0 < m"
  shows "log2_floor (m * 2 ^ nat e) (2 ^ nat (- e)) = int (floorlog 2 m) - 1 + e"
proof -
  define L where "L = floorlog 2 m - 1"
  have L: "2 ^ L \<le> m" "floorlog 2 m = Suc L"
    using floorlog_bounds[of m 2] assms floorlog_eq_zero_iff[of 2 m] by (auto simp: L_def)
  have k: "int (floorlog 2 (m * 2 ^ nat e)) - int (floorlog 2 (2 ^ nat (- e))) = int L + e"
    using floorlog_power[of m 2 "nat e"] floorlog_power[of 1 2 "nat (- e)"] L(2) assms floorlog_one by simp
  have exps: "nat (- e) + nat (int L + e) = L + nat e + nat (- (int L + e))" by linarith
  have "(2::nat) ^ nat (- e) * 2 ^ nat (int L + e) = 2 ^ L * 2 ^ nat e * 2 ^ nat (- (int L + e))"
    by (simp only: power_add[symmetric] exps)
  also have "\<dots> \<le> m * 2 ^ nat e * 2 ^ nat (- (int L + e))"
    using L(1) by simp
  finally show ?thesis
    unfolding log2_floor_def Let_def k using L(2) by simp
qed

lemma signed_magnitude:
  assumes "unat (magnitude b) = n"
  shows "signed_bits (negative b) n = b"
proof -
  have n: "of_nat n = magnitude b" using assms by auto
  show ?thesis
    unfolding signed_bits_def n negative_def magnitude_def
  proof (rule bit_word_eqI)
    fix i
    assume "i < LENGTH(64)"
    then show "bit (if bit b 63 then set_bit 63 (take_bit 63 b) else take_bit 63 b) i = bit b i"
      by (cases "i = 63") (simp_all add: bit_simps)
  qed
qed

lemma finite_magnitude:
  assumes "is_finite b"
  shows "nat (binary_exponent b + 1074) * 2 ^ 52 + mantissa b = unat (magnitude b)"
    "unat (magnitude b) < inf_magnitude" "- 1074 \<le> binary_exponent b"
proof -
  have e: "exponent_field b < 0x7ff"
    using assms magnitude_fields(3)[of b] by (simp add: is_finite_def)
  then show "unat (magnitude b) < inf_magnitude"
    using magnitude_fields(2,4)[of b] by (simp add: inf_magnitude_def)
  show "- 1074 \<le> binary_exponent b" by (simp add: binary_exponent_def)
  show "nat (binary_exponent b + 1074) * 2 ^ 52 + mantissa b = unat (magnitude b)"
  proof (cases "exponent_field b")
    case 0
    then show ?thesis by (simp add: binary_exponent_def mantissa_sum magnitude_fields(2))
  next
    case (Suc x)
    then have "nat (binary_exponent b + 1074) = x" by (simp add: binary_exponent_def)
    then show ?thesis using Suc by (simp add: mantissa_sum magnitude_fields(2))
  qed
qed

lemma round_fl_exact:
  assumes "is_finite b"
  shows "round_fl (negative b) (mantissa b * 2 ^ nat (binary_exponent b)) (2 ^ nat (- binary_exponent b)) = b"
proof (cases "mantissa b = 0")
  case True
  then have "unat (magnitude b) = 0"
    using magnitude_fields(2)[of b] by (simp add: mantissa_sum split: if_splits)
  then show ?thesis using signed_magnitude[of b 0] True by (simp add: round_fl_def)
next
  case False
  define e where "e = binary_exponent b"
  define m where "m = mantissa b"
  have m: "0 < m" using False by (simp add: m_def)
  have "floorlog 2 m \<le> 53" using mantissa_less[of b] by (intro floorlog_leI) (auto simp: m_def)
  moreover have "floorlog 2 m = 53 \<or> e = - 1074"
  proof (cases "exponent_field b = 0")
    case False
    then have "2 ^ 52 \<le> m" by (simp add: m_def mantissa_sum)
    then have "53 \<le> floorlog 2 m" by (intro floorlog_geI) auto
    then show ?thesis using \<open>floorlog 2 m \<le> 53\<close> by simp
  qed (simp add: e_def binary_exponent_def)
  ultimately have exp: "max (- 1074) (log2_floor (m * 2 ^ nat e) (2 ^ nat (- e)) - 52) = e"
    using log2_floor_scaled[OF m, of e] finite_magnitude(3)[OF assms] by (auto simp: e_def)
  have "m * 2 ^ nat e * 2 ^ nat (- e) = m * (2 ^ nat (- e) * 2 ^ nat e)" by simp
  then have "round_half_even (m * 2 ^ nat e * 2 ^ nat (- e)) (2 ^ nat (- e) * 2 ^ nat e) = m"
    by (metis round_half_even_exact nat_0_less_mult_iff zero_less_numeral zero_less_power)
  then have "round_fl (negative b) (m * 2 ^ nat e) (2 ^ nat (- e)) = signed_bits (negative b) (unat (magnitude b))"
    using m finite_magnitude[OF assms] unfolding round_fl_def exp Let_def by (simp add: e_def m_def)
  then show ?thesis by (simp add: signed_magnitude m_def e_def)
qed

end
