(* ===== verification/Rust_Text.thy ===== *)
theory Rust_Text
  imports Soft_Float Framing Paths
begin

text \<open>
  The operations of \<open>str\<close> the sources call, on UTF-8 bytes. A byte below \<open>0x80\<close> is a character of
  its own in UTF-8, so searching, splitting and comparing by ASCII characters is done on the bytes.
\<close>

section \<open>White space\<close>

text \<open>How many bytes the Unicode white space character takes that the text starts with, if one.\<close>

fun white_start :: "ustring \<Rightarrow> nat" where
  "white_start s =
     (case s of
        [] \<Rightarrow> 0
      | a # r \<Rightarrow>
          if byte_in a 0x09 0x0D \<or> byte_in a 0x20 0x20 then 1
          else (case r of
            [] \<Rightarrow> 0
          | b # r' \<Rightarrow>
              if byte_in a 0xC2 0xC2 \<and> (byte_in b 0x85 0x85 \<or> byte_in b 0xA0 0xA0) then 2
              else (case r' of
                [] \<Rightarrow> 0
              | c # _ \<Rightarrow>
                  if byte_in a 0xE1 0xE1 \<and> byte_in b 0x9A 0x9A \<and> byte_in c 0x80 0x80
                     \<or> byte_in a 0xE2 0xE2 \<and> byte_in b 0x80 0x80
                        \<and> (byte_in c 0x80 0x8A \<or> byte_in c 0xA8 0xA9 \<or> byte_in c 0xAF 0xAF)
                     \<or> byte_in a 0xE2 0xE2 \<and> byte_in b 0x81 0x81 \<and> byte_in c 0x9F 0x9F
                     \<or> byte_in a 0xE3 0xE3 \<and> byte_in b 0x80 0x80 \<and> byte_in c 0x80 0x80
                  then 3 else 0)))"

declare white_start.simps [simp del]

lemma white_start_le: "white_start s \<le> length s"
  by (subst white_start.simps) (simp split: list.split)

function trim_start :: "ustring \<Rightarrow> ustring" where
  "trim_start s = (if white_start s = 0 then s else trim_start (drop (white_start s) s))"
  by pat_completeness auto
termination
proof (relation "measure length")
  fix s
  assume "white_start s \<noteq> 0"
  then show "(drop (white_start s) s, s) \<in> measure length"
    using white_start_le[of s] by simp
qed simp

declare trim_start.simps [simp del]

text \<open>The last one, two or three bytes, where they are a white space character.\<close>

definition white_end :: "ustring \<Rightarrow> nat" where
  "white_end s =
     (case filter (\<lambda>k. k \<le> length s \<and> white_start (drop (length s - k) s) = k) [1, 2, 3] of
        [] \<Rightarrow> 0 | k # _ \<Rightarrow> k)"

lemma white_end_le: "white_end s \<le> length s"
  by (auto simp: white_end_def)

function trim_end :: "ustring \<Rightarrow> ustring" where
  "trim_end s = (if white_end s = 0 then s else trim_end (take (length s - white_end s) s))"
  by pat_completeness auto
termination
proof (relation "measure length")
  fix s
  assume "white_end s \<noteq> 0"
  then show "(take (length s - white_end s) s, s) \<in> measure length"
    using white_end_le[of s] by simp
qed simp

declare trim_end.simps [simp del]

definition trim :: "ustring \<Rightarrow> ustring" where
  "trim s = trim_end (trim_start s)"

text \<open>\<open>split_whitespace\<close>: the maximal parts without white space.\<close>

function white_split :: "ustring \<Rightarrow> ustring \<Rightarrow> ustring list" where
  "white_split acc s =
     (case s of
        [] \<Rightarrow> if acc = [] then [] else [acc]
      | a # r \<Rightarrow>
          if white_start s = 0 then white_split (acc @ [a]) r
          else (if acc = [] then [] else [acc]) @ white_split [] (drop (white_start s) s))"
  by pat_completeness auto
termination
proof (relation "measure (\<lambda>(acc, s). length s)")
  fix acc s :: ustring and a r
  assume "s = a # r" "white_start s \<noteq> 0"
  then show "(([], drop (white_start s) s), (acc, s)) \<in> measure (\<lambda>(acc, s). length s)"
    using white_start_le[of s] by simp
qed simp_all

declare white_split.simps [simp del]

definition split_whitespace :: "ustring \<Rightarrow> ustring list" where
  "split_whitespace s = white_split [] s"

section \<open>Prefixes and splits\<close>

definition starts_with :: "ustring \<Rightarrow> ustring \<Rightarrow> bool" where
  "starts_with p s \<longleftrightarrow> take (length p) s = p"

definition ends_with :: "ustring \<Rightarrow> ustring \<Rightarrow> bool" where
  "ends_with p s \<longleftrightarrow> length p \<le> length s \<and> drop (length s - length p) s = p"

definition strip_prefix :: "ustring \<Rightarrow> ustring \<Rightarrow> ustring option" where
  "strip_prefix p s = (if starts_with p s then Some (drop (length p) s) else None)"

definition strip_suffix :: "ustring \<Rightarrow> ustring \<Rightarrow> ustring option" where
  "strip_suffix p s = (if ends_with p s then Some (take (length s - length p) s) else None)"

fun split_once :: "char \<Rightarrow> ustring \<Rightarrow> (ustring \<times> ustring) option" where
  "split_once c [] = None"
| "split_once c (x # xs) = (if x = c then Some ([], xs) else map_option (\<lambda>(a, b). (x # a, b)) (split_once c xs))"

lemma split_once_Some: "split_once c s = Some (a, b) \<longleftrightarrow> c \<notin> set a \<and> s = a @ c # b"
proof (induction s arbitrary: a)
  case (Cons x s)
  show ?case
    using Cons[of "tl a"] by (cases a; cases "split_once c s") auto
qed simp

lemma split_on_append: "c \<notin> set l \<Longrightarrow> split_on c (l @ c # r) = l # split_on c r"
  by (induction l) auto

lemma split_on_single: "c \<notin> set l \<Longrightarrow> split_on c l = [l]"
  by (induction l) auto

section \<open>Numbers\<close>

definition radix_digit :: "nat \<Rightarrow> char \<Rightarrow> nat option" where
  "radix_digit radix c =
     (let v = (if is_digit c then digit_value c
               else if byte_in c 0x41 0x5A then of_char c - 0x41 + 10
               else if byte_in c 0x61 0x7A then of_char c - 0x61 + 10
               else radix)
      in if v < radix then Some v else None)"

definition radix_value :: "nat \<Rightarrow> ustring \<Rightarrow> nat" where
  "radix_value radix s = fold (\<lambda>c n. n * radix + the (radix_digit radix c)) s 0"

text \<open>\<open>from_str_radix\<close> of a type with the given bounds; \<open>-\<close> only where the type is signed.\<close>

definition parse_radix :: "nat \<Rightarrow> int \<Rightarrow> int \<Rightarrow> ustring \<Rightarrow> int option" where
  "parse_radix radix lo hi s =
     (let (negated, digits) =
        (case s of
           c # r \<Rightarrow> if c = CHR ''+'' then (False, r) else if c = CHR ''-'' \<and> lo < 0 then (True, r) else (False, s)
         | [] \<Rightarrow> (False, []))
      in if digits = [] \<or> \<not> list_all (\<lambda>c. radix_digit radix c \<noteq> None) digits then None
         else
           let v = (if negated then -1 else 1) * int (radix_value radix digits)
           in if lo \<le> v \<and> v \<le> hi then Some v else None)"

definition parse_i64 :: "ustring \<Rightarrow> int option" where "parse_i64 = parse_radix 10 (- (2 ^ 63)) (2 ^ 63 - 1)"
definition parse_u64 :: "ustring \<Rightarrow> int option" where "parse_u64 = parse_radix 10 0 (2 ^ 64 - 1)"
definition parse_i32 :: "ustring \<Rightarrow> int option" where "parse_i32 = parse_radix 10 (- (2 ^ 31)) (2 ^ 31 - 1)"

definition ascii_lower :: "char \<Rightarrow> char" where
  "ascii_lower c = (if byte_in c 0x41 0x5A then char_of (of_char c + 32 :: nat) else c)"

text \<open>\<open>parse::<f64>\<close>: a sign, then \<open>inf\<close>, \<open>infinity\<close> or \<open>nan\<close> in any case, or a decimal number.\<close>

definition parse_mantissa :: "ustring \<Rightarrow> (nat \<times> nat) option" where
  "parse_mantissa s =
     (let (a, b) = (case split_once CHR ''.'' s of None \<Rightarrow> (s, []) | Some p \<Rightarrow> p)
      in if a @ b \<noteq> [] \<and> list_all is_digit (a @ b) then Some (decimal_value (a @ b), length b) else None)"

definition parse_unsigned_f64 :: "bool \<Rightarrow> ustring \<Rightarrow> f64 option" where
  "parse_unsigned_f64 neg s =
     (let l = map ascii_lower s in
      if l = ''inf'' \<or> l = ''infinity'' then Some (signed_bits neg inf_magnitude)
      else if l = ''nan'' then Some (if neg then fneg nan_bits else nan_bits)
      else
        (let (m, x) = (case split_once CHR ''e'' l of None \<Rightarrow> (l, Some 0)
             | Some (m, x) \<Rightarrow> (m, parse_radix 10 (- (2 ^ 63)) (2 ^ 63 - 1) x))
         in case (parse_mantissa m, x) of
              (Some (n, k), Some e) \<Rightarrow> Some (round_fl neg (n * 10 ^ nat (e - int k)) (10 ^ nat (int k - e)))
            | _ \<Rightarrow> None))"

definition parse_f64 :: "ustring \<Rightarrow> f64 option" where
  "parse_f64 s =
     (case s of
        c # r \<Rightarrow> if c = CHR ''-'' then parse_unsigned_f64 True r
                else if c = CHR ''+'' then parse_unsigned_f64 False r else parse_unsigned_f64 False s
      | [] \<Rightarrow> None)"

end
