(* ===== verification/Hypr_Client.thy ===== *)
theory Hypr_Client
  imports Rust_Text
begin

text \<open>
  \<open>shelllist-hyprland/src/lib.rs\<close>: finding a compositor instance, talking to it once, and following
  its events. The operating system is the environment \<open>ipc_env\<close>: what \<open>symlink_metadata\<close>, \<open>read_dir\<close>,
  \<open>connect\<close>, the peer's credentials and the exchange over a connected socket would answer. A request
  is modelled by the commands it sends, with the socket each goes to, and its result. The deadline of
  \<open>bounded_ipc\<close> is \<open>env_expires\<close>: the number of commands already sent when it passes, if it does.
\<close>

section \<open>The client\<close>

record client =
  runtime_dir :: path
  signature :: "ustring option"

record metadata =
  meta_is_dir :: bool
  meta_is_socket :: bool
  meta_uid :: nat
  meta_mode :: nat

record ipc_env =
  env_uid :: nat
  env_metadata :: "path \<Rightarrow> metadata option"
  env_read_dir :: "path \<Rightarrow> ustring list option"
  env_connect_socket :: "path \<Rightarrow> ustring + nat option"
  env_exchange :: "path \<Rightarrow> ustring \<Rightarrow> ustring + ustring"
  env_expires :: "nat option"

text \<open>
  \<open>env_read_dir\<close> lists the names read before the end of the scan or its first error.
  \<open>env_connect_socket\<close> is the connection's error, or the peer's user if its credentials can be read.
  \<open>env_exchange\<close> is an error, or the whole reply.
\<close>

definition command_socket :: ustring where "command_socket = ''.socket.sock''"
definition event_socket_name :: ustring where "event_socket_name = ''.socket2.sock''"
definition max_event_bytes :: nat where "max_event_bytes = 64 * 1024"
definition max_reply_bytes :: nat where "max_reply_bytes = 16 * 1024 * 1024"

definition default_runtime_dir :: "nat \<Rightarrow> path" where
  "default_runtime_dir uid = components (''/run/user/'' @ decimal uid)"

definition from_environment :: "nat \<Rightarrow> environ \<Rightarrow> client" where
  "from_environment uid vars =
     \<lparr>runtime_dir = (case vars ''XDG_RUNTIME_DIR'' of Some v \<Rightarrow> components v | None \<Rightarrow> default_runtime_dir uid),
      signature = vars ''HYPRLAND_INSTANCE_SIGNATURE''\<rparr>"

definition client_new :: "path \<Rightarrow> ustring option \<Rightarrow> client" where
  "client_new dir sig = \<lparr>runtime_dir = dir, signature = sig\<rparr>"

definition is_ascii_alphanumeric :: "char \<Rightarrow> bool" where
  "is_ascii_alphanumeric c \<longleftrightarrow> byte_in c 0x30 0x39 \<or> byte_in c 0x41 0x5A \<or> byte_in c 0x61 0x7A"

definition valid_signature :: "ustring \<Rightarrow> bool" where
  "valid_signature s \<longleftrightarrow> s \<noteq> [] \<and> \<not> (s = ''.'' \<or> s = ''..'')
     \<and> list_all (\<lambda>c. is_ascii_alphanumeric c \<or> c \<in> set ''_-.'') s"

definition instance_signature :: "client \<Rightarrow> ustring + ustring option" where
  "instance_signature cl =
     (case signature cl of
        None \<Rightarrow> ok None
      | Some v \<Rightarrow>
          if \<not> utf8_valid v then err ''HYPRLAND_INSTANCE_SIGNATURE is not valid Unicode''
          else if \<not> valid_signature v then err ''invalid HYPRLAND_INSTANCE_SIGNATURE''
          else ok (Some v))"

definition roots :: "client \<Rightarrow> path list" where
  "roots cl =
     (let runtime = join (runtime_dir cl) (components ''hypr''); temporary = components ''/tmp/hypr''
      in if runtime = temporary then [runtime] else [runtime, temporary])"

section \<open>Discovery\<close>

definition add_socket :: "ipc_env \<Rightarrow> path list \<Rightarrow> path \<Rightarrow> path list" where
  "add_socket env candidates p =
     (case parent p of
        None \<Rightarrow> candidates
      | Some dir \<Rightarrow>
          if p \<notin> set candidates
             \<and> (case env_metadata env dir of
                  Some m \<Rightarrow> meta_is_dir m \<and> meta_uid m = env_uid env \<and> and (meta_mode m) 0x12 = 0 | None \<Rightarrow> False)
             \<and> (case env_metadata env p of
                  Some m \<Rightarrow> meta_is_socket m \<and> meta_uid m = env_uid env | None \<Rightarrow> False)
          then candidates @ [p] else candidates)"

definition exact_socket_candidates :: "ipc_env \<Rightarrow> path list \<Rightarrow> ustring \<Rightarrow> ustring \<Rightarrow> path list" where
  "exact_socket_candidates env rs sig socket =
     fold (\<lambda>r cs. add_socket env cs (join (join r (components sig)) (components socket))) rs []"

definition root_paths :: "ipc_env \<Rightarrow> ustring \<Rightarrow> path \<Rightarrow> path list" where
  "root_paths env socket r =
     (case env_read_dir env r of
        None \<Rightarrow> []
      | Some names \<Rightarrow> sort (map (\<lambda>n. join (join r [Normal n]) (components socket)) names))"

definition socket_candidates :: "ipc_env \<Rightarrow> path list \<Rightarrow> ustring option \<Rightarrow> ustring \<Rightarrow> path list" where
  "socket_candidates env rs sig socket =
     fold (\<lambda>r cs. fold (\<lambda>p cs. add_socket env cs p) (root_paths env socket r) cs) rs
       (case sig of Some s \<Rightarrow> exact_socket_candidates env rs s socket | None \<Rightarrow> [])"

section \<open>One request\<close>

definition validate_peer :: "ipc_env \<Rightarrow> nat option \<Rightarrow> ustring option" where
  "validate_peer env peer =
     (case peer of
        None \<Rightarrow> Some ''read Hyprland peer credentials''
      | Some u \<Rightarrow> if u = env_uid env then None else Some ''Hyprland socket peer belongs to a different user'')"

text \<open>
  An error is its chain of messages, outermost first, as \<open>anyhow\<close> keeps it. \<open>display\<close> prints a path.
\<close>

type_synonym chain = "ustring list"

fun connect_loop :: "(path \<Rightarrow> ustring) \<Rightarrow> ipc_env \<Rightarrow> path list \<Rightarrow> chain option \<Rightarrow> chain + path" where
  "connect_loop display env [] last_error =
     (case last_error of
        Some e \<Rightarrow> err (''no reachable Hyprland IPC instance is available'' # e)
      | None \<Rightarrow> err [''no active Hyprland IPC instance is available''])"
| "connect_loop display env (p # ps) last_error =
     (case env_connect_socket env p of
        Inl e \<Rightarrow> connect_loop display env ps (Some [''connect to Hyprland socket '' @ display p, e])
      | Inr peer \<Rightarrow>
          (case validate_peer env peer of
             None \<Rightarrow> ok p
           | Some e \<Rightarrow> connect_loop display env ps (Some [''connect to Hyprland socket '' @ display p, e])))"

definition connect_candidates :: "(path \<Rightarrow> ustring) \<Rightarrow> ipc_env \<Rightarrow> path list \<Rightarrow> chain + path" where
  "connect_candidates display env ps = connect_loop display env ps None"

definition request_socket :: "ipc_env \<Rightarrow> path \<Rightarrow> ustring \<Rightarrow> chain + ustring" where
  "request_socket env p command =
     (case env_exchange env p command of
        Inl e \<Rightarrow> err [e]
      | Inr reply \<Rightarrow>
          let response = take (max_reply_bytes + 1) reply
          in if max_reply_bytes < length response then err [''Hyprland reply is too large'']
             else if \<not> utf8_valid response then err [''Hyprland reply is not valid UTF-8'']
             else ok response)"

text \<open>The operation under the deadline: what it sends, and its result if it is in time.\<close>

definition bounded_ipc ::
  "ipc_env \<Rightarrow> (path \<times> ustring) list \<times> (chain + 'a) \<Rightarrow> (path \<times> ustring) list \<times> (chain + 'a)"
where
  "bounded_ipc env op =
     (case env_expires env of
        None \<Rightarrow> op
      | Some n \<Rightarrow> (take n (fst op), err [''Hyprland IPC timed out'']))"

definition exchange_on :: "ipc_env \<Rightarrow> ustring \<Rightarrow> chain + path \<Rightarrow> (path \<times> ustring) list \<times> (chain + ustring)" where
  "exchange_on env command connection =
     (case connection of Inl e \<Rightarrow> ([], err e) | Inr p \<Rightarrow> ([(p, command)], request_socket env p command))"

definition connect :: "(path \<Rightarrow> ustring) \<Rightarrow> ipc_env \<Rightarrow> client \<Rightarrow> ustring \<Rightarrow> chain + path" where
  "connect display env cl socket =
     (case instance_signature cl of
        Inl e \<Rightarrow> err [e]
      | Inr sig \<Rightarrow> connect_candidates display env (socket_candidates env (roots cl) sig socket))"

definition send_request ::
  "(path \<Rightarrow> ustring) \<Rightarrow> ipc_env \<Rightarrow> client \<Rightarrow> ustring \<Rightarrow> (path \<times> ustring) list \<times> (chain + ustring)"
where
  "send_request display env cl command =
     bounded_ipc env (exchange_on env command (connect display env cl command_socket))"

definition request_exact ::
  "(path \<Rightarrow> ustring) \<Rightarrow> ipc_env \<Rightarrow> client \<Rightarrow> ustring \<Rightarrow> (path \<times> ustring) list \<times> (chain + ustring)"
where
  "request_exact display env cl command =
     bounded_ipc env
       (case instance_signature cl of
          Inl e \<Rightarrow> ([], err [e])
        | Inr None \<Rightarrow> ([], err [''exact Hyprland request requires an instance signature''])
        | Inr (Some sig) \<Rightarrow>
            exchange_on env command
              (connect_candidates display env (exact_socket_candidates env (roots cl) sig command_socket)))"

definition event_socket :: "(path \<Rightarrow> ustring) \<Rightarrow> ipc_env \<Rightarrow> client \<Rightarrow> chain + path" where
  "event_socket display env cl = snd (bounded_ipc env ([], connect display env cl event_socket_name))"

section \<open>Events\<close>

datatype hypr_event = Connected | Disconnected "ustring option" | ConnectFailed ustring | Message ustring

text \<open>What a connection still delivers: the bytes, and the error that ends them, if any.\<close>

type_synonym event_stream = "ustring \<times> ustring option"

text \<open>\<open>take(n).read_until(LF)\<close>: the bytes read, or the error, and what is left.\<close>

definition read_until :: "nat \<Rightarrow> event_stream \<Rightarrow> (ustring + ustring) \<times> event_stream" where
  "read_until n st =
     (case st of (bs, e) \<Rightarrow>
        let line = takeWhile (\<lambda>c. c \<noteq> LF) (take n bs)
        in if length line < min n (length bs)
           then (ok (line @ [LF]), (drop (length line + 1) bs, e))
           else if n \<le> length bs then (ok line, (drop n bs, e))
           else (case e of Some m \<Rightarrow> (err m, ([], e)) | None \<Rightarrow> (ok line, ([], e))))"

definition trim_line :: "ustring \<Rightarrow> ustring" where
  "trim_line bs =
     (if bs \<noteq> [] \<and> last bs = LF
      then (let b = butlast bs in if b \<noteq> [] \<and> last b = CR then butlast b else b)
      else bs)"

definition read_event :: "event_stream \<Rightarrow> (ustring + ustring option) \<times> event_stream" where
  "read_event st =
     (case read_until (max_event_bytes + 1) st of
        (Inl m, st') \<Rightarrow> (err m, st')
      | (Inr bs, st') \<Rightarrow>
          if max_event_bytes < length bs then (err ''Hyprland event is too large'', st')
          else if bs = [] then (ok None, st')
          else if utf8_valid (trim_line bs) then (ok (Some (trim_line bs)), st')
          else (err ''invalid utf-8'', st'))"

lemma read_event_consumes:
  "read_event st = (Inr (Some l), st') \<Longrightarrow> length (fst st') < length (fst st)"
  by (auto simp: read_event_def read_until_def Let_def split: if_splits prod.splits option.splits sum.splits)

text \<open>The events of one connection behind \<open>Connected\<close>, the last of them \<open>Disconnected\<close>.\<close>

function read_loop :: "event_stream \<Rightarrow> hypr_event list" where
  "read_loop st =
     (case read_event st of
        (Inr (Some l), st') \<Rightarrow> Message l # read_loop st'
      | (Inr None, st') \<Rightarrow> [Disconnected None]
      | (Inl e, st') \<Rightarrow> [Disconnected (Some e)])"
  by pat_completeness auto
termination
  by (relation "measure (\<lambda>st. length (fst st))") (auto dest!: sym[of "(_, _)"] read_event_consumes)

declare read_loop.simps [simp del]

definition forward_events :: "event_stream \<Rightarrow> hypr_event list" where
  "forward_events st = Connected # read_loop st"

text \<open>\<open>{:#}\<close>\<close>

fun chain_text :: "chain \<Rightarrow> ustring" where
  "chain_text [] = []"
| "chain_text [m] = m"
| "chain_text (m # ms) = m @ '': '' @ chain_text ms"

text \<open>One attempt to connect after another, each behind the fixed delay.\<close>

fun reconnect_events :: "ustring option \<Rightarrow> (chain + event_stream) list \<Rightarrow> hypr_event list" where
  "reconnect_events last_error [] = []"
| "reconnect_events last_error (Inr st # attempts) = forward_events st @ reconnect_events None attempts"
| "reconnect_events last_error (Inl e # attempts) =
     (let cause = chain_text e
      in if last_error \<noteq> Some cause then ConnectFailed cause # reconnect_events (Some cause) attempts
         else reconnect_events last_error attempts)"

text \<open>The receiver closes after \<open>n\<close> events.\<close>

definition watch_events_with :: "(hypr_event \<Rightarrow> 'e) \<Rightarrow> nat \<Rightarrow> (chain + event_stream) list \<Rightarrow> 'e list" where
  "watch_events_with f n attempts = map f (take n (reconnect_events None attempts))"

section \<open>Only the user's own instances\<close>

text \<open>A socket in a directory of the same user that nobody else can write to, and a peer of that user.\<close>

definition owned_socket :: "ipc_env \<Rightarrow> path \<Rightarrow> bool" where
  "owned_socket env p \<longleftrightarrow>
     (\<exists>dir md mp. parent p = Some dir \<and> env_metadata env dir = Some md \<and> env_metadata env p = Some mp
        \<and> meta_is_dir md \<and> meta_uid md = env_uid env \<and> and (meta_mode md) 0x12 = 0
        \<and> meta_is_socket mp \<and> meta_uid mp = env_uid env)"

definition trusted_peer :: "ipc_env \<Rightarrow> path \<Rightarrow> bool" where
  "trusted_peer env p \<longleftrightarrow> env_connect_socket env p = Inr (Some (env_uid env))"

lemma add_socket_set: "set (add_socket env cs p) = set cs \<union> (if owned_socket env p then {p} else {})"
  by (auto simp: add_socket_def owned_socket_def split: option.splits)

lemma add_sockets_set:
  "set (fold (\<lambda>p cs. add_socket env cs p) ps cs) = set cs \<union> {p \<in> set ps. owned_socket env p}"
  by (induction ps arbitrary: cs) (auto simp: add_socket_set)

lemma exact_candidates_set:
  "set (exact_socket_candidates env rs sig socket)
    = {p. owned_socket env p \<and> (\<exists>r\<in>set rs. p = join (join r (components sig)) (components socket))}"
proof -
  have "set (fold (\<lambda>r cs. add_socket env cs (join (join r (components sig)) (components socket))) rs cs)
    = set cs \<union> {p. owned_socket env p \<and> (\<exists>r\<in>set rs. p = join (join r (components sig)) (components socket))}" for cs
    by (induction rs arbitrary: cs) (auto simp: add_socket_set)
  then show ?thesis by (simp add: exact_socket_candidates_def)
qed

lemma candidates_set:
  "p \<in> set (socket_candidates env rs sig socket) \<Longrightarrow> owned_socket env p"
proof -
  have "set (fold (\<lambda>r cs. fold (\<lambda>p cs. add_socket env cs p) (root_paths env socket r) cs) rs cs)
      \<subseteq> set cs \<union> Collect (owned_socket env)" for cs
    by (induction rs arbitrary: cs) (use add_sockets_set in fastforce)+
  then show "p \<in> set (socket_candidates env rs sig socket) \<Longrightarrow> owned_socket env p"
    by (fastforce simp: socket_candidates_def exact_candidates_set split: option.splits)
qed

lemma connect_loop_trusted: "connect_loop display env ps e = Inr p \<Longrightarrow> p \<in> set ps \<and> trusted_peer env p"
  by (induction ps arbitrary: e)
     (auto simp: trusted_peer_def validate_peer_def split: option.splits sum.splits if_splits)

lemma connect_trusted:
  "connect_candidates display env ps = Inr p \<Longrightarrow> p \<in> set ps \<and> trusted_peer env p"
  unfolding connect_candidates_def by (rule connect_loop_trusted)

text \<open>An operation sends at most the given command, once, over a socket with the given property.\<close>

definition sends_only :: "(path \<Rightarrow> bool) \<Rightarrow> ustring \<Rightarrow> (path \<times> ustring) list \<times> (chain + 'a) \<Rightarrow> bool" where
  "sends_only Q cmd op \<longleftrightarrow> fst op = [] \<or> (\<exists>p. fst op = [(p, cmd)] \<and> Q p)"

lemma exchange_sends:
  "(\<And>p. c = Inr p \<Longrightarrow> Q p) \<Longrightarrow> sends_only Q cmd (bounded_ipc env (exchange_on env cmd c))"
  by (auto simp: sends_only_def bounded_ipc_def exchange_on_def take_Cons' split: option.splits sum.splits)

lemma sends_nothing: "sends_only (\<lambda>_. False) cmd op \<longleftrightarrow> fst op = []"
  by (simp add: sends_only_def)

lemma exchange_reply:
  "snd (bounded_ipc env (exchange_on env cmd c)) = Inr reply \<Longrightarrow> length reply \<le> max_reply_bytes \<and> utf8_valid reply"
  by (auto simp: bounded_ipc_def exchange_on_def request_socket_def Let_def split: option.splits sum.splits if_splits)

lemma valid_signature_component:
  assumes "valid_signature s"
  shows "components s = [Normal s]"
proof -
  have "CHR ''/'' \<notin> set s"
    using assms by (auto simp: valid_signature_def list_all_iff is_ascii_alphanumeric_def byte_in_def)
  then have "split_on CHR ''/'' s = [s]" by (rule split_on_single)
  moreover have "take 1 s \<noteq> ''/''"
    using \<open>CHR ''/'' \<notin> set s\<close> by (cases s) auto
  ultimately show ?thesis
    using assms by (auto simp: components_def valid_signature_def)
qed

lemma command_socket_component: "components command_socket = [Normal command_socket]"
  by code_simp

lemma exact_path: "valid_signature s \<Longrightarrow>
    join (join r (components s)) (components command_socket) = r @ [Normal s, Normal command_socket]"
  using join_normal[of r "[s]"] join_normal[of "r @ [Normal s]" "[command_socket]"]
  by (simp add: valid_signature_component command_socket_component)

lemma instance_signature_ok:
  "instance_signature cl = Inr sig \<Longrightarrow> sig = signature cl \<and> (\<forall>v. sig = Some v \<longrightarrow> utf8_valid v \<and> valid_signature v)"
  by (auto simp: instance_signature_def split: option.splits if_splits)

definition usable_signature :: "client \<Rightarrow> bool" where
  "usable_signature cl \<longleftrightarrow> (\<forall>v. signature cl = Some v \<longrightarrow> utf8_valid v \<and> valid_signature v)"

lemma send_request_only:
  "sends_only (\<lambda>p. owned_socket env p \<and> trusted_peer env p \<and> usable_signature cl) cmd (send_request display env cl cmd)"
  unfolding send_request_def
proof (rule exchange_sends)
  fix p
  assume "connect display env cl command_socket = Inr p"
  then obtain sig where sig: "instance_signature cl = Inr sig"
      "connect_candidates display env (socket_candidates env (roots cl) sig command_socket) = Inr p"
    by (auto simp: connect_def split: sum.splits)
  show "owned_socket env p \<and> trusted_peer env p \<and> usable_signature cl"
    using connect_trusted[OF sig(2)] candidates_set instance_signature_ok[OF sig(1)] by (auto simp: usable_signature_def)
qed

definition own_instance :: "client \<Rightarrow> path \<Rightarrow> bool" where
  "own_instance cl p \<longleftrightarrow>
     (\<exists>sig. signature cl = Some sig \<and> (\<exists>r\<in>set (roots cl). p = r @ [Normal sig, Normal command_socket]))"

lemma request_exact_only:
  "sends_only (\<lambda>p. owned_socket env p \<and> trusted_peer env p \<and> own_instance cl p \<and> usable_signature cl) cmd
     (request_exact display env cl cmd)"
proof (cases "\<exists>sig. instance_signature cl = Inr (Some sig)")
  case True
  then obtain sig where sig: "instance_signature cl = Inr (Some sig)" by blast
  note valid = instance_signature_ok[OF sig]
  show ?thesis
    unfolding request_exact_def sig sum.case option.case
  proof (rule exchange_sends)
    fix p
    assume "connect_candidates display env (exact_socket_candidates env (roots cl) sig command_socket) = Inr p"
    from connect_trusted[OF this] show "owned_socket env p \<and> trusted_peer env p \<and> own_instance cl p \<and> usable_signature cl"
      using valid by (auto simp: exact_candidates_set exact_path own_instance_def usable_signature_def)
  qed
next
  case False
  then have "fst (request_exact display env cl cmd) = []"
    by (auto simp: request_exact_def bounded_ipc_def split: sum.splits option.splits)
  then show ?thesis by (simp add: sends_only_def)
qed

lemma request_reply:
  "snd (send_request display env cl cmd) = Inr reply \<Longrightarrow> length reply \<le> max_reply_bytes \<and> utf8_valid reply"
  "snd (request_exact display env cl cmd) = Inr reply \<Longrightarrow> length reply \<le> max_reply_bytes \<and> utf8_valid reply"
proof -
  show "snd (send_request display env cl cmd) = Inr reply \<Longrightarrow> length reply \<le> max_reply_bytes \<and> utf8_valid reply"
    unfolding send_request_def by (rule exchange_reply)
  assume r: "snd (request_exact display env cl cmd) = Inr reply"
  then obtain sig where "instance_signature cl = Inr (Some sig)"
    by (auto simp: request_exact_def bounded_ipc_def split: sum.splits option.splits)
  with r show "length reply \<le> max_reply_bytes \<and> utf8_valid reply"
    unfolding request_exact_def by (simp add: exchange_reply)
qed

text \<open>
  C28. Commands reach one instance of the user, or none. Whatever the directories hold, a request
  sends its command at most once, and only over a socket that, with its directory, belongs to the
  user, cannot be replaced by others, and whose peer is the user. An exact request sends it only to
  the configured instance, under one of the two roots. With a malformed signature neither sends
  anything. A reply handed out is valid UTF-8 within its bound.
\<close>

theorem commands_reach_own_instance:
  "sends_only (\<lambda>p. owned_socket env p \<and> trusted_peer env p \<and> usable_signature cl) cmd (send_request display env cl cmd)
   \<and> sends_only (\<lambda>p. owned_socket env p \<and> trusted_peer env p \<and> own_instance cl p \<and> usable_signature cl) cmd
       (request_exact display env cl cmd)
   \<and> (case snd (send_request display env cl cmd) of
        Inr reply \<Rightarrow> length reply \<le> max_reply_bytes \<and> utf8_valid reply | Inl _ \<Rightarrow> True)
   \<and> (case snd (request_exact display env cl cmd) of
        Inr reply \<Rightarrow> length reply \<le> max_reply_bytes \<and> utf8_valid reply | Inl _ \<Rightarrow> True)"
  using send_request_only request_exact_only request_reply by (auto split: sum.split)

section \<open>What a connection delivers\<close>

text \<open>The reference: the text cut at every LF, the last part being the unterminated rest.\<close>

fun stream_events :: "ustring option \<Rightarrow> ustring list \<Rightarrow> hypr_event list" where
  "stream_events e [] = []"
| "stream_events e [rest] =
     (if max_event_bytes < length rest then [Disconnected (Some ''Hyprland event is too large'')]
      else (case e of
          Some m \<Rightarrow> [Disconnected (Some m)]
        | None \<Rightarrow>
            if rest = [] then [Disconnected None]
            else if utf8_valid rest then [Message rest, Disconnected None]
            else [Disconnected (Some ''invalid utf-8'')]))"
| "stream_events e (l # ls) =
     (if max_event_bytes < length l + 1 then [Disconnected (Some ''Hyprland event is too large'')]
      else if utf8_valid (strip_cr l) then Message (strip_cr l) # stream_events e ls
      else [Disconnected (Some ''invalid utf-8'')])"

lemma trim_line_simps: "trim_line (l @ [LF]) = strip_cr l" "LF \<notin> set l \<Longrightarrow> trim_line l = l"
proof -
  show "trim_line (l @ [LF]) = strip_cr l" by (simp add: trim_line_def strip_cr_def Let_def)
  assume "LF \<notin> set l"
  then have "\<not> (l \<noteq> [] \<and> last l = LF)" by (metis last_in_set)
  then show "trim_line l = l" by (simp only: trim_line_def if_False)
qed

lemma takeWhile_no: "x \<notin> set l \<Longrightarrow> takeWhile (\<lambda>c. c \<noteq> x) l = l"
  by (induction l) auto

lemma read_until_line:
  assumes "LF \<notin> set l"
  shows "read_until n (l @ LF # r, e) = (if length l < n then (Inr (l @ [LF]), (r, e)) else (Inr (take n l), (drop n l @ LF # r, e)))"
proof -
  have tw: "takeWhile (\<lambda>c. c \<noteq> LF) (take n (l @ LF # r)) = take n l"
  proof (cases "length l < n")
    case True
    then obtain k where "n - length l = Suc k" by (cases "n - length l") auto
    then show ?thesis using True assms by (simp add: takeWhile_append takeWhile_no)
  next
    case False
    have "LF \<notin> set (take n l)" using assms by (auto dest: in_set_takeD)
    then show ?thesis using False by (simp add: takeWhile_no)
  qed
  show ?thesis
    unfolding read_until_def prod.case Let_def tw by (cases "length l < n") simp_all
qed

lemma read_until_rest:
  assumes "LF \<notin> set l"
  shows "read_until n (l, e) = (if n \<le> length l then (Inr (take n l), (drop n l, e))
    else (case e of Some m \<Rightarrow> Inl m | None \<Rightarrow> Inr l, ([], e)))"
proof -
  have "LF \<notin> set (take n l)" using assms by (auto dest: in_set_takeD)
  then have tw: "takeWhile (\<lambda>c. c \<noteq> LF) (take n l) = take n l" by (rule takeWhile_no)
  show ?thesis
    unfolding read_until_def prod.case Let_def tw by (cases "n \<le> length l"; cases e) simp_all
qed

lemma read_loop_end: "read_loop ([], None) = [Disconnected None]"
  by (subst read_loop.simps) (simp add: read_event_def read_until_def)

lemma read_loop_stream: "read_loop (bs, e) = stream_events e (split_on LF bs)"
proof (induction "length bs" arbitrary: bs rule: less_induct)
  case less
  show ?case
  proof (cases "LF \<in> set bs")
    case True
    then obtain l r where bs: "bs = l @ LF # r" "LF \<notin> set l" by (metis split_list_first)
    have IH: "read_loop (r, e) = stream_events e (split_on LF r)" using less bs by simp
    obtain p ps where ps: "split_on LF r = p # ps" by (cases "split_on LF r") auto
    show ?thesis
    proof (cases "length l < max_event_bytes")
      case True
      then show ?thesis
        using bs by (subst read_loop.simps)
          (simp add: read_event_def read_until_line trim_line_simps split_on_append ps IH)
    next
      case False
      then show ?thesis
        using bs by (subst read_loop.simps)
          (auto simp add: read_event_def read_until_line split_on_append ps)
    qed
  next
    case False
    then show ?thesis
      by (subst read_loop.simps)
         (auto simp: read_event_def read_until_rest trim_line_simps split_on_single read_loop_end split: option.split)
  qed
qed

lemma reconnect_failures:
  "reconnect_events (Some c) (map Inl es @ as) = map ConnectFailed (tl (remdups_adj (c # map chain_text es)))
     @ reconnect_events (Some (last (c # map chain_text es))) as"
proof (induction es arbitrary: c)
  case (Cons e es)
  show ?case
    using Cons[of "chain_text e"] by (auto simp: Let_def remdups_adj_Cons split: list.split)
qed simp

text \<open>
  C29. The event stream is cut and reported faithfully. A run of failures to connect is reported once
  for each change of cause; a connection is announced, delivers its lines in order, each less its
  line end and within the bound, and is closed with one \<open>Disconnected\<close>, after which the next failure
  is reported afresh. Only a clean end yields \<open>Disconnected None\<close>, behind the unterminated rest if
  there is one.
\<close>

theorem event_stream_reference:
  "reconnect_events None (map Inl es) = map ConnectFailed (remdups_adj (map chain_text es))
   \<and> reconnect_events None (map Inl es @ Inr (bs, e) # attempts) =
       map ConnectFailed (remdups_adj (map chain_text es))
       @ Connected # stream_events e (split_on LF bs) @ reconnect_events None attempts"
proof (cases es)
  case Nil
  then show ?thesis by (simp add: forward_events_def read_loop_stream)
next
  case (Cons f fs)
  have tl: "map ConnectFailed (remdups_adj (chain_text f # map chain_text fs))
      = ConnectFailed (chain_text f) # map ConnectFailed (tl (remdups_adj (chain_text f # map chain_text fs)))"
    by (metis list.map(2) remdups_adj_Cons_alt)
  show ?thesis
    using reconnect_failures[of "chain_text f" fs "[]"] reconnect_failures[of "chain_text f" fs "Inr (bs, e) # attempts"]
    by (simp add: Cons Let_def forward_events_def read_loop_stream tl)
qed

end
