(* ===== verification/Hypr_Monitor.thy ===== *)
theory Hypr_Monitor
  imports Fixed_Decimal Hypr_Client
begin

text \<open>
  \<open>shelllist-hyprland/src/monitor.rs\<close>, the encoding of one monitor rule as a Lua call, and
  \<open>preferences.rs\<close>. How \<open>Display\<close> prints an \<open>f64\<close> is the parameter \<open>display\<close>, of which
  \<open>display_laws\<close> states what the standard library documents; \<open>serde\<close>'s decoding is a parameter too.
\<close>

section \<open>Rules\<close>

datatype mode = Preferred | ExactMode ustring
datatype position = AutoPosition | ExactPosition "32 word" "32 word"

text \<open>Coordinates are \<open>i32\<close>, the transform is a \<open>u8\<close>.\<close>

datatype monitor_rule =
    DisableMonitor
  | EnableMonitor (rule_mode: mode) (rule_position: position) (rule_scale: f64) (rule_transform: "8 word option")
      (rule_mirror: ustring)

definition is_identifier :: "ustring \<Rightarrow> bool" where
  "is_identifier s \<longleftrightarrow> s \<noteq> [] \<and> list_all (\<lambda>c. is_ascii_alphanumeric c \<or> c \<in> set ''-_'') s"

definition signed_decimal :: "32 word \<Rightarrow> ustring" where
  "signed_decimal w = (if sint w < 0 then CHR ''-'' # decimal (nat (- sint w)) else decimal (nat (sint w)))"

section \<open>Reading a mode\<close>

text \<open>\<open>parse::<u32>\<close> and \<open>parse::<f64>\<close> of a text without signs, exponents and letters.\<close>

definition parse_u32 :: "ustring \<Rightarrow> nat option" where
  "parse_u32 s = (if s \<noteq> [] \<and> list_all is_digit s \<and> decimal_value s < 2 ^ 32 then Some (decimal_value s) else None)"

text \<open>The digits without the point, and the number of digits behind it.\<close>

definition parse_decimal :: "ustring \<Rightarrow> (nat \<times> nat) option" where
  "parse_decimal s =
     (case split_once CHR ''.'' s of
        None \<Rightarrow> if s \<noteq> [] \<and> list_all is_digit s then Some (decimal_value s, 0) else None
      | Some (a, b) \<Rightarrow>
          if a @ b \<noteq> [] \<and> list_all is_digit (a @ b) then Some (decimal_value (a @ b), length b) else None)"

text \<open>
  \<open>n / 10 ^ k\<close> rounds to a finite \<open>f64\<close> below \<open>2 ^ 1024 - 2 ^ 970\<close>, and to a positive one above
  \<open>2 ^ -1075\<close>, half the least of them.
\<close>

definition finite_positive :: "nat \<times> nat \<Rightarrow> bool" where
  "finite_positive v \<longleftrightarrow> fst v < (2 ^ 1024 - 2 ^ 970) * 10 ^ snd v \<and> 10 ^ snd v < fst v * 2 ^ 1075"

definition mode_token :: "mode \<Rightarrow> ustring + ustring" where
  "mode_token m =
     (case m of
        Preferred \<Rightarrow> ok ''preferred''
      | ExactMode s \<Rightarrow>
          let v = (case strip_suffix ''Hz'' s of Some t \<Rightarrow> t | None \<Rightarrow> s)
          in if \<not> list_all (\<lambda>c. is_digit c \<or> c \<in> set ''x@.'') v then err ''Invalid Hyprland monitor mode''
             else
               (case split_once CHR ''@'' v of
                  None \<Rightarrow> err ''Monitor mode needs a refresh rate''
                | Some (dims, rate) \<Rightarrow>
                    (case split_once CHR ''x'' dims of
                       None \<Rightarrow> err ''Monitor mode needs dimensions''
                     | Some (width, height) \<Rightarrow>
                         (case parse_u32 width of
                            None \<Rightarrow> err ''Invalid monitor width''
                          | Some w \<Rightarrow>
                              (case parse_u32 height of
                                 None \<Rightarrow> err ''Invalid monitor height''
                               | Some h \<Rightarrow>
                                   (case parse_decimal rate of
                                      None \<Rightarrow> err ''Invalid monitor refresh rate''
                                    | Some r \<Rightarrow>
                                        if 0 < w \<and> 0 < h \<and> finite_positive r then ok v
                                        else err ''Invalid Hyprland monitor mode''))))))"

section \<open>The command\<close>

definition quoted :: "ustring \<Rightarrow> ustring" where
  "quoted s = CHR 0x22 # s @ [CHR 0x22]"

fun position_text :: "position \<Rightarrow> ustring" where
  "position_text AutoPosition = ''auto''"
| "position_text (ExactPosition x y) = signed_decimal x @ ''x'' @ signed_decimal y"

fun transform_text :: "8 word option \<Rightarrow> ustring" where
  "transform_text None = []"
| "transform_text (Some t) = '', transform = '' @ decimal (unat t)"

definition positive_finite :: "f64 \<Rightarrow> bool" where
  "positive_finite b \<longleftrightarrow> Fixed_Decimal.is_finite b \<and> \<not> negative b \<and> magnitude b \<noteq> 0"

fun monitor_command :: "(f64 \<Rightarrow> ustring) \<Rightarrow> ustring \<Rightarrow> monitor_rule \<Rightarrow> ustring + ustring" where
  "monitor_command display output DisableMonitor =
     (if \<not> is_identifier output then err ''Invalid Hyprland output identifier''
      else ok (''eval hl.monitor({ output = '' @ quoted output @ '', disabled = true })''))"
| "monitor_command display output (EnableMonitor m pos scale transform mirror) =
     (if \<not> is_identifier output then err ''Invalid Hyprland output identifier''
      else
        (case mode_token m of
           Inl e \<Rightarrow> err e
         | Inr token \<Rightarrow>
             if \<not> positive_finite scale then err ''Invalid Hyprland monitor scale''
             else if \<not> (case transform of None \<Rightarrow> True | Some t \<Rightarrow> t \<le> 7) then err ''Invalid Hyprland monitor transform''
             else if \<not> (mirror = [] \<or> is_identifier mirror) then err ''Invalid Hyprland mirror identifier''
             else ok (''eval hl.monitor({ output = '' @ quoted output @ '', disabled = false, mode = '' @ quoted token
               @ '', position = '' @ quoted (position_text pos) @ '', scale = '' @ display scale
               @ transform_text transform @ '', mirror = '' @ quoted mirror @ '' })'')))"

section \<open>Preferences\<close>

record animation_option =
  opt_name :: ustring
  opt_boolean :: "bool option"
  opt_int :: "int option"

definition parse_preferences :: "(ustring \<Rightarrow> animation_option option) \<Rightarrow> ustring \<Rightarrow> ustring + bool" where
  "parse_preferences read_option reply =
     (case read_option reply of
        None \<Rightarrow> err ''decode Hyprland animation preference''
      | Some opt \<Rightarrow>
          if opt_name opt \<noteq> ''animations:enabled'' then err ''Unexpected Hyprland animation option''
          else
            (case (opt_boolean opt, opt_int opt) of
               (Some v, None) \<Rightarrow> ok v
             | (None, Some i) \<Rightarrow>
                 if i = 0 then ok False else if i = 1 then ok True
                 else err ''Missing or invalid Hyprland animation preference''
             | (Some v, Some i) \<Rightarrow>
                 if i = of_bool v then ok v else err ''Missing or invalid Hyprland animation preference''
             | (None, None) \<Rightarrow> err ''Missing or invalid Hyprland animation preference''))"

text \<open>The name before the first \<open>>>\<close>.\<close>

fun event_name :: "ustring \<Rightarrow> ustring option" where
  "event_name (a # b # s) =
     (if a = CHR ''>'' \<and> b = CHR ''>'' then Some [] else map_option (Cons a) (event_name (b # s)))"
| "event_name _ = None"

definition preference_event :: "ustring \<Rightarrow> bool" where
  "preference_event e \<longleftrightarrow> event_name e = Some ''configreloaded''"

section \<open>The text determines the rule\<close>

text \<open>
  \<open>Display\<close> of a positive finite \<open>f64\<close> prints digits and at most a point, and different values
  differently, since it prints enough digits to read the value back.
\<close>

definition display_laws :: "(f64 \<Rightarrow> ustring) \<Rightarrow> bool" where
  "display_laws display \<longleftrightarrow>
     (\<forall>b. positive_finite b \<longrightarrow> list_all (\<lambda>c. is_digit c \<or> c = CHR ''.'') (display b))
     \<and> inj_on display {b. positive_finite b}"

abbreviation QUOTE :: char where "QUOTE \<equiv> CHR 0x22"

lemma is_digit_chars [simp]:
  "\<not> is_digit QUOTE" "\<not> is_digit CHR '',''" "\<not> is_digit CHR ''x''" "\<not> is_digit CHR ''a''" "\<not> is_digit CHR ''-''"
  by code_simp+

lemma identifier_no_quote: "is_identifier s \<Longrightarrow> QUOTE \<notin> set s"
  by (auto simp: is_identifier_def list_all_iff is_ascii_alphanumeric_def byte_in_def)

lemma decimal_no: "\<not> is_digit c \<Longrightarrow> c \<notin> set (decimal n)"
  using decimal_digits[of n] by (auto simp: list_all_iff)

lemma token_no_quote: "mode_token m = Inr t \<Longrightarrow> QUOTE \<notin> set t"
proof (cases m)
  case (ExactMode s)
  moreover assume "mode_token m = Inr t"
  ultimately have "list_all (\<lambda>c. is_digit c \<or> c \<in> set ''x@.'') t"
    by (auto simp: mode_token_def Let_def split: if_splits option.splits prod.splits)
  then show ?thesis by (auto simp: list_all_iff)
qed (auto simp: mode_token_def)

lemma signed_decimal_no: "\<not> is_digit c \<Longrightarrow> c \<noteq> CHR ''-'' \<Longrightarrow> c \<notin> set (signed_decimal w)"
  by (auto simp: signed_decimal_def decimal_no)

lemma signed_decimal_inj: "signed_decimal v = signed_decimal w \<longleftrightarrow> v = w"
proof -
  have "sint v = sint w" if "signed_decimal v = signed_decimal w"
    using that decimal_no[of "CHR ''-''"]
    by (auto simp: signed_decimal_def decimal_inj split: if_splits) (metis is_digit_chars(5) decimal_no list.set_intros(1))+
  then show ?thesis by (metis signed_word_eqI)
qed

lemma position_no_quote: "QUOTE \<notin> set (position_text p)"
  by (cases p) (auto simp: signed_decimal_no)

lemma append_split: "c \<notin> set a \<Longrightarrow> c \<notin> set a' \<Longrightarrow> a @ c # b = a' @ c # b' \<longleftrightarrow> a = a' \<and> b = b'"
proof (induction a arbitrary: a')
  case Nil
  then show ?case by (cases a') auto
next
  case (Cons x a)
  then show ?case by (cases a') auto
qed

lemma position_text_inj: "position_text p = position_text q \<longleftrightarrow> p = q"
proof -
  have auto_differs: "''auto'' \<noteq> signed_decimal x @ ''x'' @ signed_decimal y" for x y
  proof
    assume "''auto'' = signed_decimal x @ ''x'' @ signed_decimal y"
    then have "CHR ''x'' \<in> set ''auto''" by simp
    then show False by simp
  qed
  show ?thesis
    using append_split[of "CHR ''x''"] auto_differs auto_differs[symmetric]
    by (cases p; cases q) (auto simp: signed_decimal_no signed_decimal_inj)
qed

lemma transform_text_inj: "transform_text s = transform_text t \<longleftrightarrow> s = t"
  by (cases s; cases t) (auto simp: decimal_inj word_unat_eq_iff)

lemma display_chars:
  "display_laws display \<Longrightarrow> positive_finite b \<Longrightarrow> c \<in> set (display b) \<Longrightarrow> is_digit c \<or> c = CHR ''.''"
  by (simp add: display_laws_def list_all_iff)

lemma display_no_quote: "display_laws display \<Longrightarrow> positive_finite b \<Longrightarrow> QUOTE \<notin> set (display b)"
  using display_chars is_digit_chars(1) by blast

lemma scale_text_inj:
  assumes "display_laws display" "positive_finite a" "positive_finite b"
  shows "display a @ transform_text s @ '', mirror = '' = display b @ transform_text t @ '', mirror = '' \<longleftrightarrow> a = b \<and> s = t"
proof -
  have no: "CHR '','' \<notin> set (display c)" if "positive_finite c" for c
    using display_chars[OF assms(1) that] is_digit_chars(2) by blast
  have comma: "\<exists>r. transform_text u @ '', mirror = '' = CHR '','' # r" for u
    by (cases u) auto
  have "a = b \<and> s = t"
    if eq: "display a @ transform_text s @ '', mirror = '' = display b @ transform_text t @ '', mirror = ''"
  proof -
    obtain r r' where r: "transform_text s @ '', mirror = '' = CHR '','' # r" "transform_text t @ '', mirror = '' = CHR '','' # r'"
      using comma by metis
    then have "display a = display b" "r = r'"
      using eq append_split[OF no[OF assms(2)] no[OF assms(3)], of r r'] by auto
    moreover from this r have "transform_text s = transform_text t" by (metis append_same_eq)
    ultimately show ?thesis
      using assms by (auto simp: display_laws_def transform_text_inj dest: inj_onD)
  qed
  then show ?thesis by blast
qed

lemma transform_no_quote: "QUOTE \<notin> set (transform_text t)"
  by (cases t) (auto simp: decimal_no)

text \<open>The parts of a command between its quotes: the fixed ones, and one for each field.\<close>

fun command_parts :: "(f64 \<Rightarrow> ustring) \<Rightarrow> ustring \<Rightarrow> monitor_rule \<Rightarrow> ustring list" where
  "command_parts display output DisableMonitor = [''eval hl.monitor({ output = '', output, '', disabled = true })'']"
| "command_parts display output (EnableMonitor m pos scale transform mirror) =
     [''eval hl.monitor({ output = '', output, '', disabled = false, mode = '', projr (mode_token m), '', position = '',
      position_text pos, '', scale = '' @ display scale @ transform_text transform @ '', mirror = '', mirror, '' })'']"

text \<open>Rules the compositor is told the same about: a mode with or without its unit.\<close>

fun same_rule :: "monitor_rule \<Rightarrow> monitor_rule \<Rightarrow> bool" where
  "same_rule DisableMonitor DisableMonitor = True"
| "same_rule (EnableMonitor m p s t u) (EnableMonitor m' p' s' t' u') \<longleftrightarrow>
     mode_token m = mode_token m' \<and> p = p' \<and> s = s' \<and> t = t' \<and> u = u'"
| "same_rule _ _ = False"

fun rule_ok :: "monitor_rule \<Rightarrow> bool" where
  "rule_ok DisableMonitor = True"
| "rule_ok (EnableMonitor m pos scale transform mirror) \<longleftrightarrow>
     (\<exists>token. mode_token m = Inr token) \<and> positive_finite scale \<and> (\<forall>t. transform = Some t \<longrightarrow> t \<le> 7)
     \<and> (mirror = [] \<or> is_identifier mirror)"

fun glue :: "char \<Rightarrow> ustring list \<Rightarrow> ustring" where
  "glue c [] = []"
| "glue c [p] = p"
| "glue c (p # ps) = p @ c # glue c ps"

lemma split_on_glue: "list_all (\<lambda>p. c \<notin> set p) ps \<Longrightarrow> ps \<noteq> [] \<Longrightarrow> split_on c (glue c ps) = ps"
  by (induction c ps rule: glue.induct) (simp_all add: split_on_append split_on_single)

lemma command_accepts:
  "(\<exists>text. monitor_command display output rule = Inr text) \<longleftrightarrow> is_identifier output \<and> rule_ok rule"
  by (cases rule) (auto split: sum.splits option.splits if_splits)

lemma command_split:
  assumes "display_laws display" "monitor_command display output rule = Inr text"
  shows "split_on QUOTE text = command_parts display output rule"
proof -
  have no_out: "QUOTE \<notin> set output"
    using assms(2) command_accepts identifier_no_quote by blast
  show ?thesis
  proof (cases rule)
    case DisableMonitor
    then have "text = glue QUOTE (command_parts display output rule)"
      using assms(2) by (auto simp: quoted_def split: if_splits)
    moreover have "list_all (\<lambda>p. QUOTE \<notin> set p) (command_parts display output rule)"
      "command_parts display output rule \<noteq> []"
      using no_out by (simp_all add: DisableMonitor)
    ultimately show ?thesis using split_on_glue by metis
  next
    case (EnableMonitor m pos scale transform mirror)
    then obtain token where token: "mode_token m = Inr token" "positive_finite scale"
      "mirror = [] \<or> is_identifier mirror"
      and command: "text = ''eval hl.monitor({ output = '' @ quoted output @ '', disabled = false, mode = '' @ quoted token
               @ '', position = '' @ quoted (position_text pos) @ '', scale = '' @ display scale
               @ transform_text transform @ '', mirror = '' @ quoted mirror @ '' })''"
      using assms(2) by (auto split: if_splits sum.splits)
    have no: "QUOTE \<notin> set token" "QUOTE \<notin> set (position_text pos)" "QUOTE \<notin> set mirror"
      "QUOTE \<notin> set ('', scale = '' @ display scale @ transform_text transform @ '', mirror = '')"
      using token token_no_quote identifier_no_quote position_no_quote display_no_quote[OF assms(1)] transform_no_quote
      by auto
    have "text = glue QUOTE (command_parts display output rule)"
      unfolding command quoted_def EnableMonitor command_parts.simps token(1) sum.sel by simp
    moreover have "list_all (\<lambda>p. QUOTE \<notin> set p) (command_parts display output rule)"
      unfolding EnableMonitor command_parts.simps token(1) sum.sel using no_out no by simp
    moreover have "command_parts display output rule \<noteq> []" by (simp add: EnableMonitor)
    ultimately show ?thesis using split_on_glue by metis
  qed
qed

text \<open>
  C39. Round trip of a monitor command. A rule is accepted exactly when its output, mode, scale,
  transform and mirror are valid. Cut at its quotes, the command's text is the fixed Lua call with the
  given fields in their places, so no field can close its string and inject code; and the text
  determines the output and the rule, except whether a mode was written with its unit.
\<close>

theorem command_roundtrip:
  assumes "display_laws display"
  shows "((\<exists>text. monitor_command display output rule = Inr text) \<longleftrightarrow> is_identifier output \<and> rule_ok rule)
    \<and> (\<forall>text. monitor_command display output rule = Inr text \<longrightarrow>
         split_on QUOTE text = command_parts display output rule
         \<and> (\<forall>output' rule'. monitor_command display output' rule' = Inr text \<longrightarrow> output' = output \<and> same_rule rule rule'))"
proof -
  have "output' = output \<and> same_rule rule rule'"
    if "monitor_command display output rule = Inr cmd" "monitor_command display output' rule' = Inr cmd"
    for cmd output' rule'
  proof -
    have eq: "command_parts display output rule = command_parts display output' rule'"
      using command_split[OF assms] that by metis
    have ok: "rule_ok rule" "rule_ok rule'" using command_accepts that by metis+
    show ?thesis
      using eq ok by (cases rule; cases rule') (auto simp: position_text_inj scale_text_inj[OF assms, simplified])
  qed
  then show ?thesis using command_accepts command_split[OF assms] by blast
qed

definition demo_display :: "f64 \<Rightarrow> ustring" where
  "demo_display b = decimal (unat b)"

lemma demo_display_laws: "display_laws demo_display"
  using decimal_digits
  by (auto simp: display_laws_def demo_display_def list_all_iff inj_on_def decimal_inj word_unat_eq_iff)

definition demo_rule :: monitor_rule where
  "demo_rule = EnableMonitor (ExactMode ''640x480@59.9Hz'') AutoPosition 0x3FF0000000000000 (Some 7) ''''"

lemma demo_rule_ok: "is_identifier ''DP-1''" "rule_ok demo_rule"
proof -
  show "is_identifier ''DP-1''" by code_simp
  have "mode_token (ExactMode ''640x480@59.9Hz'') = Inr ''640x480@59.9''"
  proof -
    have parts: "strip_suffix ''Hz'' ''640x480@59.9Hz'' = Some ''640x480@59.9''"
      "split_once CHR ''@'' ''640x480@59.9'' = Some (''640x480'', ''59.9'')"
      "split_once CHR ''x'' ''640x480'' = Some (''640'', ''480'')"
      "list_all (\<lambda>c. is_digit c \<or> c \<in> set ''x@.'') ''640x480@59.9''"
      by code_simp+
    have numbers: "parse_u32 ''640'' = Some 640" "parse_u32 ''480'' = Some 480" "parse_decimal ''59.9'' = Some (599, 1)"
      by (simp_all add: parse_u32_def parse_decimal_def decimal_value_def digit_value_def is_digit_def)
    have "finite_positive (599, 1)" by (simp add: finite_positive_def)
    then show ?thesis unfolding mode_token_def mode.case Let_def parts numbers option.case prod.case by (simp add: is_digit_def)
  qed
  moreover have "positive_finite 0x3FF0000000000000"
    by (simp add: positive_finite_def Fixed_Decimal.is_finite_def exponent_field_def negative_def magnitude_def)
  ultimately show "rule_ok demo_rule" by (simp add: demo_rule_def)
qed

lemma command_roundtrip_witness:
  "\<exists>text. monitor_command demo_display ''DP-1'' demo_rule = Inr text
     \<and> split_on QUOTE text = command_parts demo_display ''DP-1'' demo_rule"
  using command_roundtrip[OF demo_display_laws, of "''DP-1''" demo_rule] demo_rule_ok by blast

end
