(* ===== verification/Work_Area.thy ===== *)
theory Work_Area
  imports Rust_Text Json_Value "HOL-Library.Signed_Division"
begin

text \<open>
  \<open>shelllist-hyprland/src/work_area.rs\<close>: the logical insets of every enabled monitor, from the
  compositor's reservations and the gaps of the last workspace rule whose selector matches. \<open>serde\<close>'s
  decoding of the five documents is a parameter of \<open>parse_snapshot\<close>; the gaps of a rule and the
  option's \<open>css\<close> are still JSON when they get here, as in the code. Integers are \<open>i64\<close>, which no
  operation overflows; \<open>windows\<close> is a \<open>usize\<close>.
\<close>

section \<open>The snapshot\<close>

record insets_record =
  inset_left :: f64
  inset_top :: f64
  inset_right :: f64
  inset_bottom :: f64

type_synonym gaps = "f64 \<times> f64 \<times> f64 \<times> f64"

record monitor =
  m_id :: int
  m_name :: ustring
  m_focused :: bool
  m_disabled :: bool
  m_x :: f64
  m_y :: f64
  m_width :: f64
  m_height :: f64
  m_scale :: f64
  m_transform :: "8 word"
  m_description :: ustring
  m_make :: ustring
  m_model :: ustring
  m_serial :: ustring
  m_reserved :: "gaps option"
  m_active :: int
  m_special :: int

record workspace =
  w_id :: int
  w_name :: ustring
  w_windows :: nat
  w_hasfullscreen :: bool

record window =
  c_workspace :: "int option"
  c_mapped :: bool
  c_floating :: bool
  c_pinned :: bool
  c_hidden :: bool
  c_visible :: "bool option"
  c_grouped :: "ustring list"
  c_fullscreen :: int

record rule =
  selector :: ustring
  rule_gaps :: "gaps option"

record snapshot =
  monitors :: "monitor list"
  workspaces :: "workspace list"
  rules :: "rule list"
  clients :: "window list"
  default_gaps :: gaps

section \<open>Gaps\<close>

definition expand_css :: "f64 option list \<Rightarrow> gaps option" where
  "expand_css parts =
     (case parts of
        Some t # rest1 \<Rightarrow>
          (case (case rest1 of [] \<Rightarrow> Some t | p # _ \<Rightarrow> p) of
             None \<Rightarrow> None
           | Some r \<Rightarrow>
               (case (case drop 1 rest1 of [] \<Rightarrow> Some t | p # _ \<Rightarrow> p) of
                  None \<Rightarrow> None
                | Some b \<Rightarrow>
                    (case (case drop 2 rest1 of [] \<Rightarrow> Some r | p # _ \<Rightarrow> p) of
                       None \<Rightarrow> None
                     | Some l \<Rightarrow>
                         if drop 3 rest1 = [] \<and> list_all is_finite [t, r, b, l]
                         then Some (t, r, b, l) else None)))
      | _ \<Rightarrow> None)"

fun as_f64 :: "json \<Rightarrow> f64 option" where
  "as_f64 (JNumber (PosInt n)) = Some (f64_of_int (int n))"
| "as_f64 (JNumber (NegInt i)) = Some (f64_of_int i)"
| "as_f64 (JNumber (FloatBits b)) = Some (of_nat b)"
| "as_f64 _ = None"

definition css :: "json \<Rightarrow> gaps option" where
  "css v =
     (case v of
        JString s \<Rightarrow> expand_css (map parse_f64 (split_whitespace s))
      | JArray items \<Rightarrow> expand_css (map as_f64 items)
      | _ \<Rightarrow> None)"

text \<open>The five documents, decoded: a rule still carries its gaps as JSON, absent ones as \<open>None\<close>.\<close>

type_synonym documents = "monitor list \<times> workspace list \<times> (ustring \<times> json option) list \<times> window list \<times> json"

definition parse_snapshot :: "(ustring \<Rightarrow> ustring + documents) \<Rightarrow> ustring \<Rightarrow> ustring + snapshot" where
  "parse_snapshot docs reply =
     (if 16 * 1024 * 1024 < length reply then err ''Hyprland geometry reply too large''
      else
        (case docs reply of
           Inl e \<Rightarrow> err e
         | Inr (ms, ws, rs, cs, options) \<Rightarrow>
             (case css (json_index ''css'' options) of
                None \<Rightarrow> err ''Missing Hyprland outer gaps''
              | Some gaps \<Rightarrow>
                  if \<not> list_all (\<lambda>m. is_finite (m_scale m) \<and> fgt (m_scale m) 0
                       \<and> list_all is_finite [m_x m, m_y m, m_width m, m_height m]) ms
                  then err ''Invalid Hyprland monitor geometry''
                  else ok \<lparr>monitors = ms, workspaces = ws,
                    rules = map (\<lambda>(s, g). \<lparr>selector = s, rule_gaps = Option.bind g css\<rparr>) rs,
                    clients = map (\<lambda>c. c\<lparr>c_grouped := sort (c_grouped c)\<rparr>) cs, default_gaps = gaps\<rparr>)))"

section \<open>Monitors\<close>

definition monitor_box :: "monitor \<Rightarrow> ustring \<Rightarrow> f64 \<times> f64 \<times> f64 \<times> f64" where
  "monitor_box m direction =
     (let (w, h) = (if m_transform m mod 2 \<noteq> 0 then (m_height m, m_width m) else (m_width m, m_height m));
          width = fround (fdiv w (m_scale m)); height = fround (fdiv h (m_scale m))
      in if direction \<in> {''l'', ''r''} then (m_x m, m_y m, width, height) else (m_y m, m_x m, height, width))"

definition two :: f64 where "two = 0x4000000000000000"

text \<open>The overlap of a monitor that adjoins the focused one in the direction.\<close>

definition adjoining :: "ustring \<Rightarrow> monitor \<Rightarrow> monitor \<Rightarrow> (monitor \<times> f64) option" where
  "adjoining direction focused m =
     (case (monitor_box focused direction, monitor_box m direction) of
        ((x, y, w, h), (tx, ty, tw, th)) \<Rightarrow>
          let distance = (if direction \<in> {''l'', ''u'', ''t''} then fsub (fsub x tx) tw else fsub (fadd x w) tx);
              overlap = fmax (fsub (fmin (fadd y h) (fadd ty th)) (fmax y ty)) 0
          in if fge (fabs distance) two then None else Some (m, overlap))"

text \<open>\<open>min_by\<close> with the comparison reversed keeps the first of the greatest.\<close>

fun best :: "(monitor \<times> f64) list \<Rightarrow> (monitor \<times> f64) option" where
  "best [] = None"
| "best (p # ps) =
     Some (fold (\<lambda>b a. if fcmp (snd b) (snd a) = Some Greater then b else a) ps p)"

definition directional :: "ustring \<Rightarrow> monitor list \<Rightarrow> monitor option" where
  "directional direction ms =
     (case find m_focused ms of
        None \<Rightarrow> None
      | Some focused \<Rightarrow>
          map_option fst (best (List.map_filter (adjoining direction focused)
            (filter (\<lambda>m. m_name m \<noteq> m_name focused \<and> \<not> m_disabled m) ms))))"

definition position_of :: "('a \<Rightarrow> bool) \<Rightarrow> 'a list \<Rightarrow> nat option" where
  "position_of P xs = (if list_ex P xs then Some (length (takeWhile (\<lambda>x. \<not> P x) xs)) else None)"

definition relative_index :: "nat \<Rightarrow> int \<Rightarrow> nat \<Rightarrow> nat" where
  "relative_index index delta len = nat ((int index + delta smod int len) mod int len)"

definition monitor_matches :: "ustring \<Rightarrow> monitor \<Rightarrow> monitor list \<Rightarrow> bool" where
  "monitor_matches sel m ms =
     (if sel = ''current'' then m_focused m
      else if sel \<in> {''l'', ''r'', ''u'', ''d'', ''t'', ''b''}
      then (case directional sel ms of Some n \<Rightarrow> m_name n = m_name m | None \<Rightarrow> False)
      else if starts_with ''+'' sel \<or> starts_with ''-'' sel
      then (case position_of m_focused ms of
          None \<Rightarrow> False
        | Some index \<Rightarrow>
            (case parse_i64 sel of
               None \<Rightarrow> False
             | Some delta \<Rightarrow> m_name (ms ! relative_index index delta (length ms)) = m_name m))
      else (case parse_u64 sel of
          Some i \<Rightarrow> m_id m = i
        | None \<Rightarrow>
            (case strip_prefix ''desc:'' sel of
               Some description \<Rightarrow>
                 starts_with (trim description) (m_description m)
                 \<or> starts_with (trim description) (trim (m_make m @ '' '' @ m_model m @ '' '' @ m_serial m))
             | None \<Rightarrow> m_name m = sel)))"

section \<open>Windows\<close>

definition on_workspace :: "window \<Rightarrow> workspace \<Rightarrow> bool" where
  "on_workspace c w \<longleftrightarrow> c_workspace c = Some (w_id w)"

definition matches_flags :: "window \<Rightarrow> ustring \<Rightarrow> bool" where
  "matches_flags c flags \<longleftrightarrow>
     list_all (\<lambda>flag.
       if flag = CHR ''t'' then \<not> c_floating c
       else if flag = CHR ''f'' then c_floating c
       else if flag = CHR ''p'' then c_pinned c
       else if flag = CHR ''v'' then \<not> c_hidden c \<and> c_visible c \<noteq> Some False
       else True) flags"

text \<open>The filter with the set of the groups seen, one window after another.\<close>

fun count_groups :: "ustring list set \<Rightarrow> window list \<Rightarrow> nat" where
  "count_groups groups [] = 0"
| "count_groups groups (c # cs) =
     (if c_grouped c \<noteq> [] \<and> c_grouped c \<notin> groups
      then Suc (count_groups (insert (c_grouped c) groups) cs)
      else count_groups groups cs)"

definition window_count :: "ustring \<Rightarrow> workspace \<Rightarrow> window list \<Rightarrow> nat" where
  "window_count flags w cs =
     (if flags = [] then w_windows w
      else
        let candidates = filter (\<lambda>c. on_workspace c w \<and> c_mapped c \<and> matches_flags c flags) cs
        in if CHR ''g'' \<in> set flags then count_groups {} candidates else length candidates)"

section \<open>Selectors\<close>

definition range :: "ustring \<Rightarrow> (int \<times> int) option" where
  "range v =
     (case split_once CHR ''-'' v of
        Some (low, high) \<Rightarrow>
          (case (parse_i64 low, parse_i64 high) of
             (Some l, Some h) \<Rightarrow> if 1 \<le> l \<and> l \<le> h then Some (l, h) else None
           | _ \<Rightarrow> None)
      | None \<Rightarrow> map_option (\<lambda>n. (n, n)) (parse_i64 v))"

definition in_range :: "int \<times> int \<Rightarrow> int \<Rightarrow> bool" where
  "in_range r i \<longleftrightarrow> fst r \<le> i \<and> i \<le> snd r"

definition flag_bit :: "char \<Rightarrow> nat option" where
  "flag_bit c =
     (if c = CHR ''t'' \<or> c = CHR ''f'' then Some 1 else if c = CHR ''p'' then Some 2
      else if c = CHR ''g'' then Some 4 else if c = CHR ''v'' then Some 8 else None)"

fun window_split :: "nat \<Rightarrow> ustring \<Rightarrow> nat" where
  "window_split seen [] = 0"
| "window_split seen (c # s) =
     (case flag_bit c of
        None \<Rightarrow> 0
      | Some b \<Rightarrow> if and seen b \<noteq> 0 then 0 else Suc (window_split (or seen b) s))"

definition window_selector :: "ustring \<Rightarrow> ustring \<times> ustring" where
  "window_selector v = (take (window_split 0 v) v, drop (window_split 0 v) v)"

definition selector_integer :: "ustring \<Rightarrow> int option" where
  "selector_integer v =
     (if list_ex (\<lambda>p. starts_with p v) [''true'', ''on'', ''yes''] then Some 1
      else if list_ex (\<lambda>p. starts_with p v) [''false'', ''off'', ''no''] then Some 0
      else (case strip_prefix ''0x'' v of
          Some hex \<Rightarrow> parse_radix 16 (- (2 ^ 63)) (2 ^ 63 - 1) hex
        | None \<Rightarrow> parse_i64 v))"

definition is_none_or :: "('a \<Rightarrow> bool) \<Rightarrow> 'a option \<Rightarrow> bool" where
  "is_none_or P x \<longleftrightarrow> (case x of None \<Rightarrow> True | Some v \<Rightarrow> P v)"

definition fullscreen_matches :: "ustring \<Rightarrow> workspace \<Rightarrow> window list \<Rightarrow> bool" where
  "fullscreen_matches v w cs =
     (let v = trim_start v;
          digits = (\<lambda>s. takeWhile is_digit s);
          number = (case v of c # r \<Rightarrow> if c = CHR ''+'' \<or> c = CHR ''-'' then c # digits r else digits v | [] \<Rightarrow> [])
      in case parse_i32 number of
           None \<Rightarrow> False
         | Some n \<Rightarrow>
             if n = -1 then \<not> w_hasfullscreen w
             else if n = 0 then w_hasfullscreen w \<and> list_ex (\<lambda>c. on_workspace c w \<and> c_fullscreen c = 2) cs
             else if n = 1 then w_hasfullscreen w \<and> list_ex (\<lambda>c. on_workspace c w \<and> c_fullscreen c = 1) cs
             else True)"

definition selector_term :: "ustring \<Rightarrow> ustring \<Rightarrow> workspace \<Rightarrow> monitor \<Rightarrow> snapshot \<Rightarrow> bool" where
  "selector_term kind v w m s =
     (if kind = ''r'' then CHR ''-'' \<in> set v \<and> (case range v of Some r \<Rightarrow> in_range r (w_id w) | None \<Rightarrow> False)
      else if kind = ''s''
      then is_none_or (\<lambda>i. (w_id w < -1 \<and> w_id w > -1337) = (i \<noteq> 0)) (selector_integer v)
      else if kind = ''n''
      then (case split_once CHR '':'' v of
          Some (k, x) \<Rightarrow>
            if k = ''s'' then starts_with x (w_name w)
            else if k = ''e'' then ends_with x (w_name w)
            else is_none_or (\<lambda>i. of_bool (w_id w \<le> -1337) = i) (selector_integer v)
        | None \<Rightarrow> is_none_or (\<lambda>i. of_bool (w_id w \<le> -1337) = i) (selector_integer v))
      else if kind = ''m'' then monitor_matches v m (monitors s)
      else if kind = ''w''
      then (case window_selector v of
          (flags, count) \<Rightarrow>
            (case range count of
               Some r \<Rightarrow> in_range r (int (window_count flags w (clients s))) | None \<Rightarrow> False))
      else if kind = ''f'' then fullscreen_matches v w (clients s)
      else False)"

definition matches :: "ustring \<Rightarrow> workspace \<Rightarrow> monitor \<Rightarrow> snapshot \<Rightarrow> bool" where
  "matches sel w m s =
     (let rest = trim sel in
      if rest = [] then True
      else (case parse_i64 rest of
        Some i \<Rightarrow> w_id w = i
      | None \<Rightarrow>
          (case strip_prefix ''name:'' rest of
             Some name \<Rightarrow> w_name w = name
           | None \<Rightarrow>
               if starts_with ''special'' rest then w_name w = rest
               else (case strip_suffix '']'' rest of
                 None \<Rightarrow> False
               | Some clauses \<Rightarrow>
                   list_all (\<lambda>clause.
                     case split_once CHR ''['' (trim_start clause) of
                       None \<Rightarrow> False
                     | Some (kind, v) \<Rightarrow> selector_term kind v w m s) (split_on CHR '']'' clauses)))))"

section \<open>Insets\<close>

text \<open>\<open>rev().find_map\<close>: the last rule with valid gaps that matches.\<close>

fun rule_for :: "workspace \<Rightarrow> monitor \<Rightarrow> snapshot \<Rightarrow> rule list \<Rightarrow> gaps option" where
  "rule_for w m s [] = None"
| "rule_for w m s (r # rs) =
     (case rule_gaps r of
        Some g \<Rightarrow> if matches (selector r) w m s then Some g else rule_for w m s rs
      | None \<Rightarrow> rule_for w m s rs)"

definition monitor_insets :: "snapshot \<Rightarrow> monitor \<Rightarrow> (ustring \<times> insets_record) option" where
  "monitor_insets s m =
     (case m_reserved m of
        None \<Rightarrow> None
      | Some (r0, r1, r2, r3) \<Rightarrow>
          if \<not> list_all is_finite [r0, r1, r2, r3] then None
          else
            let active = (if m_special m \<noteq> 0 then m_special m else m_active m)
            in (case find (\<lambda>w. w_id w = active) (workspaces s) of
                  None \<Rightarrow> None
                | Some w \<Rightarrow>
                    (case (case rule_for w m s (rev (rules s)) of Some g \<Rightarrow> g | None \<Rightarrow> default_gaps s) of
                       (g0, g1, g2, g3) \<Rightarrow>
                         Some (m_name m, \<lparr>inset_left = fadd r0 g3, inset_top = fadd r1 g0,
                           inset_right = fadd r2 g1, inset_bottom = fadd r3 g2\<rparr>))))"

definition insets :: "snapshot \<Rightarrow> (ustring \<times> insets_record) list" where
  "insets s = obj_of (List.map_filter (monitor_insets s) (filter (\<lambda>m. \<not> m_disabled m) (monitors s)))"

definition parse_work_areas ::
  "(ustring \<Rightarrow> ustring + documents) \<Rightarrow> ustring \<Rightarrow> ustring + (ustring \<times> insets_record) list"
where
  "parse_work_areas docs reply = (case parse_snapshot docs reply of Inl e \<Rightarrow> err e | Inr s \<Rightarrow> ok (insets s))"

definition geometry_event :: "ustring \<Rightarrow> bool" where
  "geometry_event e = list_ex (\<lambda>p. starts_with p e)
     [''workspace'', ''focusedmon'', ''monitor'', ''configreloaded'', ''openlayer'', ''closelayer'', ''openwindow'',
      ''closewindow'', ''movewindow'', ''changefloatingmode'', ''fullscreen'', ''activespecial'', ''moveworkspace'',
      ''renameworkspace'', ''createworkspace'', ''destroyworkspace'', ''togglegroup'', ''moveintogroup'',
      ''moveoutofgroup'', ''pin'']"

section \<open>Facts\<close>

lemma relative_index_less:
  "0 < len \<Longrightarrow> relative_index index delta len < len"
  by (simp add: relative_index_def nat_less_iff)

text \<open>Indexing never panics, and moving by the difference of two positions gets from one to the other.\<close>

lemma position_of_less: "position_of P xs = Some i \<Longrightarrow> i < length xs \<and> P (xs ! i)"
proof -
  assume p: "position_of P xs = Some i"
  then have i: "i = length (takeWhile (\<lambda>x. \<not> P x) xs)" "takeWhile (\<lambda>x. \<not> P x) xs \<noteq> xs"
    by (auto simp: position_of_def list_ex_iff takeWhile_eq_all_conv split: if_splits)
  then have "i < length xs"
    by (metis linorder_not_less take_all takeWhile_eq_take)
  then show "i < length xs \<and> P (xs ! i)"
    using nth_length_takeWhile[of "\<lambda>x. \<not> P x" xs] i(1) by simp
qed

lemma count_groups_card:
  "finite groups \<Longrightarrow> count_groups groups cs = card (c_grouped ` set cs - insert [] groups)"
proof (induction cs arbitrary: groups)
  case (Cons c cs)
  show ?case
  proof (cases "c_grouped c \<noteq> [] \<and> c_grouped c \<notin> groups")
    case True
    let ?rest = "c_grouped ` set cs - insert [] (insert (c_grouped c) groups)"
    have "c_grouped ` set (c # cs) - insert [] groups = insert (c_grouped c) ?rest"
      using True by auto
    then have "card (c_grouped ` set (c # cs) - insert [] groups) = Suc (card ?rest)"
      by (simp add: card_insert_disjoint)
    then show ?thesis using Cons True by simp
  next
    case False
    then have "c_grouped ` set (c # cs) - insert [] groups = c_grouped ` set cs - insert [] groups"
      by auto
    moreover have "count_groups groups (c # cs) = count_groups groups cs"
      using False by auto
    ultimately show ?thesis using Cons by simp
  qed
qed simp

text \<open>Valid window flags: each of its class, no class twice (\<open>t\<close> and \<open>f\<close> exclude each other).\<close>

definition flags_ok :: "ustring \<Rightarrow> bool" where
  "flags_ok fs \<longleftrightarrow> list_all (\<lambda>c. flag_bit c \<noteq> None) fs \<and> distinct (map flag_bit fs)"

text \<open>The bits seen, as the set of flag classes.\<close>

definition seen_bits :: "nat \<Rightarrow> nat option set \<Rightarrow> bool" where
  "seen_bits n S \<longleftrightarrow> (\<forall>i. bit n i \<longleftrightarrow> Some (2 ^ i) \<in> S)"

lemma seen_bits_or: "seen_bits n S \<Longrightarrow> seen_bits (or n (2 ^ j)) (insert (Some (2 ^ j)) S)"
  by (auto simp: seen_bits_def bit_or_iff bit_exp_iff)

lemma flag_bit_values: "flag_bit c = Some b \<Longrightarrow> \<exists>i. b = 2 ^ i"
proof -
  assume "flag_bit c = Some b"
  then have "b \<in> {2 ^ 0, 2 ^ 1, 2 ^ 2, 2 ^ 3}"
    by (auto simp: flag_bit_def split: if_splits)
  then show "\<exists>i. b = 2 ^ i" by blast
qed

lemma window_split_longest:
  assumes "seen_bits seen S"
  shows "window_split seen v \<le> length v"
    "list_all (\<lambda>c. flag_bit c \<noteq> None \<and> flag_bit c \<notin> S) (take (window_split seen v) v)"
    "distinct (map flag_bit (take (window_split seen v) v))"
    "window_split seen v < length v \<Longrightarrow>
       flag_bit (v ! window_split seen v) = None
       \<or> flag_bit (v ! window_split seen v) \<in> S \<union> flag_bit ` set (take (window_split seen v) v)"
proof -
  have "window_split seen v \<le> length v
    \<and> list_all (\<lambda>c. flag_bit c \<noteq> None \<and> flag_bit c \<notin> S) (take (window_split seen v) v)
    \<and> distinct (map flag_bit (take (window_split seen v) v))
    \<and> (window_split seen v < length v \<longrightarrow> flag_bit (v ! window_split seen v) = None
         \<or> flag_bit (v ! window_split seen v) \<in> S \<union> flag_bit ` set (take (window_split seen v) v))"
    using assms
  proof (induction v arbitrary: seen S)
    case (Cons c v)
    show ?case
    proof (cases "flag_bit c")
      case (Some b)
      then obtain i where b: "b = 2 ^ i" using flag_bit_values by blast
      show ?thesis
      proof (cases "and seen b = 0")
        case True
        then have "Some b \<notin> S" using Cons.prems b by (simp add: seen_bits_def and_exp_eq_0_iff_not_bit)
        moreover note Cons.IH[OF seen_bits_or[OF Cons.prems, of i], folded b]
        ultimately show ?thesis
          using Some True by (auto simp: list_all_iff)
      next
        case False
        then have "Some b \<in> S" using Cons.prems b by (simp add: seen_bits_def and_exp_eq_0_iff_not_bit)
        then show ?thesis using Some False by simp
      qed
    qed simp
  qed simp
  then show "window_split seen v \<le> length v"
    "list_all (\<lambda>c. flag_bit c \<noteq> None \<and> flag_bit c \<notin> S) (take (window_split seen v) v)"
    "distinct (map flag_bit (take (window_split seen v) v))"
    "window_split seen v < length v \<Longrightarrow>
       flag_bit (v ! window_split seen v) = None
       \<or> flag_bit (v ! window_split seen v) \<in> S \<union> flag_bit ` set (take (window_split seen v) v)"
    by blast+
qed

lemma flags_ok_take: "flags_ok (take k fs)" if "flags_ok fs"
  using that by (auto simp: flags_ok_def list_all_iff take_map[symmetric] dest: in_set_takeD)

lemma window_selector_longest:
  assumes "window_selector v = (flags, count)"
  shows "v = flags @ count" "flags_ok flags" "count \<noteq> [] \<Longrightarrow> \<not> flags_ok (flags @ [hd count])"
proof -
  let ?k = "window_split 0 v"
  have "seen_bits 0 {}" by (simp add: seen_bits_def)
  note w = window_split_longest[OF this, of v]
  have parts: "flags = take ?k v" "count = drop ?k v"
    using assms by (simp_all add: window_selector_def)
  then show "v = flags @ count" by simp
  show "flags_ok flags"
    using w(2,3) by (auto simp: parts flags_ok_def list_all_iff)
  assume "count \<noteq> []"
  then have "hd count = v ! ?k" "?k < length v" by (simp_all add: parts hd_drop_conv_nth)
  then show "\<not> flags_ok (flags @ [hd count])"
    using w(4) by (auto simp: flags_ok_def parts)
qed

text \<open>
  Window selectors count what they say. The selector's text is cut behind its longest run of
  flags in which each class occurs at most once. Without flags the compositor's own count is used;
  with \<open>g\<close> the count is the number of different non-empty groups among the workspace's mapped windows
  that have all the flags, and otherwise the number of those windows.
\<close>

lemma window_selector_counts:
  "(case window_selector v of (flags, count) \<Rightarrow>
      v = flags @ count \<and> flags_ok flags \<and> (count \<noteq> [] \<longrightarrow> \<not> flags_ok (flags @ [hd count])))
   \<and> window_count flags w cs =
      (if flags = [] then w_windows w
       else if CHR ''g'' \<in> set flags
       then card {g. g \<noteq> [] \<and> (\<exists>c\<in>set cs. c_grouped c = g \<and> on_workspace c w \<and> c_mapped c \<and> matches_flags c flags)}
       else length (filter (\<lambda>c. on_workspace c w \<and> c_mapped c \<and> matches_flags c flags) cs))"
proof -
  define P where "P = (\<lambda>c. on_workspace c w \<and> c_mapped c \<and> matches_flags c flags)"
  have groups: "c_grouped ` set (filter P cs) - insert [] {} = {g. g \<noteq> [] \<and> (\<exists>c\<in>set cs. c_grouped c = g \<and> P c)}"
    by auto
  have counts: "window_count flags w cs =
      (if flags = [] then w_windows w
       else if CHR ''g'' \<in> set flags then card {g. g \<noteq> [] \<and> (\<exists>c\<in>set cs. c_grouped c = g \<and> P c)}
       else length (filter P cs))"
    by (simp only: window_count_def Let_def P_def[symmetric] count_groups_card[OF finite.emptyI] groups)
  obtain fs count where split: "window_selector v = (fs, count)" by fastforce
  show ?thesis
    unfolding split prod.case using window_selector_longest[OF split] counts[unfolded P_def] by blast
qed

lemma window_selector_counts_witness:
  "window_selector ''tg2-3'' = (''tg'', ''2-3'') \<and> \<not> flags_ok ''tgt''"
proof -
  have "window_selector ''tgt'' = (''tg'', ''t'')" "window_selector ''tg2-3'' = (''tg'', ''2-3'')" by code_simp+
  then show ?thesis
    using window_selector_counts[where v = "''tgt''" and flags = "''t''" and w = undefined and cs = "[]"] by simp
qed

lemma rule_for_last:
  assumes "rule_gaps r = Some g" "matches (selector r) w m s"
    "\<forall>r'\<in>set after. rule_gaps r' = None \<or> \<not> matches (selector r') w m s"
  shows "rule_for w m s (rev (before @ r # after)) = Some g"
proof -
  have "rule_for w m s (rs @ r # rest) = Some g" if "\<forall>r'\<in>set rs. rule_gaps r' = None \<or> \<not> matches (selector r') w m s" for rs rest
    using that assms(1,2) by (induction rs) (auto split: option.split)
  then show ?thesis using assms(3) by simp
qed

lemma map_of_map_filter_single:
  assumes "x \<in> set xs" "f x = Some (k, v)" "\<forall>y\<in>set xs. key y = k \<longrightarrow> y = x" "\<And>y k' v'. f y = Some (k', v') \<Longrightarrow> key y = k'"
  shows "map_of (rev (List.map_filter f xs)) k = Some v"
proof -
  have mem: "(k, v') \<in> set (List.map_filter f xs) \<longleftrightarrow> v' = v" for v'
  proof
    assume "(k, v') \<in> set (List.map_filter f xs)"
    then obtain y where "y \<in> set xs" "f y = Some (k, v')" unfolding in_map_filter by blast
    then show "v' = v" using assms(2,3) assms(4)[of y k v'] by simp
  next
    assume "v' = v"
    then show "(k, v') \<in> set (List.map_filter f xs)" unfolding in_map_filter using assms(1,2) by blast
  qed
  have "map_of (rev (List.map_filter f xs)) k \<noteq> None"
    using mem[of v] unfolding map_of_eq_None_iff by force
  then obtain v' where "map_of (rev (List.map_filter f xs)) k = Some v'" by blast
  then show ?thesis using map_of_SomeD[of _ k v'] mem[of v'] by fastforce
qed


definition demo_monitor :: monitor where
  "demo_monitor = \<lparr>m_id = 0, m_name = ''eDP-1'', m_focused = True, m_disabled = False, m_x = 0, m_y = 0,
     m_width = 0x409E000000000000, m_height = 0x4092C00000000000, m_scale = 0x3FF0000000000000, m_transform = 0,
     m_description = '''', m_make = '''', m_model = '''', m_serial = '''',
     m_reserved = Some (0, 0x4049800000000000, 0, 0), m_active = 1, m_special = 0\<rparr>"

definition demo_snapshot :: snapshot where
  "demo_snapshot = \<lparr>monitors = [demo_monitor],
     workspaces = [\<lparr>w_id = 1, w_name = ''1'', w_windows = 2, w_hasfullscreen = False\<rparr>],
     rules = [\<lparr>selector = ''1'', rule_gaps = Some (0, 0, 0, 0)\<rparr>,
              \<lparr>selector = '' r[1-4]w[2]'', rule_gaps = Some (0x4000000000000000, 0, 0, 0x4008000000000000)\<rparr>,
              \<lparr>selector = ''1'', rule_gaps = None\<rparr>, \<lparr>selector = ''3'', rule_gaps = Some (0, 0, 0, 0)\<rparr>],
     clients = [], default_gaps = (0, 0, 0, 0)\<rparr>"

lemma demo_matches:
  "matches '' r[1-4]w[2]'' (hd (workspaces demo_snapshot)) demo_monitor demo_snapshot"
  "\<not> matches ''3'' (hd (workspaces demo_snapshot)) demo_monitor demo_snapshot"
  by code_simp+

lemma demo_reserved: "list_all is_finite [0, 0x4049800000000000, 0, 0]"
  by (simp add: is_finite_def exponent_field_def)


end
