(* ===== verification/Hypr_Queries.thy ===== *)
theory Hypr_Queries
  imports Hypr_Client Hypr_Monitor Work_Area
begin

text \<open>
  The two typed queries of \<open>shelllist-hyprland/src/lib.rs\<close>: a request with a fixed command, and the
  parsers of \<open>Work_Area\<close> and \<open>Hypr_Monitor\<close> on its reply. The parsers' own errors are chains of one
  message; the cause that \<open>serde\<close> would append to one is not part of them.
\<close>

section \<open>The queries\<close>

text \<open>\<open>?\<close> behind the request, and the parser's result. What was sent stays sent.\<close>

definition parsed :: "('r \<Rightarrow> ustring + 'a) \<Rightarrow> (path \<times> ustring) list \<times> (chain + 'r) \<Rightarrow> (path \<times> ustring) list \<times> (chain + 'a)" where
  "parsed parse op =
     (fst op, case snd op of Inl e \<Rightarrow> err e | Inr reply \<Rightarrow> (case parse reply of Inl e \<Rightarrow> err [e] | Inr a \<Rightarrow> ok a))"

definition work_areas_command :: ustring where
  "work_areas_command = ''[[BATCH]]j/monitors;j/workspaces;j/workspacerules;j/clients;j/getoption general:gaps_out''"

definition work_areas ::
  "(path \<Rightarrow> ustring) \<Rightarrow> (ustring \<Rightarrow> ustring + documents) \<Rightarrow> ipc_env \<Rightarrow> client
    \<Rightarrow> (path \<times> ustring) list \<times> (chain + (ustring \<times> insets_record) list)"
where
  "work_areas display docs env cl = parsed (parse_work_areas docs) (send_request display env cl work_areas_command)"

definition preferences ::
  "(path \<Rightarrow> ustring) \<Rightarrow> (ustring \<Rightarrow> animation_option option) \<Rightarrow> ipc_env \<Rightarrow> client
    \<Rightarrow> (path \<times> ustring) list \<times> (chain + bool)"
where
  "preferences display read_option env cl =
     parsed (parse_preferences read_option) (send_request display env cl ''j/getoption animations:enabled'')"

section \<open>What they send and report\<close>

lemma fst_parsed [simp]: "fst (parsed parse op) = fst op"
  by (simp add: parsed_def)

lemma parsed_ok: "snd (parsed parse op) = Inr a \<longleftrightarrow> (\<exists>reply. snd op = Inr reply \<and> parse reply = Inr a)"
  by (auto simp: parsed_def split: sum.splits)

text \<open>The parser's own size check never refuses what the bounded request hands out.\<close>

lemma request_reply_bounded:
  "snd (send_request display env cl cmd) = Inr reply \<Longrightarrow> length reply \<le> max_reply_bytes"
  unfolding send_request_def by (blast dest: exchange_reply)

lemma work_areas_of_documents:
  assumes "snd (send_request display env cl work_areas_command) = Inr reply"
    and "docs reply = Inr (ms, ws, rs, cs, options)"
    and "snd (work_areas display docs env cl) = Inl e"
  shows "e = [''Missing Hyprland outer gaps''] \<or> e = [''Invalid Hyprland monitor geometry'']"
  using assms request_reply_bounded[OF assms(1)]
  by (auto simp: work_areas_def parsed_def parse_work_areas_def parse_snapshot_def max_reply_bytes_def
      split: option.splits if_splits)

text \<open>A query sends its command at most once, to an instance of the user.\<close>

lemma send_request_trusted:
  "sends_only (\<lambda>p. owned_socket env p \<and> trusted_peer env p) cmd (send_request display env cl cmd)"
  unfolding send_request_def
  by (rule exchange_sends) (auto simp: connect_def dest: connect_trusted candidates_set split: sum.splits)

lemma sends_only_parsed [simp]: "sends_only Q cmd (parsed parse op) = sends_only Q cmd op"
  by (simp add: sends_only_def)

lemma queries_read_own_instance:
  "sends_only (\<lambda>p. owned_socket env p \<and> trusted_peer env p) work_areas_command (work_areas display docs env cl)
   \<and> sends_only (\<lambda>p. owned_socket env p \<and> trusted_peer env p) ''j/getoption animations:enabled''
       (preferences display read_option env cl)"
  by (simp add: work_areas_def preferences_def send_request_trusted)

text \<open>An answer is the parser's on a reply that was in time, never a guess.\<close>

lemma parse_preferences_ok:
  assumes "parse_preferences read_option reply = Inr b"
  shows "\<exists>opt. read_option reply = Some opt \<and> opt_name opt = ''animations:enabled''
    \<and> (opt_boolean opt = Some b \<or> opt_int opt = Some (of_bool b))"
proof (cases "read_option reply")
  case (Some opt)
  then have name: "opt_name opt = ''animations:enabled''"
    using assms by (simp add: parse_preferences_def split: if_split_asm)
  have "opt_boolean opt = Some b \<or> opt_int opt = Some (of_bool b)"
    using assms Some name
    by (cases "opt_boolean opt"; cases "opt_int opt") (simp_all add: parse_preferences_def split: if_split_asm)
  with Some name show ?thesis by simp
qed (use assms in \<open>simp add: parse_preferences_def\<close>)

lemma preferences_observed:
  assumes "snd (preferences display read_option env cl) = Inr b"
  shows "\<exists>reply opt. snd (send_request display env cl ''j/getoption animations:enabled'') = Inr reply
    \<and> read_option reply = Some opt \<and> opt_name opt = ''animations:enabled''
    \<and> (opt_boolean opt = Some b \<or> opt_int opt = Some (of_bool b))"
proof -
  obtain reply where "snd (send_request display env cl ''j/getoption animations:enabled'') = Inr reply"
    "parse_preferences read_option reply = Inr b"
    using assms unfolding preferences_def parsed_ok by blast
  with parse_preferences_ok show ?thesis by blast
qed

end
