(* ===== verification/Lock_Prune.thy ===== *)
theory Lock_Prune
  imports Json_Value
begin

text \<open>
  Pruning of a \<open>flake.lock\<close>, \<open>shelllist-local-build/src/lock.rs\<close>: the inputs built from local
  worktrees are dropped from the lock's root node, and with them every node the root no longer
  reaches. A link to a node is its name, or a path of input names that is followed from the root.
  The file and the evaluation of the flake around it are not part of this theory.
\<close>

datatype lock_error =
    NoRoot
  | NoNodes
  | NoRootInputs
  | MissingNode ustring
  | InvalidReference
  | FollowsCycle
  | InvalidFollowsPart
  | MissingEdge ustring ustring

definition node_inputs :: "jobject \<Rightarrow> ustring \<Rightarrow> json option" where
  "node_inputs nodes n = Option.bind (map_of nodes n) (json_get ''inputs'')"

definition follow_edge :: "jobject \<Rightarrow> ustring \<Rightarrow> ustring \<Rightarrow> json option" where
  "follow_edge nodes current part = Option.bind (node_inputs nodes current) (json_get part)"

text \<open>The links of a node, in key order; a node without an object of inputs has none.\<close>

definition children :: "json \<Rightarrow> json list" where
  "children node = (case Option.bind (json_get ''inputs'' node) as_object of None \<Rightarrow> [] | Some m \<Rightarrow> map snd m)"

definition all_links :: "jobject \<Rightarrow> json set" where
  "all_links nodes = (\<Union>(n, node) \<in> set nodes. set (children node))"

lemma finite_all_links [simp]: "finite (all_links nodes)"
  by (auto simp: all_links_def)

lemma json_get_child: "json_get p inputs = Some v \<Longrightarrow> json_get ''inputs'' node = Some inputs \<Longrightarrow> v \<in> set (children node)"
  by (cases inputs) (force simp: children_def dest!: map_of_SomeD)+

lemma follow_edge_Some:
  "follow_edge nodes current part = Some next \<longleftrightarrow>
     (\<exists>node inputs. map_of nodes current = Some node \<and> json_get ''inputs'' node = Some inputs
        \<and> json_get part inputs = Some next)"
  by (auto simp: follow_edge_def node_inputs_def bind_eq_Some_conv)

lemma follow_edge_link: "follow_edge nodes current part = Some next \<Longrightarrow> next \<in> all_links nodes"
  by (fastforce simp: follow_edge_Some all_links_def dest: map_of_SomeD json_get_child)

lemma card_trail_less:
  assumes "link \<notin> set trail"
  shows "card (all_links nodes - set (trail @ [link])) < card (insert link (all_links nodes) - set trail)"
  using assms by (intro psubset_card_mono) auto

section \<open>Following links\<close>

text \<open>
  \<open>resolve\<close> and its loop over the path. The trail holds the links being followed: it is the argument
  of the calls inside, and has its former value again after a call that returns.
\<close>

function lock_resolve :: "jobject \<Rightarrow> ustring \<Rightarrow> json \<Rightarrow> json list \<Rightarrow> lock_error + ustring"
  and follow :: "jobject \<Rightarrow> ustring \<Rightarrow> json list \<Rightarrow> ustring \<Rightarrow> json list \<Rightarrow> lock_error + ustring" where
  "lock_resolve nodes root link trail =
     (case as_str link of
        Some n \<Rightarrow> ok n
      | None \<Rightarrow>
          (case as_array link of
             None \<Rightarrow> err InvalidReference
           | Some p \<Rightarrow>
               if link \<in> set trail then err FollowsCycle
               else follow nodes root p root (trail @ [link])))"
| "follow nodes root [] current trail = ok current"
| "follow nodes root (part # p) current trail =
     (case as_str part of
        None \<Rightarrow> err InvalidFollowsPart
      | Some k \<Rightarrow>
          (case follow_edge nodes current k of
             None \<Rightarrow> err (MissingEdge current k)
           | Some next \<Rightarrow>
               (case lock_resolve nodes root next trail of
                  Inl e \<Rightarrow> err e
                | Inr n \<Rightarrow> follow nodes root p n trail)))"
  by pat_completeness auto

termination
proof (relation "inv_image (less_than <*lex*> less_than)
    (\<lambda>x. case x of
       Inl (nodes, root, link, trail) \<Rightarrow> (card (insert link (all_links nodes) - set trail), 0)
     | Inr (nodes, root, p, current, trail) \<Rightarrow> (card (all_links nodes - set trail), Suc (length p)))")
qed (auto simp: card_trail_less insert_absorb dest!: follow_edge_link simp del: set_append)

declare lock_resolve.simps [simp del]

section \<open>The nodes the root reaches\<close>

fun push_children :: "jobject \<Rightarrow> ustring \<Rightarrow> json list \<Rightarrow> ustring list \<Rightarrow> lock_error + ustring list" where
  "push_children nodes root [] pending = ok pending"
| "push_children nodes root (c # cs) pending =
     (case lock_resolve nodes root c [] of
        Inl e \<Rightarrow> err e
      | Inr n \<Rightarrow> push_children nodes root cs (n # pending))"

text \<open>The loop of \<open>prune_lock\<close>; the head of the list is the top of the stack.\<close>

function reachable_nodes :: "jobject \<Rightarrow> ustring \<Rightarrow> ustring set \<Rightarrow> ustring list \<Rightarrow> lock_error + ustring set" where
  "reachable_nodes nodes root seen [] = ok seen"
| "reachable_nodes nodes root seen (n # pending) =
     (if n \<in> seen then reachable_nodes nodes root seen pending
      else
        (case map_of nodes n of
           None \<Rightarrow> err (MissingNode n)
         | Some node \<Rightarrow>
             (case push_children nodes root (children node) pending of
                Inl e \<Rightarrow> err e
              | Inr pending' \<Rightarrow> reachable_nodes nodes root (insert n seen) pending')))"
  by pat_completeness auto
termination
proof (relation "measures [\<lambda>(nodes, root, seen, pending). card (fst ` set nodes - seen),
    \<lambda>(nodes, root, seen, pending). length pending]")
  fix nodes :: jobject and root n :: ustring and seen pending node pending'
  assume n: "n \<notin> seen" "map_of nodes n = Some node"
  then have "n \<in> fst ` set nodes - seen"
    by (force dest: map_of_SomeD)
  then have "card (fst ` set nodes - insert n seen) < card (fst ` set nodes - seen)"
    by (intro psubset_card_mono) auto
  then show "((nodes, root, insert n seen, pending'), nodes, root, seen, n # pending)
      \<in> measures [\<lambda>(nodes, root, seen, pending). card (fst ` set nodes - seen),
           \<lambda>(nodes, root, seen, pending). length pending]"
    by simp
qed simp_all

section \<open>Pruning\<close>

text \<open>\<open>get_mut\<close> followed by an assignment through the reference.\<close>

definition obj_modify :: "ustring \<Rightarrow> (json \<Rightarrow> json) \<Rightarrow> jobject \<Rightarrow> jobject" where
  "obj_modify k f m = map (\<lambda>(k', v). (k', if k' = k then f v else v)) m"

fun modify_member :: "ustring \<Rightarrow> (json \<Rightarrow> json) \<Rightarrow> json \<Rightarrow> json" where
  "modify_member k f (JObject m) = JObject (obj_modify k f m)"
| "modify_member k f j = j"

fun drop_keys :: "ustring list \<Rightarrow> json \<Rightarrow> json" where
  "drop_keys names (JObject m) = JObject (fold AList.delete names m)"
| "drop_keys names j = j"

definition lock_root :: "json \<Rightarrow> ustring option" where
  "lock_root lock = Option.bind (json_get ''root'' lock) as_str"

definition lock_nodes :: "json \<Rightarrow> jobject option" where
  "lock_nodes lock = Option.bind (json_get ''nodes'' lock) as_object"

definition root_inputs :: "jobject \<Rightarrow> ustring \<Rightarrow> jobject option" where
  "root_inputs nodes root = Option.bind (node_inputs nodes root) as_object"

definition drop_inputs :: "ustring \<Rightarrow> ustring list \<Rightarrow> jobject \<Rightarrow> jobject" where
  "drop_inputs root names nodes = obj_modify root (modify_member ''inputs'' (drop_keys names)) nodes"

definition set_nodes :: "jobject \<Rightarrow> json \<Rightarrow> json" where
  "set_nodes nodes lock = modify_member ''nodes'' (\<lambda>_. JObject nodes) lock"

definition prune_lock :: "json \<Rightarrow> ustring list \<Rightarrow> lock_error + json" where
  "prune_lock lock names =
     (case lock_root lock of
        None \<Rightarrow> err NoRoot
      | Some root \<Rightarrow>
          (case lock_nodes lock of
             None \<Rightarrow> err NoNodes
           | Some nodes \<Rightarrow>
               (case root_inputs nodes root of
                  None \<Rightarrow> err NoRootInputs
                | Some inputs \<Rightarrow>
                    let kept = drop_inputs root names nodes in
                    (case reachable_nodes kept root {} [root] of
                       Inl e \<Rightarrow> err e
                     | Inr seen \<Rightarrow> ok (set_nodes (filter (\<lambda>(n, _). n \<in> seen) kept) lock)))))"

section \<open>What is reached\<close>

inductive lock_reach :: "jobject \<Rightarrow> ustring \<Rightarrow> ustring \<Rightarrow> bool" for nodes root where
  base [intro]: "lock_reach nodes root root"
| link: "lock_reach nodes root n \<Longrightarrow> map_of nodes n = Some node \<Longrightarrow> c \<in> set (children node)
    \<Longrightarrow> lock_resolve nodes root c [] = ok m \<Longrightarrow> lock_reach nodes root m"

definition links_ok :: "jobject \<Rightarrow> ustring \<Rightarrow> ustring \<Rightarrow> bool" where
  "links_ok nodes root n \<longleftrightarrow>
     (\<exists>node. map_of nodes n = Some node \<and> (\<forall>c \<in> set (children node). \<exists>m. lock_resolve nodes root c [] = ok m))"

lemma push_children_ok:
  "push_children nodes root cs pending = ok pending' \<Longrightarrow>
     (\<forall>c \<in> set cs. \<exists>m \<in> set pending'. lock_resolve nodes root c [] = ok m)
   \<and> set pending' = set pending \<union> {m. \<exists>c \<in> set cs. lock_resolve nodes root c [] = ok m}"
proof (induction cs arbitrary: pending)
  case (Cons c cs)
  then obtain m where m: "lock_resolve nodes root c [] = ok m" "push_children nodes root cs (m # pending) = ok pending'"
    by (auto split: sum.splits)
  from Cons.IH[OF m(2)] m(1) show ?case by auto
qed simp

lemma push_children_err:
  "push_children nodes root cs pending = err e \<Longrightarrow> \<exists>c \<in> set cs. lock_resolve nodes root c [] = err e"
  by (induction cs arbitrary: pending) (auto split: sum.splits)

text \<open>Nodes seen have links that are seen or pending, and only reached nodes are either.\<close>

definition scan_inv :: "jobject \<Rightarrow> ustring \<Rightarrow> ustring set \<Rightarrow> ustring list \<Rightarrow> bool" where
  "scan_inv nodes root seen pending \<longleftrightarrow>
     root \<in> seen \<union> set pending
   \<and> (\<forall>n \<in> seen \<union> set pending. lock_reach nodes root n)
   \<and> (\<forall>n \<in> seen. \<exists>node. map_of nodes n = Some node
        \<and> (\<forall>c \<in> set (children node). \<exists>m \<in> seen \<union> set pending. lock_resolve nodes root c [] = ok m))"

lemma scan_inv_step:
  assumes "scan_inv nodes root seen (n # pending)" "map_of nodes n = Some node"
    and "push_children nodes root (children node) pending = ok pending'"
  shows "scan_inv nodes root (insert n seen) pending'"
proof -
  note p = push_children_ok[OF assms(3)]
  have "lock_reach nodes root m" if "m \<in> set pending'" for m
    using that p assms(1,2) lock_reach.link[of nodes root n node _ m] by (auto simp: scan_inv_def)
  moreover have sub: "seen \<union> set (n # pending) \<subseteq> insert n seen \<union> set pending'" using p by auto
  moreover have "\<exists>node. map_of nodes x = Some node
      \<and> (\<forall>c \<in> set (children node). \<exists>m \<in> insert n seen \<union> set pending'. lock_resolve nodes root c [] = ok m)"
    if x: "x \<in> insert n seen" for x
  proof (cases "x = n")
    case True
    with assms(2) p show ?thesis by auto
  next
    case False
    with x assms(1) obtain node' where "map_of nodes x = Some node'"
      "\<forall>c \<in> set (children node'). \<exists>m \<in> seen \<union> set (n # pending). lock_resolve nodes root c [] = ok m"
      unfolding scan_inv_def by blast
    with sub show ?thesis by blast
  qed
  ultimately show ?thesis
    using assms(1) unfolding scan_inv_def by auto
qed

lemma scan_inv_skip: "n \<in> seen \<Longrightarrow> scan_inv nodes root seen (n # pending) = scan_inv nodes root seen pending"
  by (auto simp: scan_inv_def insert_absorb)

lemma scan_result:
  "scan_inv nodes root seen pending \<Longrightarrow> reachable_nodes nodes root seen pending = ok seen'
    \<Longrightarrow> scan_inv nodes root seen' []"
proof (induction nodes root seen pending rule: reachable_nodes.induct)
  case (2 nodes root seen n pending)
  then show ?case
    by (auto split: option.splits sum.splits if_splits dest: scan_inv_step simp: scan_inv_skip)
qed simp

lemma scan_error:
  "scan_inv nodes root seen pending \<Longrightarrow> reachable_nodes nodes root seen pending = err e
    \<Longrightarrow> \<exists>n. lock_reach nodes root n \<and> \<not> links_ok nodes root n"
proof (induction nodes root seen pending rule: reachable_nodes.induct)
  case (2 nodes root seen n pending)
  have n: "lock_reach nodes root n" using 2(3) by (simp add: scan_inv_def)
  show ?case
  proof (cases "n \<in> seen")
    case True
    with 2 show ?thesis by (simp add: scan_inv_skip)
  next
    case False
    show ?thesis
    proof (cases "links_ok nodes root n")
      case True
      then obtain node where node: "map_of nodes n = Some node"
        and links: "\<forall>c \<in> set (children node). \<exists>m. lock_resolve nodes root c [] = ok m"
        by (auto simp: links_ok_def)
      then obtain pending' where "push_children nodes root (children node) pending = ok pending'"
        using push_children_err by (cases "push_children nodes root (children node) pending") fastforce+
      with False node 2 show ?thesis by (auto dest: scan_inv_step)
    qed (use n in blast)
  qed
qed simp

lemma scan_closed:
  assumes "scan_inv nodes root seen []"
  shows "seen = {n. lock_reach nodes root n}" "lock_reach nodes root n \<Longrightarrow> links_ok nodes root n"
proof -
  have "n \<in> seen" if "lock_reach nodes root n" for n
    using that
  proof induction
    case base
    with assms show ?case by (simp add: scan_inv_def)
  next
    case (link n node c m)
    with assms show ?case by (fastforce simp: scan_inv_def)
  qed
  with assms show eq: "seen = {n. lock_reach nodes root n}" by (auto simp: scan_inv_def)
  show "links_ok nodes root n" if "lock_reach nodes root n"
    using assms that eq by (fastforce simp: scan_inv_def links_ok_def)
qed

lemma scan_reference:
  "reachable_nodes nodes root {} [root] = ok seen \<longleftrightarrow>
     (\<forall>n. lock_reach nodes root n \<longrightarrow> links_ok nodes root n) \<and> seen = {n. lock_reach nodes root n}"
proof -
  have inv: "scan_inv nodes root {} [root]" by (auto simp: scan_inv_def)
  show ?thesis
  proof (cases "reachable_nodes nodes root {} [root]")
    case (Inl e)
    with scan_error[OF inv] show ?thesis by auto
  next
    case (Inr s)
    from scan_closed[OF scan_result[OF inv Inr]] Inr show ?thesis by auto
  qed
qed

section \<open>Reading the result back\<close>

lemma map_of_modify [simp]: "map_of (obj_modify k f m) x = (if x = k then map_option f (map_of m x) else map_of m x)"
  by (induction m) (auto simp: obj_modify_def)

lemma json_get_modify [simp]:
  "json_get x (modify_member k f j) = (if x = k then map_option f (json_get x j) else json_get x j)"
  by (cases j) auto

lemma obj_modify_twice: "obj_modify k (\<lambda>_. v) (obj_modify k (\<lambda>_. w) m) = obj_modify k (\<lambda>_. v) m"
  by (auto simp: obj_modify_def)

lemma set_nodes_twice [simp]: "set_nodes n (set_nodes n' lock) = set_nodes n lock"
  by (cases lock) (auto simp: set_nodes_def obj_modify_twice)

lemma lock_root_set_nodes [simp]: "lock_root (set_nodes n lock) = lock_root lock"
  by (simp add: lock_root_def set_nodes_def)

lemma lock_nodes_set_nodes [simp]: "lock_nodes lock = Some m \<Longrightarrow> lock_nodes (set_nodes n lock) = Some n"
  by (auto simp: lock_nodes_def set_nodes_def bind_eq_Some_conv)

lemma fold_delete: "fold AList.delete names m = filter (\<lambda>(k, _). k \<notin> set names) m"
proof (induction names arbitrary: m)
  case (Cons k names)
  then show ?case by (auto simp: AList.delete_eq intro: filter_cong)
qed (simp add: case_prod_beta)

lemma drop_keys_twice [simp]: "drop_keys names (drop_keys names j) = drop_keys names j"
  by (cases j) (simp_all add: fold_delete)

lemma modify_member_twice: "(\<And>v. f (f v) = f v) \<Longrightarrow> modify_member k f (modify_member k f j) = modify_member k f j"
  by (cases j) (auto simp: obj_modify_def)

lemma drop_inputs_filter:
  "drop_inputs root names (filter (\<lambda>(n, _). P n) (drop_inputs root names nodes))
     = filter (\<lambda>(n, _). P n) (drop_inputs root names nodes)"
  by (induction nodes) (auto simp: drop_inputs_def obj_modify_def modify_member_twice)

lemma map_of_filter_key: "map_of (filter (\<lambda>(n, _). P n) m) x = (if P x then map_of m x else None)"
  by (induction m) auto

lemma root_inputs_drop:
  "root_inputs nodes root = Some inputs \<Longrightarrow> \<exists>inputs'. root_inputs (drop_inputs root names nodes) root = Some inputs'"
proof -
  assume "root_inputs nodes root = Some inputs"
  then obtain node where "map_of nodes root = Some node" "json_get ''inputs'' node = Some (JObject inputs)"
    by (auto simp: root_inputs_def node_inputs_def bind_eq_Some_conv elim!: as_object.elims)
  then show ?thesis
    by (auto simp: root_inputs_def node_inputs_def drop_inputs_def)
qed

section \<open>Pruned locks are closed\<close>

lemma resolve_mono:
  "lock_resolve nodes root link trail = ok n \<Longrightarrow> set trail' \<subseteq> set trail
     \<Longrightarrow> lock_resolve nodes root link trail' = ok n"
  "follow nodes root p current trail = ok n \<Longrightarrow> set trail' \<subseteq> set trail
     \<Longrightarrow> follow nodes root p current trail' = ok n"
proof (induction nodes root link trail and nodes root p current trail arbitrary: n trail' and n trail'
    rule: lock_resolve_follow.induct)
  case (1 nodes root link trail)
  show ?case
  proof (cases "as_str link")
    case None
    with 1(2) obtain p where p: "as_array link = Some p" "link \<notin> set trail"
      "follow nodes root p root (trail @ [link]) = ok n"
      by (auto simp: lock_resolve.simps[of nodes root link trail] split: option.splits if_splits)
    from 1(1)[OF None p(1,2) p(3), of "trail' @ [link]"] p None 1(3) show ?thesis
      by (auto simp: lock_resolve.simps[of nodes root link trail'])
  qed (use 1(2) in \<open>simp add: lock_resolve.simps\<close>)
next
  case (3 nodes root part p current trail)
  from 3(3) obtain k nxt m where k: "as_str part = Some k" "follow_edge nodes current k = Some nxt"
    and m: "lock_resolve nodes root nxt trail = ok m" and p: "follow nodes root p m trail = ok n"
    by (auto split: option.splits sum.splits)
  from 3(1)[OF k m 3(4)] 3(2)[OF k m p 3(4)] k show ?case by simp
qed simp

lemma resolve_restrict:
  assumes "\<And>n. lock_reach nodes root n \<Longrightarrow> map_of nodes' n = map_of nodes n"
  shows "lock_resolve nodes root link trail = ok n \<Longrightarrow> lock_resolve nodes' root link trail = ok n"
    and "follow nodes root p current trail = ok n \<Longrightarrow> lock_reach nodes root current
      \<Longrightarrow> follow nodes' root p current trail = ok n"
  using assms
proof (induction nodes root link trail and nodes root p current trail arbitrary: n and n
    rule: lock_resolve_follow.induct)
  case (1 nodes root link trail)
  show ?case
  proof (cases "as_str link")
    case None
    with 1(2) obtain p where p: "as_array link = Some p" "link \<notin> set trail"
      "follow nodes root p root (trail @ [link]) = ok n"
      by (auto simp: lock_resolve.simps[of nodes root link trail] split: option.splits if_splits)
    from 1(1)[OF None p(1,2) p(3) lock_reach.base 1(3)] p None show ?thesis
      by (simp add: lock_resolve.simps[of nodes' root link trail])
  qed (use 1(2) in \<open>simp add: lock_resolve.simps\<close>)
next
  case (3 nodes root part p current trail)
  from 3(3) obtain k nxt m where k: "as_str part = Some k" "follow_edge nodes current k = Some nxt"
    and m: "lock_resolve nodes root nxt trail = ok m" and p: "follow nodes root p m trail = ok n"
    by (auto split: option.splits sum.splits)
  from k(2) obtain node inputs where node: "map_of nodes current = Some node"
    "json_get ''inputs'' node = Some inputs" "json_get k inputs = Some nxt"
    by (auto simp: follow_edge_Some)
  have "lock_reach nodes root m"
    using lock_reach.link[OF 3(4) node(1) json_get_child[OF node(3,2)] resolve_mono(1)[OF m]] by simp
  moreover have "follow_edge nodes' current k = Some nxt"
    using 3(4,5) node by (auto simp: follow_edge_Some)
  ultimately show ?case
    using 3(1)[OF k m 3(5)] 3(2)[OF k m p] 3(5) k(1) by simp
qed simp

lemma reach_restrict:
  assumes agree: "\<And>n. lock_reach nodes root n \<Longrightarrow> map_of nodes' n = map_of nodes n"
    and links: "\<And>n. lock_reach nodes root n \<Longrightarrow> links_ok nodes root n"
  shows "lock_reach nodes' root n \<longleftrightarrow> lock_reach nodes root n"
    and "lock_reach nodes root n \<Longrightarrow> links_ok nodes' root n"
proof -
  show ok': "links_ok nodes' root n" if "lock_reach nodes root n" for n
    using links[OF that] agree[OF that] resolve_restrict(1)[OF agree] by (fastforce simp: links_ok_def)
  have "lock_reach nodes root n" if "lock_reach nodes' root n"
    using that
  proof induction
    case (link n node c m)
    then have node: "map_of nodes n = Some node" using agree by simp
    with links[of n] link obtain m' where "lock_resolve nodes root c [] = ok m'"
      by (auto simp: links_ok_def)
    with resolve_restrict(1)[OF agree this] link node show ?case
      by (auto intro: lock_reach.link)
  qed auto
  moreover have "lock_reach nodes' root n" if "lock_reach nodes root n"
    using that
  proof induction
    case (link n node c m)
    then show ?case
      using agree[of n] resolve_restrict(1)[OF agree link(4)] by (auto intro: lock_reach.link)
  qed auto
  ultimately show "lock_reach nodes' root n \<longleftrightarrow> lock_reach nodes root n" by blast
qed

text \<open>Keeping only what is reached changes neither what is reached nor how its links resolve.\<close>

lemma kept_closed:
  assumes links: "{n. lock_reach kept root n} \<subseteq> {n. links_ok kept root n}"
    and nodes': "nodes' = filter (\<lambda>(n, _). lock_reach kept root n) kept"
  shows "map_of nodes' root = map_of kept root"
    and "fst ` set nodes' = {n. lock_reach nodes' root n}"
    and "{n. lock_reach nodes' root n} \<subseteq> {n. links_ok nodes' root n}"
    and "filter (\<lambda>(n, _). lock_reach nodes' root n) nodes' = nodes'"
proof -
  have agree: "map_of nodes' n = map_of kept n" if "lock_reach kept root n" for n
    using that by (simp add: nodes' map_of_filter_key)
  have links: "links_ok kept root n" if "lock_reach kept root n" for n
    using links that by auto
  note reach = reach_restrict[OF agree links]
  have eq: "lock_reach nodes' root = lock_reach kept root" by (intro ext reach(1))
  show "map_of nodes' root = map_of kept root" by (rule agree) auto
  show names: "fst ` set nodes' = {n. lock_reach nodes' root n}"
  proof -
    have "n \<in> fst ` set nodes'" if n: "lock_reach kept root n" for n
    proof -
      from links[OF n] obtain node where "map_of kept n = Some node" by (auto simp: links_ok_def)
      with agree[OF n] have "map_of nodes' n = Some node" by simp
      then show ?thesis by (force dest: map_of_SomeD)
    qed
    moreover have "lock_reach kept root a" if "(a, b) \<in> set nodes'" for a b
      using that by (simp add: nodes')
    ultimately show ?thesis unfolding eq by auto
  qed
  show "{n. lock_reach nodes' root n} \<subseteq> {n. links_ok nodes' root n}"
    using reach by auto
  show "filter (\<lambda>(n, _). lock_reach nodes' root n) nodes' = nodes'"
    unfolding eq by (simp add: nodes' split_def)
qed

section \<open>Properties\<close>

text \<open>
  C30. Pruning succeeds exactly when the lock has a root, nodes and an object of root inputs, and
  every node the root still reaches once the named inputs are dropped is present with links that
  resolve. The result is then the lock with exactly those nodes, each as it was apart from the
  dropped inputs of the root, and every other member untouched.
\<close>

theorem prune_lock_reference:
  "prune_lock lock names = ok lock' \<longleftrightarrow>
     (\<exists>root nodes inputs.
        lock_root lock = Some root \<and> lock_nodes lock = Some nodes \<and> root_inputs nodes root = Some inputs
      \<and> {n. lock_reach (drop_inputs root names nodes) root n} \<subseteq> {n. links_ok (drop_inputs root names nodes) root n}
      \<and> lock' = set_nodes (filter (\<lambda>(n, _). lock_reach (drop_inputs root names nodes) root n)
          (drop_inputs root names nodes)) lock)"
proof (cases "lock_root lock = None \<or> lock_nodes lock = None")
  case False
  then obtain root nodes where lock: "lock_root lock = Some root" "lock_nodes lock = Some nodes" by auto
  show ?thesis
  proof (cases "root_inputs nodes root")
    case (Some inputs)
    define kept where "kept = drop_inputs root names nodes"
    note ref = scan_reference[of kept root]
    show ?thesis
    proof (cases "reachable_nodes kept root {} [root]")
      case (Inl e)
      with ref have "\<not> {n. lock_reach kept root n} \<subseteq> {n. links_ok kept root n}" by auto
      with lock Some Inl show ?thesis by (simp add: prune_lock_def Let_def kept_def)
    next
      case (Inr seen)
      with ref have "{n. lock_reach kept root n} \<subseteq> {n. links_ok kept root n}" "seen = {n. lock_reach kept root n}"
        by auto
      with lock Some Inr show ?thesis by (auto simp: prune_lock_def Let_def kept_def)
    qed
  qed (use lock in \<open>simp add: prune_lock_def\<close>)
qed (auto simp: prune_lock_def split: option.split)

text \<open>
  C31. A pruned lock stands on its own: its nodes are exactly the ones its root reaches within it,
  each of their links resolves within it, and pruning it again changes nothing.
\<close>

theorem prune_lock_closed:
  assumes "prune_lock lock names = ok lock'"
  shows "(\<exists>root nodes. lock_root lock' = Some root \<and> lock_nodes lock' = Some nodes
       \<and> fst ` set nodes = {n. lock_reach nodes root n}
       \<and> {n. lock_reach nodes root n} \<subseteq> {n. links_ok nodes root n})
     \<and> prune_lock lock' names = ok lock'"
proof -
  from assms[unfolded prune_lock_reference] obtain root nodes inputs where
    lock: "lock_root lock = Some root" "lock_nodes lock = Some nodes" "root_inputs nodes root = Some inputs"
    and ok: "{n. lock_reach (drop_inputs root names nodes) root n}
        \<subseteq> {n. links_ok (drop_inputs root names nodes) root n}"
    and lock': "lock' = set_nodes (filter (\<lambda>(n, _). lock_reach (drop_inputs root names nodes) root n)
          (drop_inputs root names nodes)) lock"
    by blast
  define kept where "kept = drop_inputs root names nodes"
  define nodes' where "nodes' = filter (\<lambda>(n, _). lock_reach kept root n) kept"
  note closed = kept_closed[OF ok nodes'_def[unfolded kept_def]]
  have drop: "drop_inputs root names nodes' = nodes'"
    by (simp add: nodes'_def kept_def drop_inputs_filter)
  obtain inputs' where "root_inputs kept root = Some inputs'"
    using root_inputs_drop[OF lock(3)] by (auto simp: kept_def)
  then have inputs': "root_inputs nodes' root = Some inputs'"
    using closed(1) by (simp add: root_inputs_def node_inputs_def kept_def)
  have "lock' = set_nodes nodes' lock" by (simp add: lock' nodes'_def kept_def)
  with lock have parts: "lock_root lock' = Some root" "lock_nodes lock' = Some nodes'" "set_nodes nodes' lock' = lock'"
    by simp_all
  moreover have "prune_lock lock' names = ok lock'"
    unfolding prune_lock_reference using parts closed(3) inputs' by (auto simp: drop closed(4))
  ultimately show ?thesis using closed(2,3) by auto
qed

definition example_lock :: json where
  "example_lock = JObject
     [(''nodes'', JObject
        [(''app'', JObject [(''inputs'', JObject [(''np'', JArray [JString ''np''])])]),
         (''np'', JObject [(''pin'', JString ''abc'')]),
         (''old'', JObject []),
         (''root'', JObject [(''inputs'', JObject
            [(''app'', JString ''app''), (''local'', JString ''old''), (''np'', JString ''np'')])])]),
      (''root'', JString ''root''), (''version'', JNumber (PosInt 7))]"

lemma example_pruned:
  "prune_lock example_lock [''local''] = ok (JObject
     [(''nodes'', JObject
        [(''app'', JObject [(''inputs'', JObject [(''np'', JArray [JString ''np''])])]),
         (''np'', JObject [(''pin'', JString ''abc'')]),
         (''root'', JObject [(''inputs'', JObject
            [(''app'', JString ''app''), (''np'', JString ''np'')])])]),
      (''root'', JString ''root''), (''version'', JNumber (PosInt 7))])"
  by code_simp

theorem prune_lock_closed_witness:
  "\<exists>lock'. prune_lock example_lock [''local''] = ok lock' \<and> prune_lock lock' [''local''] = ok lock'"
  using prune_lock_closed[OF example_pruned] example_pruned by blast

end
