(* ===== verification/Local_Policy.thy ===== *)
theory Local_Policy
  imports Json_Value Rust_Text
begin

text \<open>
  Which inputs of a flake are local worktrees, and the rules they obey: \<open>resolve\<close> of
  \<open>shelllist-local-build/src/snapshot.rs\<close> and \<open>src/policy.rs\<close>. The environment holds what the code
  asks of the system: the links of the file system, the working directory, the existence of a
  path, the parsed manifest of a directory (\<open>toml\<close>), and the decoder of percent escapes
  (\<open>percent_encoding\<close>).
\<close>

section \<open>Canonical paths\<close>

text \<open>The three outcomes of \<open>read_link\<close> that the code tells apart.\<close>

datatype read_link = LinkTo ustring | NotALink | LinkError ustring

datatype local_error =
    TooManyLinks path
  | ResolveFailed path ustring
  | NoWorkingDirectory
  | NotCurrentWorktree ustring
  | OverridesNotObject
  | StandaloneHyprland
  | FrameworkNotLocal
  | MustFollow ustring
  | NotSibling ustring
  | ManifestUnreadable ustring
  | NoDependencies
  | NotSharedFramework ustring ustring
  | VendoredFramework ustring ustring

definition pop :: "path \<Rightarrow> path" where
  "pop p = (case parent p of None \<Rightarrow> p | Some q \<Rightarrow> q)"

text \<open>
  \<open>resolve_links\<close>: its loop over the components, where a link resolves the joined target one level
  deeper. The depth is checked on entry, here at the call.
\<close>

function resolve_components :: "(path \<Rightarrow> read_link) \<Rightarrow> path \<Rightarrow> path \<Rightarrow> nat \<Rightarrow> local_error + path" where
  "resolve_components rl resolved [] depth = ok resolved"
| "resolve_components rl resolved (c # cs) depth =
     (case c of
        ParentDir \<Rightarrow> resolve_components rl (pop resolved) cs depth
      | CurDir \<Rightarrow> resolve_components rl resolved cs depth
      | _ \<Rightarrow>
          let r = join resolved [c] in
          (case rl r of
             NotALink \<Rightarrow> resolve_components rl r cs depth
           | LinkError e \<Rightarrow> err (ResolveFailed r e)
           | LinkTo target \<Rightarrow>
               let p = join (pop r) (components target) in
               if Suc depth < 40
               then (case resolve_components rl [] p (Suc depth) of
                       Inl e \<Rightarrow> err e
                     | Inr r' \<Rightarrow> resolve_components rl r' cs depth)
               else err (TooManyLinks p)))"
  by pat_completeness auto
termination
  by (relation "measures [\<lambda>(rl, resolved, cs, depth). 40 - depth, \<lambda>(rl, resolved, cs, depth). length cs]") auto

definition resolve_links :: "(path \<Rightarrow> read_link) \<Rightarrow> path \<Rightarrow> nat \<Rightarrow> local_error + path" where
  "resolve_links rl p depth = (if depth < 40 then resolve_components rl [] p depth else err (TooManyLinks p))"

text \<open>Of a parsed manifest the code reads tables and strings.\<close>

datatype toml = TString ustring | TTable "(ustring \<times> toml) list" | TOther

record local_env =
  link_at :: "path \<Rightarrow> read_link"
  working_dir :: "path option"
  path_exists :: "path \<Rightarrow> bool"
  percent_decode :: "ustring \<Rightarrow> ustring"
  cargo_manifest :: "path \<Rightarrow> ustring + toml"

definition resolve :: "local_env \<Rightarrow> path \<Rightarrow> local_error + path" where
  "resolve env p =
     (case working_dir env of
        None \<Rightarrow> err NoWorkingDirectory
      | Some d \<Rightarrow> resolve_links (link_at env) (join d p) 0)"

section \<open>Local inputs\<close>

text \<open>The worktree an input names, if it names one, relative to the flake that declares it.\<close>

definition local_path :: "local_env \<Rightarrow> json \<Rightarrow> path \<Rightarrow> local_error + path option" where
  "local_path env spec base =
     (case Option.bind (json_get ''url'' spec) as_str of
        None \<Rightarrow> ok None
      | Some url \<Rightarrow>
          (case strip_prefix ''git+file:'' url of
             None \<Rightarrow> ok None
           | Some file \<Rightarrow>
               if CHR ''?'' \<in> set file \<or> CHR ''#'' \<in> set file then err (NotCurrentWorktree url)
               else
                 let (host, p) =
                   (case strip_prefix ''//'' file of
                      Some authority \<Rightarrow>
                        (takeWhile (\<lambda>c. c \<noteq> CHR ''/'') authority, dropWhile (\<lambda>c. c \<noteq> CHR ''/'') authority)
                    | None \<Rightarrow> ([], file))
                 in if host \<noteq> [] \<and> host \<noteq> ''localhost'' then err (NotCurrentWorktree url)
                    else (case resolve env (join base (components (percent_decode env p))) of
                            Inl e \<Rightarrow> err e
                          | Inr r \<Rightarrow> ok (Some r))))"

text \<open>The overlay wins, except that two objects are merged member by member.\<close>

fun merge :: "jobject \<Rightarrow> jobject \<Rightarrow> jobject" where
  "merge target [] = target"
| "merge target ((k, v) # overlay) =
     merge
       (case (map_of target k, v) of
          (Some (JObject l), JObject r) \<Rightarrow> obj_insert k (JObject (merge l r)) target
        | _ \<Rightarrow> obj_insert k v target)
       overlay"

definition overlaid :: "jobject \<Rightarrow> jobject option \<Rightarrow> jobject" where
  "overlaid inputs overlay =
     (case overlay of None \<Rightarrow> inputs | Some m \<Rightarrow> if m = [] then inputs else merge inputs m)"

text \<open>An input that follows another is not an edge of its own.\<close>

definition direct_inputs :: "jobject \<Rightarrow> jobject" where
  "direct_inputs inputs = filter (\<lambda>(_, spec). json_get ''follows'' spec = None) inputs"

definition nested_inputs :: "json \<Rightarrow> local_error + jobject option" where
  "nested_inputs spec =
     (case json_get ''inputs'' spec of
        None \<Rightarrow> ok None
      | Some v \<Rightarrow> (case as_object v of None \<Rightarrow> err OverridesNotObject | Some m \<Rightarrow> ok (Some m)))"

section \<open>Rules\<close>

lemma nested_inputs_smaller:
  assumes "nested_inputs spec = ok (Some m)"
  shows "size_list (size_prod (\<lambda>_. 0) size) m < size spec"
proof -
  from assms obtain o' where spec: "spec = JObject o'" and "map_of o' ''inputs'' = Some (JObject m)"
    by (cases spec) (auto simp: nested_inputs_def split: option.splits elim!: as_object.elims)
  then have "(''inputs'', JObject m) \<in> set o'" by (simp add: map_of_SomeD)
  then have "size (JObject m) < size_list (size_prod (\<lambda>_. 0) size) o'"
    by (intro size_list_estimation[of _ o']) auto
  with spec show ?thesis by simp
qed

function reject_standalone_hyprland :: "jobject \<Rightarrow> local_error + unit" where
  "reject_standalone_hyprland [] = ok ()"
| "reject_standalone_hyprland ((name, spec) # inputs) =
     (if name = ''hyprlandIpc'' \<or> name = ''shelllist-hyprland'' then err StandaloneHyprland
      else
        (case nested_inputs spec of
           Inl e \<Rightarrow> err e
         | Inr None \<Rightarrow> reject_standalone_hyprland inputs
         | Inr (Some m) \<Rightarrow>
             (case reject_standalone_hyprland m of
                Inl e \<Rightarrow> err e
              | Inr _ \<Rightarrow> reject_standalone_hyprland inputs)))"
  by pat_completeness auto
termination
  by (relation "measure (size_list (size_prod (\<lambda>_. 0) size))") (auto dest!: nested_inputs_smaller)

definition DAEMONS :: "ustring list" where
  "DAEMONS = [''app-daemon'', ''bar-daemon'', ''bt-daemon'', ''clip-daemon'', ''nm-daemon'']"

definition follows_at :: "ustring \<Rightarrow> json \<Rightarrow> ustring option" where
  "follows_at name input = as_str (json_index ''follows'' (json_index name (json_index ''inputs'' input)))"

definition validate_root :: "local_env \<Rightarrow> jobject \<Rightarrow> bool \<Rightarrow> local_error + unit" where
  "validate_root env root_inputs framework_captured =
     (case map_of root_inputs ''daemon-framework'' of
        None \<Rightarrow> ok ()
      | Some framework \<Rightarrow>
          (case local_path env framework [RootDir] of
             Inl e \<Rightarrow> err e
           | Inr lp \<Rightarrow>
               if lp = None \<or> \<not> framework_captured then err FrameworkNotLocal
               else
                 (case List.find (\<lambda>name. case map_of root_inputs name of
                       None \<Rightarrow> False
                     | Some input \<Rightarrow> follows_at ''daemonFramework'' input \<noteq> Some ''daemon-framework'') DAEMONS of
                    Some name \<Rightarrow> err (MustFollow name)
                  | None \<Rightarrow>
                      (case map_of root_inputs ''shelllist'' of
                         None \<Rightarrow> ok ()
                       | Some shelllist \<Rightarrow>
                           (case List.find (\<lambda>name. follows_at name shelllist \<noteq> Some name)
                               (''daemon-framework'' # DAEMONS) of
                              Some name \<Rightarrow> err (MustFollow name)
                            | None \<Rightarrow> ok ())))))"

fun toml_get :: "ustring \<Rightarrow> toml \<Rightarrow> toml option" where
  "toml_get k (TTable t) = map_of t k"
| "toml_get k _ = None"

fun toml_table :: "toml \<Rightarrow> (ustring \<times> toml) list option" where
  "toml_table (TTable t) = Some t"
| "toml_table _ = None"

definition shared_dependency :: "ustring \<Rightarrow> (ustring \<times> toml) list \<Rightarrow> bool" where
  "shared_dependency crate dependencies =
     (case Option.bind (map_of dependencies crate) toml_table of
        None \<Rightarrow> False
      | Some d \<Rightarrow>
          map_of d ''path'' = Some (TString (''../daemon-framework/crates/'' @ crate))
        \<and> list_all (\<lambda>key. map_of d key = None) [''git'', ''rev'', ''branch'', ''tag''])"

definition validate_daemon :: "local_env \<Rightarrow> ustring \<Rightarrow> path \<Rightarrow> local_error + unit" where
  "validate_daemon env name directory =
     (case cargo_manifest env (join directory (components ''Cargo.toml'')) of
        Inl e \<Rightarrow> err (ManifestUnreadable e)
      | Inr manifest \<Rightarrow>
          (case Option.bind (toml_get ''dependencies'' manifest) toml_table of
             None \<Rightarrow> err NoDependencies
           | Some dependencies \<Rightarrow>
               let hyprland = name \<in> set [''app-daemon'', ''bar-daemon'']
                     \<or> map_of dependencies ''shelllist-hyprland'' \<noteq> None;
                   crates = [''shelllist-daemon-core'', ''shelllist-daemon-tokio'']
                     @ (if hyprland then [''shelllist-hyprland''] else [])
               in (case List.find (\<lambda>crate. \<not> shared_dependency crate dependencies) crates of
                     Some crate \<Rightarrow> err (NotSharedFramework name crate)
                   | None \<Rightarrow>
                       (case List.find (\<lambda>private. path_exists env (join directory (components private)))
                           [''vendor/daemon-framework'', ''vendor/shelllist-hyprland''] of
                          Some private \<Rightarrow> err (VendoredFramework name private)
                        | None \<Rightarrow> ok ()))))"

definition validate_source :: "local_env \<Rightarrow> path \<Rightarrow> path \<Rightarrow> jobject \<Rightarrow> local_error + unit" where
  "validate_source env source directory inputs =
     (case reject_standalone_hyprland inputs of
        Inl e \<Rightarrow> err e
      | Inr _ \<Rightarrow>
          let name = (case file_name source of None \<Rightarrow> [] | Some n \<Rightarrow> n) in
          if name \<notin> set DAEMONS then ok ()
          else
            (case validate_daemon env name directory of
               Inl e \<Rightarrow> err e
             | Inr _ \<Rightarrow>
                 (case local_path env (case map_of inputs ''daemonFramework'' of None \<Rightarrow> JNull | Some v \<Rightarrow> v) source of
                    Inl e \<Rightarrow> err e
                  | Inr framework \<Rightarrow>
                      if framework = map_option (\<lambda>p. join p (components ''daemon-framework'')) (parent source)
                      then ok () else err (NotSibling name))))"

section \<open>Resolution\<close>

text \<open>An absolute path of plain names none of whose prefixes is a link.\<close>

definition plain :: "path \<Rightarrow> bool" where
  "plain p \<longleftrightarrow> p \<noteq> [] \<and> hd p = RootDir \<and> list_all is_normal (tl p)"

definition canonical :: "(path \<Rightarrow> read_link) \<Rightarrow> path \<Rightarrow> bool" where
  "canonical rl p \<longleftrightarrow> plain p \<and> (\<forall>n. 0 < n \<and> n \<le> length p \<longrightarrow> rl (take n p) = NotALink)"

lemma plain_absolute: "plain p \<Longrightarrow> is_absolute p"
  by (simp add: plain_def is_absolute_def)

lemma canonical_pop:
  assumes "canonical rl p"
  shows "canonical rl (pop p)"
proof (cases p rule: rev_cases)
  case (snoc q x)
  show ?thesis
  proof (cases "q = []")
    case True
    with assms snoc show ?thesis by (auto simp: canonical_def plain_def pop_def parent_def)
  next
    case False
    then obtain a q' where q: "q = a # q'" by (cases q) auto
    with assms snoc have x: "is_normal x" by (simp add: canonical_def plain_def)
    then have "pop p = q" using snoc by (auto simp: pop_def parent_def)
    moreover have "rl (take n q) = NotALink" if n: "0 < n" "n \<le> length q" for n
      using assms n unfolding canonical_def snoc by (auto dest!: spec[of _ n])
    ultimately show ?thesis using assms snoc q by (simp add: canonical_def plain_def)
  qed
qed (use assms in \<open>simp add: canonical_def plain_def\<close>)

lemma canonical_push:
  assumes p: "canonical rl p \<or> p = [] \<and> c = RootDir" and c: "c \<noteq> ParentDir" "c \<noteq> CurDir"
    and rl: "rl (join p [c]) = NotALink"
  shows "canonical rl (join p [c])"
proof (cases c)
  case RootDir
  then have "join p [c] = [RootDir]" by (simp add: join_def is_absolute_def)
  with rl show ?thesis by (auto simp: canonical_def plain_def le_Suc_eq)
next
  case (Normal n)
  with p have can: "canonical rl p" by simp
  have j: "join p [c] = p @ [c]" using Normal by (simp add: join_def is_absolute_def)
  have "rl (take k (p @ [c])) = NotALink" if "0 < k" "k \<le> length (p @ [c])" for k
    using that can rl j by (cases "k \<le> length p") (auto simp: canonical_def le_Suc_eq)
  moreover have "plain (p @ [c])" using can Normal by (simp add: canonical_def plain_def)
  ultimately show ?thesis unfolding j canonical_def by blast
qed (use c in auto)

lemma join_absolute: "is_absolute p \<Longrightarrow> is_absolute (join p q)"
  by (auto simp: join_def is_absolute_def)

lemma pop_absolute: "is_absolute p \<Longrightarrow> is_absolute (pop p)"
  by (cases p) (auto simp: pop_def parent_def is_absolute_def)

lemma resolve_components_push:
  assumes "c \<noteq> ParentDir" "c \<noteq> CurDir" "resolve_components rl resolved (c # cs) depth = ok r"
  obtains (name) "rl (join resolved [c]) = NotALink" "resolve_components rl (join resolved [c]) cs depth = ok r"
  | (link) target r' where "rl (join resolved [c]) = LinkTo target" "Suc depth < 40"
      "resolve_components rl [] (join (pop (join resolved [c])) (components target)) (Suc depth) = ok r'"
      "resolve_components rl r' cs depth = ok r"
  using assms by (cases c) (auto simp: Let_def split: read_link.splits sum.splits if_splits)

lemma resolve_components_canonical:
  "resolve_components rl resolved cs depth = ok r
    \<Longrightarrow> canonical rl resolved \<or> resolved = [] \<and> is_absolute cs \<Longrightarrow> canonical rl r"
proof (induction "40 - depth" arbitrary: resolved cs depth r rule: less_induct)
  case less
  from less.prems show ?case
  proof (induction cs arbitrary: resolved)
    case Nil
    then show ?case by (simp add: is_absolute_def)
  next
    case (Cons c cs)
    have start: "canonical rl resolved \<or> resolved = [] \<and> c = RootDir"
      using Cons.prems(2) by (auto simp: is_absolute_def)
    consider "c = ParentDir" | "c = CurDir" | "c \<noteq> ParentDir" "c \<noteq> CurDir" by blast
    then show ?case
    proof cases
      case 3
      from 3 Cons.prems(1) show ?thesis
      proof (cases rule: resolve_components_push)
        case name
        with Cons.IH canonical_push[OF start 3] show ?thesis by blast
      next
        case (link target r')
        have "is_absolute (join resolved [c])"
          using start plain_absolute
          by (auto intro: join_absolute simp: canonical_def join_def is_absolute_def)
        then have "canonical rl r'"
          using less.hyps[OF _ link(3)] link(2) by (simp add: join_absolute pop_absolute)
        with Cons.IH link show ?thesis by blast
      qed
    qed (use Cons start canonical_pop in auto)
  qed
qed

lemma resolve_components_fixed:
  assumes "canonical rl p"
  shows "resolve_components rl [] p depth = ok p"
proof -
  have "canonical rl (q @ r) \<Longrightarrow> q \<noteq> [] \<Longrightarrow> resolve_components rl q r depth = ok (q @ r)" for q r
  proof (induction r arbitrary: q)
    case (Cons c r)
    then obtain n where c: "c = Normal n" by (cases c; cases q) (auto simp: canonical_def plain_def)
    have j: "join q [c] = q @ [c]" using c by (simp add: join_def is_absolute_def)
    have "rl (q @ [c]) = NotALink"
      using Cons.prems(1) unfolding canonical_def by (auto dest!: spec[of _ "Suc (length q)"])
    with Cons.IH[of "q @ [c]"] Cons.prems c j show ?case by (simp add: Let_def)
  qed simp
  moreover obtain q where p: "p = RootDir # q" using assms by (cases p) (auto simp: canonical_def plain_def)
  moreover have "rl [RootDir] = NotALink"
    using assms p unfolding canonical_def by (auto dest!: spec[of _ 1])
  ultimately show ?thesis
    using assms by (simp add: Let_def join_def is_absolute_def)
qed

lemma join_of_absolute [simp]: "is_absolute q \<Longrightarrow> join p q = q"
  by (simp add: join_def)

lemma resolve_ok_canonical:
  assumes "working_dir env = Some d" "is_absolute d" "resolve env p = ok r"
  shows "canonical (link_at env) r"
proof -
  have "resolve_components (link_at env) [] (join d p) 0 = ok r"
    using assms by (simp add: resolve_def resolve_links_def)
  with assms(2) show ?thesis by (auto intro: resolve_components_canonical join_absolute)
qed

lemma canonical_resolve:
  assumes "working_dir env = Some d" "canonical (link_at env) r"
  shows "resolve env r = ok r"
  using assms resolve_components_fixed[OF assms(2)] plain_absolute
  by (simp add: resolve_def resolve_links_def canonical_def)

lemma local_path_canonical:
  assumes "working_dir env = Some d" "is_absolute d" "local_path env spec base = ok (Some r)"
  shows "canonical (link_at env) r"
  using assms(3) resolve_ok_canonical[OF assms(1,2)]
  by (auto simp: local_path_def Let_def split: option.splits if_splits prod.splits sum.splits)

section \<open>Overlays\<close>

text \<open>What a member becomes that the overlay has.\<close>

definition merged :: "json option \<Rightarrow> json \<Rightarrow> json" where
  "merged old v = (case (old, v) of (Some (JObject l), JObject r) \<Rightarrow> JObject (merge l r) | _ \<Rightarrow> v)"

lemma merge_Cons: "merge target ((k, v) # overlay) = merge (obj_insert k (merged (map_of target k) v) target) overlay"
  by (auto simp: merged_def split: option.splits json.splits)

lemma merge_lookup:
  assumes "map_ok overlay"
  shows "map_of (merge target overlay) k =
     (case map_of overlay k of None \<Rightarrow> map_of target k | Some v \<Rightarrow> Some (merged (map_of target k) v))"
  using assms
proof (induction overlay arbitrary: target)
  case (Cons x overlay)
  obtain k' v where x: "x = (k', v)" by force
  have "map_of overlay k' = None" using Cons.prems by (simp add: x map_ok_def map_of_eq_None_iff)
  then show ?case
    using Cons by (auto simp: x merge_Cons map_ok_def simp del: merge.simps(2) split: option.split)
qed simp

lemma merge_sorted: "sorted_map target \<Longrightarrow> sorted_map (merge target overlay)"
proof (induction overlay arbitrary: target)
  case (Cons x overlay)
  obtain k v where "x = (k, v)" by force
  with Cons show ?case by (auto split: option.splits json.splits)
qed simp

section \<open>Nested inputs\<close>

inductive input_below :: "jobject \<Rightarrow> ustring \<Rightarrow> json \<Rightarrow> bool" where
  here: "(name, spec) \<in> set inputs \<Longrightarrow> input_below inputs name spec"
| nested: "(name, spec) \<in> set inputs \<Longrightarrow> nested_inputs spec = ok (Some m) \<Longrightarrow> input_below m name' spec'
    \<Longrightarrow> input_below inputs name' spec'"

inductive_cases input_below_NilE: "input_below [] name spec"
inductive_cases input_below_E: "input_below inputs name spec"

definition acceptable :: "ustring \<Rightarrow> json \<Rightarrow> bool" where
  "acceptable name spec \<longleftrightarrow> name \<noteq> ''hyprlandIpc'' \<and> name \<noteq> ''shelllist-hyprland'' \<and> (\<exists>m. nested_inputs spec = ok m)"

lemma input_below_Cons:
  "input_below ((name, spec) # inputs) n s \<longleftrightarrow>
     n = name \<and> s = spec \<or> (\<exists>m. nested_inputs spec = ok (Some m) \<and> input_below m n s) \<or> input_below inputs n s"
proof
  assume "input_below ((name, spec) # inputs) n s"
  then show "n = name \<and> s = spec \<or> (\<exists>m. nested_inputs spec = ok (Some m) \<and> input_below m n s) \<or> input_below inputs n s"
  proof cases
    case here
    then show ?thesis by (auto intro: input_below.here)
  next
    case (nested name' spec' m)
    then show ?thesis by (auto intro: input_below.nested)
  qed
next
  assume "n = name \<and> s = spec \<or> (\<exists>m. nested_inputs spec = ok (Some m) \<and> input_below m n s) \<or> input_below inputs n s"
  moreover have "input_below ((name, spec) # inputs) n s" if "input_below inputs n s"
    using that by cases (auto intro: input_below.intros)
  moreover have "input_below ((name, spec) # inputs) n s" if "nested_inputs spec = ok (Some m)" "input_below m n s" for m
    using that by (auto intro: input_below.nested)
  ultimately show "input_below ((name, spec) # inputs) n s" by (auto intro: input_below.here)
qed

lemma reject_standalone_exact:
  "reject_standalone_hyprland inputs = ok () \<longleftrightarrow> (\<forall>n s. input_below inputs n s \<longrightarrow> acceptable n s)"
proof (induction inputs rule: reject_standalone_hyprland.induct)
  case 1
  show ?case by (auto elim: input_below_NilE)
next
  case (2 name spec inputs)
  show ?case
  proof (cases "acceptable name spec")
    case False
    then show ?thesis
      by (auto simp: acceptable_def input_below_Cons split: sum.splits)
  next
    case True
    then obtain m where n: "name \<noteq> ''hyprlandIpc''" "name \<noteq> ''shelllist-hyprland''" "nested_inputs spec = ok m"
      by (auto simp: acceptable_def)
    with 2 True show ?thesis
      by (cases m) (auto simp: input_below_Cons split: sum.splits)
  qed
qed

section \<open>Properties\<close>


definition linked_env :: local_env where
  "linked_env = \<lparr>link_at = (\<lambda>p. if p = [RootDir, Normal ''l''] then LinkTo ''a/../b'' else NotALink),
     working_dir = Some [RootDir, Normal ''l''], path_exists = \<lambda>_. False, percent_decode = \<lambda>s. s,
     cargo_manifest = \<lambda>_. Inl []\<rparr>"


end
