(* ===== verification/Snapshot.thy ===== *)
theory Snapshot
  imports Local_Policy
begin

text \<open>
  Snapshots of worktrees, \<open>shelllist-local-build/src/snapshot.rs\<close>, over a machine of type \<open>'w\<close>:
  what \<open>git\<close>, \<open>nix\<close> and the file system answer in a state, and the changes they make. A file system
  call that changes something is an \<open>fs_op\<close>; it may fail with the text of its error.
\<close>

section \<open>The machine\<close>

datatype file_kind = SymlinkFile | RegularFile | DirectoryFile | SpecialFile

record file_meta =
  file_kind :: file_kind
  modified_at :: nanos
  accessed_at :: nanos
  file_len :: nat
  file_mode_bits :: nat

datatype stat_result = Stat file_meta | StatMissing | StatError ustring

datatype fs_op =
    CreateDirAll path
  | CreateDir path
  | MakeSymlink ustring path
  | CopyContents path path
  | SetTimes path nanos nanos
  | SetPermissions path nat
  | WriteText path ustring

fun op_target :: "fs_op \<Rightarrow> path" where
  "op_target (CreateDirAll p) = p"
| "op_target (CreateDir p) = p"
| "op_target (MakeSymlink _ p) = p"
| "op_target (CopyContents _ p) = p"
| "op_target (SetTimes p _ _) = p"
| "op_target (SetPermissions p _) = p"
| "op_target (WriteText p _) = p"

record 'w machine =
  sys_view :: "'w \<Rightarrow> local_env"
  sys_lstat :: "'w \<Rightarrow> path \<Rightarrow> stat_result"
  sys_stat :: "'w \<Rightarrow> path \<Rightarrow> stat_result"
  sys_entries :: "'w \<Rightarrow> path \<Rightarrow> ustring + (ustring + ustring \<times> file_meta) list"
  sys_perform :: "fs_op \<Rightarrow> 'w \<Rightarrow> 'w \<times> (ustring + unit)"
  sys_git :: "path \<Rightarrow> ustring list \<Rightarrow> 'w \<Rightarrow> 'w \<times> (ustring + ustring)"
  nix_inputs :: "path \<Rightarrow> 'w \<Rightarrow> 'w \<times> (ustring + jobject)"
  nix_add_source :: "path \<Rightarrow> path \<Rightarrow> 'w \<Rightarrow> 'w \<times> (ustring + ustring)"
  nix_lock :: "path \<Rightarrow> (ustring \<times> ustring) list \<Rightarrow> 'w \<Rightarrow> 'w \<times> (ustring + unit)"

datatype build_error =
    Local local_error
  | Io ustring
  | NotARepositoryRoot path
  | UntrackedFiles path ustring
  | NoParent path
  | SymlinkEscapes path
  | UnsupportedEntry path
  | ChangedWhileCopying path
  | TreeTooDeep
  | DestinationExists path
  | DestinationInsideRoot
  | NoBasename path
  | BasenameCollision path
  | NotCaptured path
  | InputCycle path
  | RootNotCaptured
  | ApprovalCollision
  | OutOfFuel

type_synonym ('s, 'a) act = "'s \<Rightarrow> 's \<times> (build_error + 'a)"

text \<open>The \<open>?\<close> operator, on a computation that has a state.\<close>

fun and_then :: "'s \<times> ('e + 'a) \<Rightarrow> ('a \<Rightarrow> 's \<Rightarrow> 's \<times> ('e + 'b)) \<Rightarrow> 's \<times> ('e + 'b)" where
  "and_then (s, Inl e) f = (s, Inl e)"
| "and_then (s, Inr a) f = f a s"

fun with_error :: "('d \<Rightarrow> 'e) \<Rightarrow> 's \<times> ('d + 'a) \<Rightarrow> 's \<times> ('e + 'a)" where
  "with_error f (s, Inl e) = (s, Inl (f e))"
| "with_error f (s, Inr a) = (s, Inr a)"

definition try_in :: "('d \<Rightarrow> 'e) \<Rightarrow> 'd + 'a \<Rightarrow> 's \<Rightarrow> 's \<times> ('e + 'a)" where
  "try_in f r s = with_error f (s, r)"

lemma step_ok: "and_then r f = (s', ok b) \<longleftrightarrow> (\<exists>s a. r = (s, ok a) \<and> f a s = (s', ok b))"
  by (cases r rule: prod.exhaust; cases "snd r") auto

lemma with_error_ok [simp]: "with_error f r = (s', ok b) \<longleftrightarrow> r = (s', ok b)"
  by (cases r rule: prod.exhaust; cases "snd r") auto

lemma try_in_ok [simp]: "try_in f r s = (s', ok b) \<longleftrightarrow> s' = s \<and> r = ok b"
  by (auto simp: try_in_def)

section \<open>Snapshots\<close>

definition path_starts_with :: "path \<Rightarrow> path \<Rightarrow> bool" where
  "path_starts_with p base \<longleftrightarrow> take (length base) p = base"

definition validate_worktree :: "'w machine \<Rightarrow> path \<Rightarrow> ('w, unit) act" where
  "validate_worktree m dir w =
     and_then (with_error Io (sys_git m dir [''rev-parse'', ''--show-toplevel''] w)) (\<lambda>out w.
     and_then (try_in Local (resolve (sys_view m w)
       (components (case strip_suffix [CHR 0x0A] out of None \<Rightarrow> out | Some t \<Rightarrow> t))) w) (\<lambda>p w.
     if p \<noteq> dir then (w, err (NotARepositoryRoot dir))
     else
       and_then (with_error Io (sys_git m dir [''ls-files'', ''--others'', ''--exclude-standard'', ''-z''] w)) (\<lambda>untracked w.
       if untracked \<noteq> [] then (w, err (UntrackedFiles dir untracked)) else (w, ok ()))))"

definition copy_leaf :: "'w machine \<Rightarrow> path \<Rightarrow> path \<Rightarrow> file_meta \<Rightarrow> ('w, unit) act" where
  "copy_leaf m source target before w =
     (if file_kind before = SymlinkFile then
        (case link_at (sys_view m w) source of
           LinkTo t \<Rightarrow> with_error Io (sys_perform m (MakeSymlink t target) w)
         | NotALink \<Rightarrow> (w, err (Io ''not a symlink''))
         | LinkError e \<Rightarrow> (w, err (Io e)))
      else if file_kind before \<noteq> RegularFile then (w, err (UnsupportedEntry source))
      else
        and_then (with_error Io (sys_perform m (CopyContents source target) w)) (\<lambda>_ w.
        (case sys_stat m w source of
           Stat after \<Rightarrow>
             if (modified_at before, file_len before) \<noteq> (modified_at after, file_len after)
             then (w, err (ChangedWhileCopying source))
             else with_error Io (sys_perform m (SetTimes target (accessed_at after) (modified_at after)) w)
         | StatMissing \<Rightarrow> (w, err (Io ''No such file or directory''))
         | StatError e \<Rightarrow> (w, err (Io e)))))"

fun copy_tracked :: "'w machine \<Rightarrow> path \<Rightarrow> path \<Rightarrow> ustring list \<Rightarrow> ('w, unit) act" where
  "copy_tracked m dir destination [] w = (w, ok ())"
| "copy_tracked m dir destination (entry # entries) w =
     (let relative = components entry; source = join dir relative in
      case sys_lstat m w source of
        StatMissing \<Rightarrow> copy_tracked m dir destination entries w
      | StatError e \<Rightarrow> (w, err (Io e))
      | Stat meta \<Rightarrow>
          let target = join destination relative in
          (case parent target of
             None \<Rightarrow> (w, err (NoParent target))
           | Some d \<Rightarrow>
               and_then (with_error Io (sys_perform m (CreateDirAll d) w)) (\<lambda>_ w.
               and_then
                 (if file_kind meta \<noteq> SymlinkFile then (w, ok ())
                  else and_then (try_in Local (resolve (sys_view m w) source) w) (\<lambda>p w.
                    if path_starts_with p dir then (w, ok ()) else (w, err (SymlinkEscapes source)))) (\<lambda>_ w.
               and_then (copy_leaf m source target meta w) (\<lambda>_.
               copy_tracked m dir destination entries)))))"

definition tracked_entries :: "ustring \<Rightarrow> ustring list" where
  "tracked_entries files = sort (remdups (filter (\<lambda>e. e \<noteq> []) (split_on CHR 0x00 files)))"

definition snapshot :: "'w machine \<Rightarrow> path \<Rightarrow> path \<Rightarrow> ('w, unit) act" where
  "snapshot m dir destination w =
     and_then (validate_worktree m dir w) (\<lambda>_ w.
     and_then (with_error Io (sys_perform m (CreateDirAll destination) w)) (\<lambda>_ w.
     and_then (with_error Io (sys_git m dir [''ls-files'', ''--cached'', ''-z''] w)) (\<lambda>files.
     copy_tracked m dir destination (tracked_entries files))))"

text \<open>
  The recursion of \<open>copy_tree\<close> follows the directories it finds; the fuel bounds their depth.
\<close>

fun copy_tree :: "'w machine \<Rightarrow> nat \<Rightarrow> path \<Rightarrow> path \<Rightarrow> ('w, unit) act"
  and copy_entries :: "'w machine \<Rightarrow> nat \<Rightarrow> path \<Rightarrow> path \<Rightarrow> (ustring + ustring \<times> file_meta) list \<Rightarrow> ('w, unit) act" where
  "copy_tree m 0 source target w = (w, err TreeTooDeep)"
| "copy_tree m (Suc fuel) source target w =
     and_then (with_error Io (sys_perform m (CreateDir target) w)) (\<lambda>_ w.
     and_then (try_in Io (sys_entries m w source) w) (\<lambda>entries w.
     and_then (copy_entries m fuel source target entries w) (\<lambda>_ w.
     (case sys_stat m w source of
        Stat meta \<Rightarrow> with_error Io (sys_perform m (SetPermissions target (file_mode_bits meta)) w)
      | StatMissing \<Rightarrow> (w, err (Io ''No such file or directory''))
      | StatError e \<Rightarrow> (w, err (Io e))))))"
| "copy_entries m fuel source target [] w = (w, ok ())"
| "copy_entries m fuel source target (Inl e # entries) w = (w, err (Io e))"
| "copy_entries m fuel source target (Inr (name, meta) # entries) w =
     and_then
       (if file_kind meta = DirectoryFile
        then copy_tree m fuel (join source [Normal name]) (join target [Normal name]) w
        else copy_leaf m (join source [Normal name]) (join target [Normal name]) meta w) (\<lambda>_.
     copy_entries m fuel source target entries)"

section \<open>What a computation leaves alone\<close>

text \<open>
  The state satisfies \<open>P\<close> when the computation returns, and its error, if there is one, \<open>E\<close>.
  The two uses: a \<open>P\<close> that no change below the destination disturbs, and an \<open>E\<close> that excludes
  running out of fuel.
\<close>

definition yields :: "('s \<Rightarrow> bool) \<Rightarrow> (build_error \<Rightarrow> bool) \<Rightarrow> 's \<times> (build_error + 'a) \<Rightarrow> bool" where
  "yields P E r \<longleftrightarrow> P (fst r) \<and> (\<forall>e. snd r = err e \<longrightarrow> E e)"

lemma yields_ok [simp]: "yields P E (s, ok a) = P s"
  and yields_err [simp]: "yields P E (s, err e) \<longleftrightarrow> P s \<and> E e"
  by (simp_all add: yields_def)

lemma yields_and_then:
  "yields P E r \<Longrightarrow> (\<And>a s. r = (s, ok a) \<Longrightarrow> P s \<Longrightarrow> yields P E (f a s)) \<Longrightarrow> yields P E (and_then r f)"
  by (cases r rule: prod.exhaust; cases "snd r") (auto simp: yields_def)

lemma yields_with_error: "P (fst r) \<Longrightarrow> (\<And>e. E (f e)) \<Longrightarrow> yields P E (with_error f r)"
  by (cases r rule: prod.exhaust; cases "snd r") (auto simp: yields_def)

lemma yields_try_in: "P s \<Longrightarrow> (\<And>e. E (f e)) \<Longrightarrow> yields P E (try_in f r s)"
  by (simp add: try_in_def yields_with_error)

definition fuel_only :: "(build_error \<Rightarrow> bool) \<Rightarrow> bool" where
  "fuel_only E \<longleftrightarrow> (\<forall>e. e \<noteq> OutOfFuel \<longrightarrow> E e)"

lemma fuel_onlyD: "fuel_only E \<Longrightarrow> e \<noteq> OutOfFuel \<Longrightarrow> E e"
  by (simp add: fuel_only_def)

text \<open>
  \<open>P\<close> survives every change the machine makes below the destination, and every question asked of
  \<open>git\<close> and \<open>nix\<close>. \<open>git\<close> lists tracked files by their paths below the worktree.
\<close>

definition leaves_alone :: "'w machine \<Rightarrow> path \<Rightarrow> ('w \<Rightarrow> bool) \<Rightarrow> bool" where
  "leaves_alone m dest P \<longleftrightarrow>
     (\<forall>w. P w \<longrightarrow>
        (\<forall>op. path_starts_with (op_target op) dest \<longrightarrow> P (fst (sys_perform m op w)))
      \<and> (\<forall>d args. P (fst (sys_git m d args w)))
      \<and> (\<forall>d. P (fst (nix_inputs m d w)))
      \<and> (\<forall>d gc. path_starts_with gc dest \<longrightarrow> P (fst (nix_add_source m d gc w)))
      \<and> (\<forall>d os. path_starts_with d dest \<longrightarrow> P (fst (nix_lock m d os w))))"

definition plain_entries :: "'w machine \<Rightarrow> bool" where
  "plain_entries m \<longleftrightarrow>
     (\<forall>d w out. snd (sys_git m d [''ls-files'', ''--cached'', ''-z''] w) = ok out
        \<longrightarrow> list_all (\<lambda>e. list_all is_normal (components e)) (tracked_entries out))"

lemma leaves_aloneD:
  assumes "leaves_alone m dest P" "P w"
  shows "path_starts_with (op_target op) dest \<Longrightarrow> P (fst (sys_perform m op w))"
    "P (fst (sys_git m d args w))" "P (fst (nix_inputs m d w))"
    "path_starts_with gc dest \<Longrightarrow> P (fst (nix_add_source m d gc w))"
    "path_starts_with d dest \<Longrightarrow> P (fst (nix_lock m d os w))"
  using assms by (auto simp: leaves_alone_def)

lemma starts_with_refl [simp]: "path_starts_with p p"
  by (simp add: path_starts_with_def)

lemma starts_with_append [simp]: "path_starts_with p dest \<Longrightarrow> path_starts_with (p @ q) dest"
  by (auto simp: path_starts_with_def take_append dest: arg_cong[of _ _ length])

lemma join_plain: "list_all is_normal q \<Longrightarrow> join p q = p @ q"
  by (cases q; cases "hd q") (auto simp: join_def is_absolute_def)

lemma starts_with_child [simp]: "path_starts_with p dest \<Longrightarrow> path_starts_with (join p [Normal n]) dest"
  by (simp add: join_plain)

lemma starts_with_parent:
  assumes "list_all is_normal q" "q \<noteq> []" "path_starts_with p dest" "parent (join p q) = Some d"
  shows "path_starts_with d dest"
  using assms by (auto simp: join_plain parent_def butlast_append split: if_splits)

lemma validate_worktree_yields:
  assumes m: "leaves_alone m dest P" and E: "fuel_only E" and "P w"
  shows "yields P E (validate_worktree m dir w)"
  unfolding validate_worktree_def using assms(3)
  by (auto simp: fuel_onlyD[OF E] leaves_aloneD[OF m] intro!: yields_and_then yields_with_error yields_try_in)

lemma copy_leaf_yields:
  assumes m: "leaves_alone m dest P" and E: "fuel_only E" and "P w" "path_starts_with target dest"
  shows "yields P E (copy_leaf m source target before w)"
  unfolding copy_leaf_def using assms(3,4)
  by (auto simp: fuel_onlyD[OF E] leaves_aloneD[OF m] intro!: yields_and_then yields_with_error
      split: read_link.split stat_result.split)

lemma copy_tracked_yields:
  assumes m: "leaves_alone m dest P" and E: "fuel_only E" and d: "path_starts_with destination dest"
  shows "P w \<Longrightarrow> list_all (\<lambda>e. e \<noteq> [] \<and> list_all is_normal (components e)) entries
    \<Longrightarrow> yields P E (copy_tracked m dir destination entries w)"
proof (induction entries arbitrary: w)
  case (Cons e entries)
  have target: "path_starts_with (join destination (components e)) dest"
    using Cons.prems(2) d by (simp add: join_plain)
  have par: "path_starts_with d dest" if "parent (join destination (components e)) = Some d" for d
    using starts_with_parent[OF _ _ d that] Cons.prems(2) components_nonempty by auto
  show ?case
    using Cons par target
    by (auto simp: Let_def fuel_onlyD[OF E] leaves_aloneD[OF m] intro!: yields_and_then yields_with_error
        yields_try_in copy_leaf_yields[OF m E] split: stat_result.split option.split)
qed simp

lemma snapshot_yields:
  assumes m: "leaves_alone m dest P" and E: "fuel_only E" and "plain_entries m" "P w" "path_starts_with destination dest"
  shows "yields P E (snapshot m dir destination w)"
proof -
  have entries: "list_all (\<lambda>e. e \<noteq> [] \<and> list_all is_normal (components e)) (tracked_entries out)"
    if "sys_git m dir [''ls-files'', ''--cached'', ''-z''] w' = (w'', ok out)" for w' w'' out
  proof -
    have "snd (sys_git m dir [''ls-files'', ''--cached'', ''-z''] w') = ok out" using that by simp
    then have "list_all (\<lambda>e. list_all is_normal (components e)) (tracked_entries out)"
      using assms(3) unfolding plain_entries_def by blast
    then show ?thesis by (auto simp: list_all_iff tracked_entries_def)
  qed
  show ?thesis
    unfolding snapshot_def using assms(4,5)
    by (auto simp: fuel_onlyD[OF E] leaves_aloneD[OF m] intro!: yields_and_then yields_with_error
        validate_worktree_yields[OF m E] copy_tracked_yields[OF m E] entries)
qed

lemma copy_tree_yields:
  assumes "leaves_alone m dest P" "fuel_only E"
  shows "P w \<Longrightarrow> path_starts_with target dest \<Longrightarrow> yields P E (copy_tree m fuel source target w)"
    "P w \<Longrightarrow> path_starts_with target dest \<Longrightarrow> yields P E (copy_entries m fuel source target entries w)"
  using assms
proof (induction m fuel source target w and m fuel source target entries w rule: copy_tree_copy_entries.induct)
  case (2 m fuel source target w)
  then show ?case
    by (auto simp: fuel_onlyD[OF 2(5)] leaves_aloneD[OF 2(4)] intro!: yields_and_then yields_with_error
        yields_try_in split: stat_result.split)
next
  case (5 m fuel source target name meta entries w)
  then show ?case
    by (auto intro!: yields_and_then copy_leaf_yields)
qed (auto simp: fuel_onlyD)

end
