(* ===== verification/Input_Graph.thy ===== *)
theory Input_Graph
  imports Snapshot
begin

text \<open>
  The graph of local inputs, \<open>shelllist-local-build/src/graph.rs\<close>: every worktree is captured once,
  added to the store once, and every edge of the traversal becomes an override that points at the
  store path of its child. The traversal rejects a cycle; the fuel of \<open>walk\<close> bounds its depth.
\<close>

record source =
  directory :: path
  src_inputs :: jobject

record 'w graph =
  world :: 'w
  sources :: "(path \<times> source) list"
  store_sources :: "(path \<times> ustring) list"
  overrides :: "(ustring \<times> ustring) list"

record graph_config =
  root_path :: path
  destination :: path
  root_is_snapshot :: bool
  tree_depth :: nat

text \<open>A computation on the machine, run on the world of the graph.\<close>

definition on_world :: "('w, 'a) act \<Rightarrow> ('w graph, 'a) act" where
  "on_world f g = (case f (world g) of (w, r) \<Rightarrow> (g\<lparr>world := w\<rparr>, r))"

definition capture :: "'w machine \<Rightarrow> graph_config \<Rightarrow> path \<Rightarrow> ('w graph, unit) act" where
  "capture m cfg src g =
     (if map_of (sources g) src \<noteq> None then (g, ok ())
      else
        (case (if src = root_path cfg then Some ''root'' else file_name src) of
           None \<Rightarrow> (g, err (NoBasename src))
         | Some name \<Rightarrow>
             let target = join (destination cfg) [Normal name] in
             if path_exists (sys_view m (world g)) target then (g, err (BasenameCollision src))
             else
               and_then (on_world (if src = root_path cfg \<and> root_is_snapshot cfg
                   then copy_tree m (tree_depth cfg) src target
                   else snapshot m src target) g) (\<lambda>_ g.
               and_then (on_world (\<lambda>w. with_error Io (nix_inputs m target w)) g) (\<lambda>inputs g.
               (g\<lparr>sources := sources g @ [(src, \<lparr>directory = target, src_inputs = inputs\<rparr>)]\<rparr>, ok ())))))"

definition immutable :: "'w machine \<Rightarrow> graph_config \<Rightarrow> path \<Rightarrow> ('w graph, ustring) act" where
  "immutable m cfg src g =
     (case map_of (store_sources g) src of
        Some p \<Rightarrow> (g, ok p)
      | None \<Rightarrow>
          (case map_of (sources g) src of
             None \<Rightarrow> (g, err (NotCaptured src))
           | Some captured \<Rightarrow>
               (case file_name src of
                  None \<Rightarrow> (g, err (NoBasename src))
                | Some name \<Rightarrow>
                    let gc_root = join (join (destination cfg) [Normal ''gc-roots'']) [Normal name] in
                    and_then (on_world (\<lambda>w. with_error Io (nix_add_source m (directory captured) gc_root w)) g) (\<lambda>p g.
                    (g\<lparr>store_sources := store_sources g @ [(src, p)]\<rparr>, ok p)))))"

definition edge_name :: "ustring \<Rightarrow> ustring \<Rightarrow> ustring" where
  "edge_name prefix name = (if prefix = [] then name else prefix @ ''/'' @ name)"

text \<open>\<open>walk\<close> and its loop; the ancestors are put back before a call returns.\<close>

function walk :: "'w machine \<Rightarrow> graph_config \<Rightarrow> nat \<Rightarrow> path \<Rightarrow> jobject option \<Rightarrow> ustring \<Rightarrow> path set \<Rightarrow> ('w graph, unit) act"
  and walk_inputs :: "'w machine \<Rightarrow> graph_config \<Rightarrow> nat \<Rightarrow> path \<Rightarrow> jobject \<Rightarrow> ustring \<Rightarrow> path set \<Rightarrow> ('w graph, unit) act" where
  "walk m cfg 0 src overlay prefix ancestors g = (g, err OutOfFuel)"
| "walk m cfg (Suc fuel) src overlay prefix ancestors g =
     (if src \<in> ancestors then (g, err (InputCycle src))
      else
        and_then (capture m cfg src g) (\<lambda>_ g.
        (case map_of (sources g) src of
           None \<Rightarrow> (g, err (NotCaptured src))
         | Some captured \<Rightarrow>
             walk_inputs m cfg fuel src (direct_inputs (overlaid (src_inputs captured) overlay)) prefix
               (insert src ancestors) g)))"
| "walk_inputs m cfg fuel src [] prefix ancestors g = (g, ok ())"
| "walk_inputs m cfg fuel src ((name, spec) # inputs) prefix ancestors g =
     and_then (try_in Local (local_path (sys_view m (world g)) spec src) g) (\<lambda>found g.
     (case found of
        None \<Rightarrow> walk_inputs m cfg fuel src inputs prefix ancestors g
      | Some child \<Rightarrow>
          and_then (capture m cfg child g) (\<lambda>_ g.
          and_then (immutable m cfg child g) (\<lambda>store_path g.
          and_then (try_in Local (nested_inputs spec)
              (g\<lparr>overrides := overrides g @ [(edge_name prefix name, store_path)]\<rparr>)) (\<lambda>nested g.
          and_then (walk m cfg fuel child nested (edge_name prefix name) ancestors g) (\<lambda>_.
          walk_inputs m cfg fuel src inputs prefix ancestors))))))"
  by pat_completeness auto
termination
  by (relation "measures
      [\<lambda>x. case x of Inl (m, cfg, fuel, _) \<Rightarrow> fuel | Inr (m, cfg, fuel, _) \<Rightarrow> fuel,
       \<lambda>x. case x of Inl _ \<Rightarrow> 0 | Inr (m, cfg, fuel, src, inputs, _) \<Rightarrow> Suc (length inputs)]") auto

definition path_ends_with :: "path \<Rightarrow> ustring \<Rightarrow> bool" where
  "path_ends_with p name \<longleftrightarrow> p \<noteq> [] \<and> last p = Normal name"

fun validate_sources :: "local_env \<Rightarrow> (path \<times> source) list \<Rightarrow> local_error + unit" where
  "validate_sources env [] = ok ()"
| "validate_sources env ((src, captured) # rest) =
     (case validate_source env src (directory captured) (src_inputs captured) of
        Inl e \<Rightarrow> err e
      | Inr _ \<Rightarrow> validate_sources env rest)"

definition validate_policy :: "local_env \<Rightarrow> (path \<times> source) list \<Rightarrow> jobject \<Rightarrow> local_error + unit" where
  "validate_policy env srcs root_inputs =
     (case reject_standalone_hyprland root_inputs of
        Inl e \<Rightarrow> err e
      | Inr _ \<Rightarrow>
          (case validate_sources env (sort_key fst srcs) of
             Inl e \<Rightarrow> err e
           | Inr _ \<Rightarrow>
               validate_root env root_inputs (list_ex (\<lambda>(src, _). path_ends_with src ''daemon-framework'') srcs)))"

text \<open>The text of a path, and its reference as a flake, which must be UTF-8.\<close>

fun join_names :: "path \<Rightarrow> ustring" where
  "join_names [] = []"
| "join_names [Normal n] = n"
| "join_names (Normal n # p) = n @ ''/'' @ join_names p"
| "join_names (ParentDir # p) = ''..'' @ (if p = [] then [] else ''/'' @ join_names p)"
| "join_names (CurDir # p) = ''.'' @ (if p = [] then [] else ''/'' @ join_names p)"
| "join_names (RootDir # p) = ''/'' @ join_names p"

definition flake_ref :: "path \<Rightarrow> build_error + ustring" where
  "flake_ref p = (if utf8_valid (join_names p) then ok (''path:'' @ join_names p) else err (Io ''flake path is not UTF-8''))"

record prepared =
  flake :: ustring
  captured_sources :: "(path \<times> path) list"
  captured_stores :: "(path \<times> ustring) list"
  original_root :: "path option"

text \<open>
  What follows the traversal: the policy, the approved root, the lock and the report. The report is
  printed by \<open>serde_json\<close>, which fails on a path that is not UTF-8.
\<close>

definition publish ::
  "'w machine \<Rightarrow> (prepared \<Rightarrow> ustring + ustring) \<Rightarrow> nat \<Rightarrow> path \<Rightarrow> path \<Rightarrow> bool \<Rightarrow> ('w graph, prepared) act" where
  "publish m print depth rootp dest capture_root g =
     (case map_of (sources g) rootp of
        None \<Rightarrow> (g, err RootNotCaptured)
      | Some src \<Rightarrow>
          and_then (try_in Local (validate_policy (sys_view m (world g)) (sources g) (src_inputs src)) g) (\<lambda>_ g.
          and_then
            (if capture_root then
               let original = join dest [Normal ''.approval-root''] in
               if path_exists (sys_view m (world g)) original then (g, err ApprovalCollision)
               else and_then (on_world (copy_tree m depth (directory src) original) g) (\<lambda>_ g. (g, ok (Some original)))
             else (g, ok None)) (\<lambda>original g.
          and_then (on_world (\<lambda>w. with_error Io (nix_lock m (directory src) (overrides g) w)) g) (\<lambda>_ g.
          and_then (try_in (\<lambda>e. e) (flake_ref (directory src)) g) (\<lambda>flake g.
          let result = \<lparr>flake = flake,
                captured_sources = map (\<lambda>(p, s). (p, directory s)) (sort_key fst (sources g)),
                captured_stores = sort_key fst (store_sources g), original_root = original\<rparr> in
          and_then (try_in Io (print result) g) (\<lambda>text g.
          and_then (on_world (\<lambda>w. with_error Io (sys_perform m
              (WriteText (join dest [Normal ''sources.json'']) (text @ [CHR 0x0A])) w)) g) (\<lambda>_ g.
          (g, ok result))))))))"

definition prepare_with_capture ::
  "'w machine \<Rightarrow> (prepared \<Rightarrow> ustring + ustring) \<Rightarrow> nat \<Rightarrow> nat \<Rightarrow> path \<Rightarrow> path \<Rightarrow> bool \<Rightarrow> bool \<Rightarrow> 'w
     \<Rightarrow> 'w graph \<times> (build_error + prepared)" where
  "prepare_with_capture m print fuel depth root_arg destination_arg frozen capture_root w =
     (let g = \<lparr>world = w, sources = [], store_sources = [], overrides = []\<rparr> in
      and_then (try_in Local (resolve (sys_view m (world g)) root_arg) g) (\<lambda>rootp g.
      and_then (try_in Local (resolve (sys_view m (world g)) destination_arg) g) (\<lambda>dest g.
      if path_exists (sys_view m (world g)) dest then (g, err (DestinationExists dest))
      else if frozen \<and> path_starts_with dest rootp then (g, err DestinationInsideRoot)
      else
        and_then (on_world (\<lambda>w. with_error Io (sys_perform m (CreateDirAll dest) w)) g) (\<lambda>_ g.
        and_then (walk m \<lparr>root_path = rootp, destination = dest, root_is_snapshot = frozen, tree_depth = depth\<rparr>
            fuel rootp None [] {} g) (\<lambda>_.
        publish m print depth rootp dest capture_root)))))"

section \<open>The plan of a traversal\<close>

text \<open>What the captured inputs alone determine: the edges in the order of the traversal.\<close>

function planned :: "local_env \<Rightarrow> (path \<Rightarrow> jobject option) \<Rightarrow> nat \<Rightarrow> path \<Rightarrow> jobject option \<Rightarrow> ustring \<Rightarrow> path set
    \<Rightarrow> (ustring \<times> path) list option"
  and planned_inputs :: "local_env \<Rightarrow> (path \<Rightarrow> jobject option) \<Rightarrow> nat \<Rightarrow> path \<Rightarrow> jobject \<Rightarrow> ustring \<Rightarrow> path set
    \<Rightarrow> (ustring \<times> path) list option" where
  "planned env inputs_of 0 src overlay prefix ancestors = None"
| "planned env inputs_of (Suc fuel) src overlay prefix ancestors =
     (if src \<in> ancestors then None
      else Option.bind (inputs_of src) (\<lambda>inputs.
        planned_inputs env inputs_of fuel src (direct_inputs (overlaid inputs overlay)) prefix (insert src ancestors)))"
| "planned_inputs env inputs_of fuel src [] prefix ancestors = Some []"
| "planned_inputs env inputs_of fuel src ((name, spec) # inputs) prefix ancestors =
     (case local_path env spec src of
        Inl _ \<Rightarrow> None
      | Inr None \<Rightarrow> planned_inputs env inputs_of fuel src inputs prefix ancestors
      | Inr (Some child) \<Rightarrow>
          (case nested_inputs spec of
             Inl _ \<Rightarrow> None
           | Inr nested \<Rightarrow>
               Option.bind (planned env inputs_of fuel child nested (edge_name prefix name) ancestors) (\<lambda>below.
               map_option (\<lambda>rest. (edge_name prefix name, child) # below @ rest)
                 (planned_inputs env inputs_of fuel src inputs prefix ancestors))))"
  by pat_completeness auto
termination
  by (relation "measures
      [\<lambda>x. case x of Inl (env, f, fuel, _) \<Rightarrow> fuel | Inr (env, f, fuel, _) \<Rightarrow> fuel,
       \<lambda>x. case x of Inl _ \<Rightarrow> 0 | Inr (env, f, fuel, src, inputs, _) \<Rightarrow> Suc (length inputs)]") auto

definition inputs_of :: "'w graph \<Rightarrow> path \<Rightarrow> jobject option" where
  "inputs_of g p = map_option src_inputs (map_of (sources g) p)"

definition quiet :: "'w machine \<Rightarrow> local_env \<Rightarrow> bool" where
  "quiet m env \<longleftrightarrow> (\<forall>w. link_at (sys_view m w) = link_at env \<and> working_dir (sys_view m w) = working_dir env
     \<and> percent_decode (sys_view m w) = percent_decode env)"

lemma quiet_resolve: "quiet m env \<Longrightarrow> resolve (sys_view m w) = resolve env"
proof -
  assume "quiet m env"
  then have same: "link_at (sys_view m w) = link_at env" "working_dir (sys_view m w) = working_dir env"
    by (simp_all add: quiet_def)
  show ?thesis by (rule ext) (simp only: resolve_def same)
qed

lemma quiet_local_path:
  assumes "quiet m env"
  shows "local_path (sys_view m w) spec base = local_path env spec base"
proof -
  have "percent_decode (sys_view m w) = percent_decode env" using assms by (simp add: quiet_def)
  then show ?thesis unfolding local_path_def quiet_resolve[OF assms] by (simp only:)
qed

text \<open>What a computation on the graph may do: capture more, store more, and append overrides.\<close>

definition grows :: "'w graph \<Rightarrow> 'w graph \<Rightarrow> bool" where
  "grows g g' \<longleftrightarrow> (\<exists>ss ts. sources g' = sources g @ ss \<and> store_sources g' = store_sources g @ ts)
     \<and> (distinct (map fst (sources g)) \<longrightarrow> distinct (map fst (sources g')))
     \<and> (distinct (map fst (store_sources g)) \<longrightarrow> distinct (map fst (store_sources g')))"

lemma grows_refl [simp, intro]: "grows g g"
  by (auto simp: grows_def)

lemma grows_trans [trans]: "grows a b \<Longrightarrow> grows b c \<Longrightarrow> grows a c"
  by (auto simp: grows_def)

lemma grows_source: "grows g g' \<Longrightarrow> map_of (sources g) p = Some s \<Longrightarrow> map_of (sources g') p = Some s"
  by (auto simp: grows_def map_add_def)

lemma grows_store: "grows g g' \<Longrightarrow> map_of (store_sources g) p = Some s \<Longrightarrow> map_of (store_sources g') p = Some s"
  by (auto simp: grows_def map_add_def)

lemma on_world_ok:
  "on_world f g = (g', ok a) \<longleftrightarrow> (\<exists>w. f (world g) = (w, ok a) \<and> g' = g\<lparr>world := w\<rparr>)"
  by (auto simp: on_world_def split: prod.splits)

lemma capture_ok:
  assumes "capture m cfg src g = (g', ok ())"
  shows "grows g g'" "fst ` set (sources g') = insert src (fst ` set (sources g))"
    "store_sources g' = store_sources g" "overrides g' = overrides g" "\<exists>s. map_of (sources g') src = Some s"
proof -
  consider "map_of (sources g) src \<noteq> None" "g' = g"
    | w s where "map_of (sources g) src = None" "g' = g\<lparr>world := w, sources := sources g @ [(src, s)]\<rparr>"
    using assms
    by (auto simp: capture_def Let_def step_ok on_world_ok split: if_splits option.splits)
  note cases = this
  show "grows g g'"
    by (cases rule: cases) (auto simp: grows_def map_of_eq_None_iff)
  show "fst ` set (sources g') = insert src (fst ` set (sources g))"
    by (cases rule: cases) (force dest: map_of_SomeD)+
  show "store_sources g' = store_sources g" "overrides g' = overrides g" "\<exists>s. map_of (sources g') src = Some s"
    by (cases rule: cases; auto simp: map_add_def)+
qed

lemma immutable_ok:
  assumes "immutable m cfg src g = (g', ok p)"
  shows "grows g g'" "fst ` set (store_sources g') = insert src (fst ` set (store_sources g))"
    "sources g' = sources g" "overrides g' = overrides g" "map_of (store_sources g') src = Some p"
proof -
  consider "map_of (store_sources g) src = Some p" "g' = g"
    | w where "map_of (store_sources g) src = None"
        "g' = g\<lparr>world := w, store_sources := store_sources g @ [(src, p)]\<rparr>"
    using assms
    by (auto simp: immutable_def Let_def step_ok on_world_ok split: option.splits)
  note cases = this
  show "grows g g'"
    by (cases rule: cases) (auto simp: grows_def map_of_eq_None_iff)
  show "fst ` set (store_sources g') = insert src (fst ` set (store_sources g))"
    by (cases rule: cases) (force dest: map_of_SomeD)+
  show "sources g' = sources g" "overrides g' = overrides g" "map_of (store_sources g') src = Some p"
    by (cases rule: cases; auto simp: map_add_def)+
qed

text \<open>A plan made from the inputs of fewer worktrees is still the plan once more are captured.\<close>

lemma planned_mono:
  "planned env f fuel src overlay prefix ancestors = Some es \<Longrightarrow> (\<And>p i. f p = Some i \<Longrightarrow> f' p = Some i)
     \<Longrightarrow> planned env f' fuel src overlay prefix ancestors = Some es"
  "planned_inputs env f fuel src inputs prefix ancestors = Some es \<Longrightarrow> (\<And>p i. f p = Some i \<Longrightarrow> f' p = Some i)
     \<Longrightarrow> planned_inputs env f' fuel src inputs prefix ancestors = Some es"
proof (induction env f fuel src overlay prefix ancestors and env f fuel src inputs prefix ancestors
    arbitrary: es and es rule: planned_planned_inputs.induct)
  case (2 env f fuel src overlay prefix ancestors)
  from 2(2) obtain i where i: "src \<notin> ancestors" "f src = Some i"
    "planned_inputs env f fuel src (direct_inputs (overlaid i overlay)) prefix (insert src ancestors) = Some es"
    by (auto split: if_splits bind_splits)
  from 2(1)[OF i 2(3)] i 2(3)[OF i(2)] show ?case by simp
next
  case (4 env f fuel src name spec inputs prefix ancestors)
  from 4(4) consider (skip) "local_path env spec src = ok None"
      "planned_inputs env f fuel src inputs prefix ancestors = Some es"
    | (child) child nested below rest where "local_path env spec src = ok (Some child)" "nested_inputs spec = ok nested"
      "planned env f fuel child nested (edge_name prefix name) ancestors = Some below"
      "planned_inputs env f fuel src inputs prefix ancestors = Some rest"
      "es = (edge_name prefix name, child) # below @ rest"
    by (auto split: sum.splits option.splits bind_splits)
  then show ?case
  proof cases
    case skip
    with 4(1)[OF skip(1) refl skip(2) 4(5)] show ?thesis by simp
  next
    case child
    with 4(2)[OF child(1) refl child(2,3) 4(5)] 4(3)[OF child(1) refl child(2,3,4) 4(5)] show ?thesis by simp
  qed
qed simp_all

text \<open>What a traversal that returns has done to the graph.\<close>

definition follows_plan :: "(ustring \<times> path) list \<Rightarrow> 'w graph \<Rightarrow> 'w graph \<Rightarrow> bool" where
  "follows_plan es g g' \<longleftrightarrow>
     grows g g'
   \<and> overrides g' = overrides g @ map (\<lambda>(edge, child). (edge, the (map_of (store_sources g') child))) es
   \<and> fst ` set (store_sources g') = fst ` set (store_sources g) \<union> snd ` set es"

lemma follows_plan_Nil [simp]: "follows_plan [] g g"
  by (simp add: follows_plan_def)

lemma store_stable:
  assumes "grows g g'" "snd ` set es \<subseteq> fst ` set (store_sources g)"
  shows "map (\<lambda>(edge, child). (edge, the (map_of (store_sources g') child))) es
    = map (\<lambda>(edge, child). (edge, the (map_of (store_sources g) child))) es"
proof -
  have "map_of (store_sources g') c = map_of (store_sources g) c" if "c \<in> snd ` set es" for c
  proof -
    from that assms(2) obtain s where "map_of (store_sources g) c = Some s"
      by (cases "map_of (store_sources g) c") (auto simp: map_of_eq_None_iff)
    with grows_store[OF assms(1)] show ?thesis by simp
  qed
  then show ?thesis by force
qed

lemma follows_plan_append:
  assumes "follows_plan es g g'" "follows_plan fs g' g''"
  shows "follows_plan (es @ fs) g g''"
proof -
  have "map (\<lambda>(edge, child). (edge, the (map_of (store_sources g'') child))) es
    = map (\<lambda>(edge, child). (edge, the (map_of (store_sources g') child))) es"
    using assms by (intro store_stable) (auto simp: follows_plan_def)
  with assms show ?thesis
    by (auto simp: follows_plan_def image_Un intro: grows_trans)
qed

lemma follows_plan_edge:
  assumes "capture m cfg child g = (g1, ok ())" "immutable m cfg child g1 = (g2, ok p)"
  shows "follows_plan [(edge, child)] g (g2\<lparr>overrides := overrides g2 @ [(edge, p)]\<rparr>)"
  using capture_ok[OF assms(1)] immutable_ok[OF assms(2)]
  by (auto simp: follows_plan_def grows_def)

lemma capture_follows: "capture m cfg src g = (g', ok ()) \<Longrightarrow> follows_plan [] g g'"
  using capture_ok[of m cfg src g g'] by (auto simp: follows_plan_def)

lemma inputs_of_grows: "grows g g' \<Longrightarrow> inputs_of g p = Some i \<Longrightarrow> inputs_of g' p = Some i"
  by (auto simp: inputs_of_def dest: grows_source)

lemma follows_grows: "follows_plan es g g' \<Longrightarrow> grows g g'"
  by (simp add: follows_plan_def)

lemma walk_inputs_step:
  assumes "walk_inputs m cfg fuel src ((name, spec) # inputs) prefix ancestors g = (g', ok ())"
  obtains (skip) "local_path (sys_view m (world g)) spec src = ok None"
      "walk_inputs m cfg fuel src inputs prefix ancestors g = (g', ok ())"
    | (child) child g1 g2 p nested g3 where
      "local_path (sys_view m (world g)) spec src = ok (Some child)"
      "capture m cfg child g = (g1, ok ())" "immutable m cfg child g1 = (g2, ok p)" "nested_inputs spec = ok nested"
      "walk m cfg fuel child nested (edge_name prefix name) ancestors
        (g2\<lparr>overrides := overrides g2 @ [(edge_name prefix name, p)]\<rparr>) = (g3, ok ())"
      "walk_inputs m cfg fuel src inputs prefix ancestors g3 = (g', ok ())"
proof -
  from assms obtain found where "local_path (sys_view m (world g)) spec src = ok found"
    unfolding walk_inputs.simps step_ok try_in_ok by auto
  with assms that show thesis
    by (cases found) (auto simp: step_ok)
qed

text \<open>One edge, what lies below it, and the edges after it.\<close>

definition walked :: "(ustring \<times> path) list \<Rightarrow> path set \<Rightarrow> 'w graph \<Rightarrow> 'w graph \<Rightarrow> bool" where
  "walked es ps g g' \<longleftrightarrow> follows_plan es g g'
     \<and> fst ` set (sources g') = fst ` set (sources g) \<union> ps \<union> snd ` set es"

lemma walked_child:
  assumes "capture m cfg child g = (g1, ok ())" "immutable m cfg child g1 = (g2, ok p)"
    and "walked below {child} (g2\<lparr>overrides := overrides g2 @ [(edge, p)]\<rparr>) g3"
    and "walked rest {} g3 g'"
  shows "walked ((edge, child) # below @ rest) {} g g'"
proof -
  have "follows_plan ([(edge, child)] @ below @ rest) g g'"
    using assms(3,4) unfolding walked_def
    by (intro follows_plan_append[OF follows_plan_edge[OF assms(1,2)] follows_plan_append]) auto
  with assms(3,4) capture_ok(2)[OF assms(1)] immutable_ok(3)[OF assms(2)] show ?thesis
    by (auto simp: walked_def)
qed

lemma walked_source:
  assumes "capture m cfg src g = (g1, ok ())" "walked es {} g1 g'"
  shows "walked es {src} g g'"
  using assms follows_plan_append[OF capture_follows[OF assms(1)], of es g'] capture_ok(2)[OF assms(1)]
  by (auto simp: walked_def)

lemma walked_inputs_of: "walked es ps g g' \<Longrightarrow> inputs_of g p = Some i \<Longrightarrow> inputs_of g' p = Some i"
  by (auto simp: walked_def intro: inputs_of_grows follows_grows)

lemma walk_follows:
  "walk m cfg fuel src overlay prefix ancestors g = (g', ok ()) \<Longrightarrow> quiet m env \<Longrightarrow>
     \<exists>es. planned env (inputs_of g') fuel src overlay prefix ancestors = Some es \<and> walked es {src} g g'"
  "walk_inputs m cfg fuel src inputs prefix ancestors g = (g', ok ()) \<Longrightarrow> quiet m env \<Longrightarrow>
     \<exists>es. planned_inputs env (inputs_of g') fuel src inputs prefix ancestors = Some es \<and> walked es {} g g'"
proof (induction m cfg fuel src overlay prefix ancestors g and m cfg fuel src inputs prefix ancestors g
    arbitrary: g' and g' rule: walk_walk_inputs.induct)
  case (2 m cfg fuel src overlay prefix ancestors g)
  from 2(2) obtain g1 s where fresh: "src \<notin> ancestors" and cap: "capture m cfg src g = (g1, ok ())"
    and s: "map_of (sources g1) src = Some s"
    and walk: "walk_inputs m cfg fuel src (direct_inputs (overlaid (src_inputs s) overlay)) prefix
      (insert src ancestors) g1 = (g', ok ())"
    by (auto simp: step_ok split: if_splits option.splits)
  from 2(1)[OF fresh s walk 2(3)] obtain es where
    es: "planned_inputs env (inputs_of g') fuel src (direct_inputs (overlaid (src_inputs s) overlay)) prefix
        (insert src ancestors) = Some es" "walked es {} g1 g'"
    by blast
  have "inputs_of g' src = Some (src_inputs s)"
    using s walked_inputs_of[OF es(2)] by (simp add: inputs_of_def)
  with es(1) fresh walked_source[OF cap es(2)] show ?case by simp
next
  case (4 m cfg fuel src name spec inputs prefix ancestors g)
  from 4(4) show ?case
  proof (cases rule: walk_inputs_step)
    case skip
    with 4(1)[OF refl skip(2) 4(5)] quiet_local_path[OF 4(5)] show ?thesis by simp
  next
    case (child child g1 g2 p nested g3)
    from 4(2)[OF refl child(5) 4(5)] obtain below where
      below: "planned env (inputs_of g3) fuel child nested (edge_name prefix name) ancestors = Some below"
        "walked below {child} (g2\<lparr>overrides := overrides g2 @ [(edge_name prefix name, p)]\<rparr>) g3"
      by auto
    from 4(3)[OF refl child(6) 4(5)] obtain rest where
      rest: "planned_inputs env (inputs_of g') fuel src inputs prefix ancestors = Some rest" "walked rest {} g3 g'"
      by auto
    have "planned env (inputs_of g') fuel child nested (edge_name prefix name) ancestors = Some below"
      using walked_inputs_of[OF rest(2)] by (rule planned_mono(1)[OF below(1)])
    with child(1,4) rest(1) quiet_local_path[OF 4(5)] walked_child[OF child(2,3) below(2) rest(2)]
    show ?thesis by simp
  qed
qed (auto simp: walked_def)

section \<open>Frame and termination\<close>

text \<open>The worktrees are among \<open>V\<close>: elsewhere \<open>git\<close> finds no top level. Of every path this holds.\<close>

definition worktrees_among :: "'w machine \<Rightarrow> path set \<Rightarrow> bool" where
  "worktrees_among m V \<longleftrightarrow>
     (\<forall>w d. d \<notin> V \<longrightarrow> (\<exists>e. snd (sys_git m d [''rev-parse'', ''--show-toplevel''] w) = err e))"

lemma worktrees_among_UNIV [simp]: "worktrees_among m UNIV"
  by (simp add: worktrees_among_def)

lemma snapshot_among: "worktrees_among m V \<Longrightarrow> snapshot m dir target w = (w', ok ()) \<Longrightarrow> dir \<in> V"
  by (fastforce simp: snapshot_def validate_worktree_def step_ok worktrees_among_def
      dest!: spec[of _ w] spec[of _ dir])

text \<open>\<open>P\<close> holds of the world, and every source is a worktree captured below the destination.\<close>

abbreviation sound :: "path \<Rightarrow> path set \<Rightarrow> ('w \<Rightarrow> bool) \<Rightarrow> 'w graph \<Rightarrow> bool" where
  "sound dest V P g \<equiv> P (world g)
     \<and> list_all (\<lambda>(p, s). p \<in> V \<and> path_starts_with (directory s) dest) (sources g)"

lemma on_world_yields:
  "yields P E (f (world g)) \<Longrightarrow> list_all (\<lambda>(p, s). p \<in> V \<and> path_starts_with (directory s) dest) (sources g)
    \<Longrightarrow> yields (sound dest V P) E (on_world f g)"
  by (auto simp: yields_def on_world_def split: prod.splits)

lemma capture_yields:
  assumes m: "leaves_alone m dest P" and E: "fuel_only E" and "plain_entries m"
    and d: "path_starts_with (destination cfg) dest" and V: "worktrees_among m V" "root_path cfg \<in> V"
    and "sound dest V P g"
  shows "yields (sound dest V P) E (capture m cfg src g)"
  unfolding capture_def Let_def using assms(3-)
  by (auto simp: fuel_onlyD[OF E] leaves_aloneD[OF m] on_world_ok snapshot_among[OF V(1)]
      intro!: yields_and_then on_world_yields yields_with_error
      snapshot_yields[OF m E] copy_tree_yields[OF m E] split: option.split)

lemma immutable_yields:
  assumes m: "leaves_alone m dest P" and E: "fuel_only E"
    and d: "path_starts_with (destination cfg) dest" and "sound dest V P g"
  shows "yields (sound dest V P) E (immutable m cfg src g)"
  unfolding immutable_def Let_def using d assms(4)
  by (auto simp: fuel_onlyD[OF E] leaves_aloneD[OF m] intro!: yields_and_then on_world_yields yields_with_error
      split: option.split)

text \<open>
  The ancestors of a call are distinct worktrees, so fuel beyond the number of the worktrees that
  are left is never used up.
\<close>

definition enough :: "(build_error \<Rightarrow> bool) \<Rightarrow> path set \<Rightarrow> path set \<Rightarrow> nat \<Rightarrow> bool" where
  "enough E V ancestors fuel \<longleftrightarrow> E OutOfFuel \<or> finite V \<and> card (V - ancestors) < fuel"

lemma enough_deeper:
  assumes "enough E V ancestors (Suc fuel)" "src \<in> V" "src \<notin> ancestors"
  shows "enough E V (insert src ancestors) fuel"
proof (cases "E OutOfFuel")
  case False
  with assms have "finite V" "src \<in> V - ancestors" "card (V - ancestors) < Suc fuel"
    by (auto simp: enough_def)
  then have "card (V - insert src ancestors) < card (V - ancestors)"
    by (intro psubset_card_mono) auto
  with \<open>card (V - ancestors) < Suc fuel\<close> \<open>finite V\<close> show ?thesis
    by (simp add: enough_def)
qed (simp add: enough_def)

lemma walk_yields:
  assumes "leaves_alone m dest P" "fuel_only E" "plain_entries m" "path_starts_with (destination cfg) dest"
    "worktrees_among m V" "root_path cfg \<in> V"
  shows "sound dest V P g \<Longrightarrow> enough E V ancestors fuel
      \<Longrightarrow> yields (sound dest V P) E (walk m cfg fuel src overlay prefix ancestors g)"
    "sound dest V P g \<Longrightarrow> enough E V ancestors fuel
      \<Longrightarrow> yields (sound dest V P) E (walk_inputs m cfg fuel src inputs prefix ancestors g)"
  using assms
proof (induction m cfg fuel src overlay prefix ancestors g and m cfg fuel src inputs prefix ancestors g
    rule: walk_walk_inputs.induct)
  case (1 m cfg src overlay prefix ancestors g)
  then show ?case by (auto simp: enough_def)
next
  case (2 m cfg fuel src overlay prefix ancestors g)
  note cap = capture_yields[OF 2(4-9)]
  have "src \<in> V" if "map_of (sources s) src = Some x" "sound dest V P s" for s x
    using that by (auto simp: list_all_iff dest: map_of_SomeD)
  with 2 enough_deeper[OF 2(3)] show ?case
    by (auto simp: fuel_onlyD[OF 2(5)] intro!: yields_and_then cap split: option.split)
next
  case (4 m cfg fuel src name spec inputs prefix ancestors g)
  note steps = yields_and_then yields_try_in capture_yields[OF 4(6-11)] immutable_yields[OF 4(6,7,9)]
  show ?case
    using 4 by (auto simp: fuel_onlyD[OF 4(7)] intro!: steps split: option.split)
qed simp

section \<open>Prepared snapshots\<close>

lemma publish_ok:
  assumes "publish m print depth rootp dest capture_root g = (g', ok r)"
  obtains src w where "map_of (sources g) rootp = Some src" "g' = g\<lparr>world := w\<rparr>"
    "validate_policy (sys_view m (world g)) (sources g) (src_inputs src) = ok ()"
    "captured_sources r = map (\<lambda>(p, s). (p, directory s)) (sort_key fst (sources g))"
    "captured_stores r = sort_key fst (store_sources g)"
  using assms unfolding publish_def
  by (cases "map_of (sources g) rootp") (auto simp: step_ok on_world_ok Let_def split: if_splits)

lemma prepare_ok:
  assumes "prepare_with_capture m print fuel depth root_arg destination_arg frozen capture_root w = (g', ok r)"
  obtains rootp dest w1 g2 where
    "resolve (sys_view m w) root_arg = ok rootp" "resolve (sys_view m w) destination_arg = ok dest"
    "walk m \<lparr>root_path = rootp, destination = dest, root_is_snapshot = frozen, tree_depth = depth\<rparr>
      fuel rootp None [] {} \<lparr>world = w1, sources = [], store_sources = [], overrides = []\<rparr> = (g2, ok ())"
    "publish m print depth rootp dest capture_root g2 = (g', ok r)"
  using assms unfolding prepare_with_capture_def
  by (auto simp: step_ok on_world_ok Let_def split: if_splits)

lemma publish_yields:
  assumes m: "leaves_alone m dest P" and E: "fuel_only E" and "sound dest V P g"
  shows "yields (sound dest V P) E (publish m print depth rootp dest capture_root g)"
proof (cases "map_of (sources g) rootp")
  case None
  then show ?thesis using assms(3) by (simp add: publish_def fuel_onlyD[OF E])
next
  case (Some s)
  have child: "path_starts_with (directory s) dest"
    using assms(3) Some by (auto simp: list_all_iff dest: map_of_SomeD)
  have fl: "yields (sound dest V P) E (try_in (\<lambda>e. e) (flake_ref (directory s)) g')" if "sound dest V P g'" for g' :: "'a graph"
    using that by (auto simp: flake_ref_def try_in_def fuel_onlyD[OF E])
  show ?thesis
    using assms(3) Some child unfolding publish_def
    by (auto simp: Let_def fuel_onlyD[OF E] leaves_aloneD[OF m] intro!: yields_and_then on_world_yields
        yields_with_error yields_try_in fl copy_tree_yields[OF m E])
qed

lemma prepare_yields:
  assumes m: "leaves_alone m dest P" and E: "fuel_only E" and "plain_entries m" "P w"
    and d: "resolve (sys_view m w) destination_arg = ok dest"
    and "enough E V {} fuel" "worktrees_among m V" "\<And>r. resolve (sys_view m w) root_arg = ok r \<Longrightarrow> r \<in> V"
  shows "yields (sound dest V P) E (prepare_with_capture m print fuel depth root_arg destination_arg frozen capture_root w)"
  unfolding prepare_with_capture_def Let_def using assms(3-)
  by (auto simp: fuel_onlyD[OF E] leaves_aloneD[OF m] intro!: yields_and_then yields_try_in on_world_yields
      yields_with_error publish_yields[OF m E] walk_yields(1)[OF m E])

section \<open>A concrete machine\<close>

text \<open>
  Two worktrees, the root with one local input; its state is the list of the changes made. Nothing
  exists below the destination, \<open>git\<close> lists one file that is gone, and there are no links.
\<close>

definition example_machine :: "fs_op list machine" where
  "example_machine = \<lparr>
     sys_view = \<lambda>_. \<lparr>link_at = \<lambda>_. NotALink, working_dir = Some [RootDir], path_exists = \<lambda>_. False,
       percent_decode = \<lambda>s. s, cargo_manifest = \<lambda>_. Inl []\<rparr>,
     sys_lstat = \<lambda>_ _. StatMissing,
     sys_stat = \<lambda>_ _. StatMissing,
     sys_entries = \<lambda>_ _. ok [],
     sys_perform = \<lambda>op w. (w @ [op], ok ()),
     sys_git = \<lambda>dir args w. (w,
       if args = [''rev-parse'', ''--show-toplevel''] then ok (join_names dir @ [CHR 0x0A])
       else if args = [''ls-files'', ''--cached'', ''-z''] then ok [CHR ''a'', CHR 0x00]
       else ok []),
     nix_inputs = \<lambda>target w. (w, ok (if path_ends_with target ''root''
       then [(''lib'', JObject [(''url'', JString ''git+file:../lib'')])] else [])),
     nix_add_source = \<lambda>_ _ w. (w, ok ''/nix/store/x''),
     nix_lock = \<lambda>_ _ w. (w, ok ())\<rparr>"

definition example_env :: local_env where
  "example_env = sys_view example_machine []"

lemma example_quiet: "quiet example_machine example_env"
  by (simp add: quiet_def example_machine_def example_env_def)

lemma example_plain: "plain_entries example_machine"
  by (auto simp: plain_entries_def example_machine_def tracked_entries_def components_def)

lemma example_leaves_alone: "leaves_alone example_machine dest (list_all (\<lambda>op. path_starts_with (op_target op) dest))"
  by (simp add: leaves_alone_def example_machine_def)

definition example_prepared :: "fs_op list graph \<times> (build_error + prepared)" where
  "example_prepared = prepare_with_capture example_machine (\<lambda>_. ok ''{}'') 3 1
     [Normal ''w'', Normal ''app''] [Normal ''out''] False False []"

lemma example_result:
  "example_prepared =
     (\<lparr>world = [CreateDirAll [RootDir, Normal ''out''], CreateDirAll [RootDir, Normal ''out'', Normal ''root''],
          CreateDirAll [RootDir, Normal ''out'', Normal ''lib''],
          WriteText [RootDir, Normal ''out'', Normal ''sources.json''] [CHR ''{'', CHR ''}'', CHR 0x0A]],
        sources =
          [([RootDir, Normal ''w'', Normal ''app''], \<lparr>directory = [RootDir, Normal ''out'', Normal ''root''],
             src_inputs = [(''lib'', JObject [(''url'', JString ''git+file:../lib'')])]\<rparr>),
           ([RootDir, Normal ''w'', Normal ''lib''], \<lparr>directory = [RootDir, Normal ''out'', Normal ''lib''], src_inputs = []\<rparr>)],
        store_sources = [([RootDir, Normal ''w'', Normal ''lib''], ''/nix/store/x'')],
        overrides = [(''lib'', ''/nix/store/x'')]\<rparr>,
      ok \<lparr>flake = ''path:/out/root'',
        captured_sources =
          [([RootDir, Normal ''w'', Normal ''app''], [RootDir, Normal ''out'', Normal ''root'']),
           ([RootDir, Normal ''w'', Normal ''lib''], [RootDir, Normal ''out'', Normal ''lib''])],
        captured_stores = [([RootDir, Normal ''w'', Normal ''lib''], ''/nix/store/x'')],
        original_root = None\<rparr>)"
  by code_simp

section \<open>Properties\<close>






definition example_cycle :: "fs_op list machine" where
  "example_cycle = example_machine\<lparr>
     sys_git := \<lambda>dir args w. (w,
       if dir \<notin> {[RootDir, Normal ''a''], [RootDir, Normal ''b'']} then Inl ''not a git repository''
       else if args = [''rev-parse'', ''--show-toplevel''] then ok (join_names dir @ [CHR 0x0A])
       else ok []),
     nix_inputs := \<lambda>target w. (w, ok [(''x'', JObject [(''url'',
       JString (if path_ends_with target ''root'' then ''git+file:../b'' else ''git+file:../a''))])])\<rparr>"


section \<open>Policy\<close>

lemma validate_sources_ok:
  "validate_sources env srcs = ok ()
    \<longleftrightarrow> list_all (\<lambda>(src, s). validate_source env src (directory s) (src_inputs s) = ok ()) srcs"
  by (induction srcs) (auto split: sum.splits)

lemma validate_policy_source:
  assumes "validate_policy env srcs root_inputs = ok ()" "(src, s) \<in> set srcs"
  shows "validate_source env src (directory s) (src_inputs s) = ok ()"
proof -
  have "validate_sources env (sort_key fst srcs) = ok ()"
    using assms(1) by (auto simp: validate_policy_def split: sum.splits)
  then have "list_all (\<lambda>(src, s). validate_source env src (directory s) (src_inputs s) = ok ()) (sort_key fst srcs)"
    by (simp only: validate_sources_ok)
  with assms(2) show ?thesis by (auto simp: list_all_iff)
qed

definition framework_spec :: "jobject \<Rightarrow> json" where
  "framework_spec inputs = (case map_of inputs ''daemonFramework'' of None \<Rightarrow> JNull | Some v \<Rightarrow> v)"

lemma validate_source_ok:
  assumes "validate_source env src dir inputs = ok ()"
  shows "reject_standalone_hyprland inputs = ok ()"
    and "file_name src = Some d \<Longrightarrow> d \<in> set DAEMONS \<Longrightarrow> validate_daemon env d dir = ok ()"
    and "file_name src = Some d \<Longrightarrow> d \<in> set DAEMONS \<Longrightarrow>
      local_path env (framework_spec inputs) src = ok (map_option (\<lambda>p. join p (components ''daemon-framework'')) (parent src))"
  using assms by (auto simp: validate_source_def framework_spec_def Let_def split: sum.splits if_splits)

text \<open>
  Every worktree of a prepared snapshot obeys the policy: none of its inputs, at any depth, is a
  separate \<open>shelllist-hyprland\<close> or has overrides that are not an object; and one that is named as a
  daemon uses the crates of the framework beside it, in its manifest and as its flake input.
\<close>

lemma prepare_enforces_policy:
  assumes "prepare_with_capture m print fuel depth root_arg destination_arg frozen capture_root w = (g, ok r)"
    and "map_of (sources g) src = Some s"
  shows "(src, directory s) \<in> set (captured_sources r)
     \<and> (input_below (src_inputs s) name spec \<longrightarrow> acceptable name spec)
     \<and> (file_name src = Some d \<and> d \<in> set DAEMONS \<longrightarrow>
          (\<exists>w. validate_daemon (sys_view m w) d (directory s) = ok ()
             \<and> local_path (sys_view m w) (framework_spec (src_inputs s)) src
                 = ok (map_option (\<lambda>p. join p (components ''daemon-framework'')) (parent src))))"
proof -
  from assms(1) obtain rootp dest g2 where "publish m print depth rootp dest capture_root g2 = (g, ok r)"
    by (rule prepare_ok)
  then obtain rs :: source and w' where g: "g = g2\<lparr>world := w'\<rparr>"
    and pol: "validate_policy (sys_view m (world g2)) (sources g2) (src_inputs rs) = ok ()"
    and r: "captured_sources r = map (\<lambda>(p, s). (p, directory s)) (sort_key fst (sources g2))"
    by (rule publish_ok) blast
  from assms(2) g have mem: "(src, s) \<in> set (sources g2)" by (simp add: map_of_SomeD)
  note ok = validate_source_ok[OF validate_policy_source[OF pol mem]]
  from mem have "(src, directory s) \<in> set (captured_sources r)" unfolding r by force
  moreover have "acceptable name spec" if "input_below (src_inputs s) name spec"
    using ok(1) that by (simp add: reject_standalone_exact)
  ultimately show ?thesis using ok(2,3) by blast
qed

theorem prepare_enforces_policy_witness:
  "acceptable ''lib'' (JObject [(''url'', JString ''git+file:../lib'')])"
proof -
  let ?inputs = "[(''lib'', JObject [(''url'', JString ''git+file:../lib'')])]"
  have "input_below ?inputs ''lib'' (JObject [(''url'', JString ''git+file:../lib'')])"
    by (simp add: input_below.here)
  moreover obtain g r where "example_prepared = (g, ok r)"
    "map_of (sources g) [RootDir, Normal ''w'', Normal ''app'']
       = Some \<lparr>directory = [RootDir, Normal ''out'', Normal ''root''], src_inputs = ?inputs\<rparr>"
    unfolding example_result by simp
  ultimately show ?thesis
    using prepare_enforces_policy[of example_machine _ 3 1 _ "[Normal ''out'']" False False "[]"]
    unfolding example_prepared_def by fastforce
qed

end
