(* ===== verification/Preflight.thy ===== *)
theory Preflight
  imports Input_Graph
begin

text \<open>
  The preflight of a build, \<open>shelllist-local-build/src/preflight.rs\<close>: the same traversal as \<open>walk\<close>,
  but over the live worktrees and collecting problems instead of stopping. A pair of a worktree and
  the overlay it is reached with is walked once; the code compares overlays by their JSON text,
  which is the same comparison. The fuel of \<open>scan_walk\<close> bounds the depth.
\<close>

datatype problem =
    CannotInspect path build_error
  | CannotInspectInput path ustring local_error
  | LocalCycle path

record 'w scan =
  scan_world :: 'w
  definitions :: "(path \<times> jobject option) list"
  walked_with :: "(path \<times> jobject option) set"
  problems :: "problem list"

definition inspect :: "('e \<Rightarrow> problem) \<Rightarrow> 'e + 'a \<Rightarrow> 'w scan \<Rightarrow> 'w scan \<times> 'a option" where
  "inspect f r st = (case r of Inl e \<Rightarrow> (st\<lparr>problems := problems st @ [f e]\<rparr>, None) | Inr a \<Rightarrow> (st, Some a))"

definition on_scan :: "('e \<Rightarrow> problem) \<Rightarrow> ('w \<Rightarrow> 'w \<times> ('e + 'a)) \<Rightarrow> 'w scan \<Rightarrow> 'w scan \<times> 'a option" where
  "on_scan f g st = (case g (scan_world st) of (w, r) \<Rightarrow> inspect f r (st\<lparr>scan_world := w\<rparr>))"

definition scan_inputs :: "'w machine \<Rightarrow> path \<Rightarrow> 'w scan \<Rightarrow> 'w scan \<times> jobject option" where
  "scan_inputs m src st =
     (case map_of (definitions st) src of
        Some d \<Rightarrow> (st, d)
      | None \<Rightarrow>
          let st1 = fst (on_scan (CannotInspect src) (validate_worktree m src) st) in
          (case on_scan (CannotInspect src) (\<lambda>w. with_error Io (nix_inputs m src w)) st1 of
             (st2, d) \<Rightarrow> (st2\<lparr>definitions := definitions st2 @ [(src, d)]\<rparr>, d)))"

definition scan_edge :: "'w machine \<Rightarrow> path \<Rightarrow> json \<Rightarrow> 'w \<Rightarrow> local_error + path option \<times> jobject option" where
  "scan_edge m src spec w =
     (case local_path (sys_view m w) spec src of
        Inl e \<Rightarrow> err e
      | Inr child \<Rightarrow> (case nested_inputs spec of Inl e \<Rightarrow> err e | Inr nested \<Rightarrow> ok (child, nested)))"

function scan_walk :: "'w machine \<Rightarrow> nat \<Rightarrow> path \<Rightarrow> jobject option \<Rightarrow> path set \<Rightarrow> 'w scan \<Rightarrow> 'w scan option"
  and scan_edges :: "'w machine \<Rightarrow> nat \<Rightarrow> path \<Rightarrow> jobject \<Rightarrow> path set \<Rightarrow> 'w scan \<Rightarrow> 'w scan option" where
  "scan_walk m 0 src overlay ancestors st = None"
| "scan_walk m (Suc fuel) src overlay ancestors st =
     (if src \<in> ancestors then Some (st\<lparr>problems := problems st @ [LocalCycle src]\<rparr>)
      else if (src, overlay) \<in> walked_with st then Some st
      else
        (case scan_inputs m src (st\<lparr>walked_with := insert (src, overlay) (walked_with st)\<rparr>) of
           (st', None) \<Rightarrow> Some st'
         | (st', Some inputs) \<Rightarrow>
             scan_edges m fuel src (direct_inputs (overlaid inputs overlay)) (insert src ancestors) st'))"
| "scan_edges m fuel src [] ancestors st = Some st"
| "scan_edges m fuel src ((name, spec) # inputs) ancestors st =
     (case inspect (CannotInspectInput src name) (scan_edge m src spec (scan_world st)) st of
        (st', Some (Some child, overlay)) \<Rightarrow>
          (case scan_walk m fuel child overlay ancestors st' of
             None \<Rightarrow> None
           | Some st'' \<Rightarrow> scan_edges m fuel src inputs ancestors st'')
      | (st', _) \<Rightarrow> scan_edges m fuel src inputs ancestors st')"
  by pat_completeness auto
termination
  by (relation "measures
      [\<lambda>x. case x of Inl (m, fuel, _) \<Rightarrow> fuel | Inr (m, fuel, _) \<Rightarrow> fuel,
       \<lambda>x. case x of Inl _ \<Rightarrow> 0 | Inr (m, fuel, src, inputs, _) \<Rightarrow> Suc (length inputs)]") auto

datatype preflight_error = RootUnresolved local_error | Problems "problem list"

text \<open>The report lists the worktrees inspected. \<open>None\<close> is a traversal the fuel was too small for.\<close>

definition preflight :: "'w machine \<Rightarrow> nat \<Rightarrow> path \<Rightarrow> 'w \<Rightarrow> ('w \<times> (preflight_error + path list)) option" where
  "preflight m fuel root_arg w =
     (case resolve (sys_view m w) root_arg of
        Inl e \<Rightarrow> Some (w, err (RootUnresolved e))
      | Inr rootp \<Rightarrow>
          (case scan_walk m fuel rootp None {}
              \<lparr>scan_world = w, definitions = [], walked_with = {}, problems = []\<rparr> of
             None \<Rightarrow> None
           | Some st \<Rightarrow>
               Some (scan_world st,
                 if problems st \<noteq> [] then err (Problems (problems st)) else ok (sort (map fst (definitions st))))))"

section \<open>A cycle behind an overlay\<close>

text \<open>
  The root declares \<open>y\<close> before \<open>x\<close>. \<open>y\<close> overrides its own input \<open>x\<close> so that the input \<open>y\<close> of \<open>x\<close>
  follows another; \<open>x\<close> declares \<open>y\<close>. Reached from the root, \<open>x\<close> leads to \<open>y\<close> and so back to \<open>x\<close>.
\<close>

definition overlay_machine :: "fs_op list machine" where
  "overlay_machine = example_machine\<lparr>nix_inputs := \<lambda>target w. (w, ok
     (if path_ends_with target ''x'' then [(''y'', JObject [(''url'', JString ''git+file:../y'')])]
      else if path_ends_with target ''y'' then
        [(''x'', JObject [(''inputs'', JObject [(''y'', JObject [(''follows'', JString [])])]),
           (''url'', JString ''git+file:../x'')])]
      else [(''a'', JObject [(''url'', JString ''git+file:../y'')]), (''b'', JObject [(''url'', JString ''git+file:../x'')])]))\<rparr>"

lemma overlay_preflight:
  "preflight overlay_machine 9 [Normal ''root''] [] = Some ([], ok [[RootDir, Normal ''root''], [RootDir, Normal ''x''], [RootDir, Normal ''y'']])"
  by code_simp

lemma overlay_prepare:
  "snd (prepare_with_capture overlay_machine (\<lambda>_. ok []) 9 1 [Normal ''root''] [Normal ''out''] False False [])
     = err (InputCycle [RootDir, Normal ''x''])"
  by code_simp

section \<open>What a clean preflight has seen\<close>

definition known :: "'w scan \<Rightarrow> path \<Rightarrow> jobject option" where
  "known st p = Option.bind (map_of (definitions st) p) (\<lambda>d. d)"

text \<open>Every edge could be read, and leads to a pair that was walked.\<close>

definition explored :: "local_env \<Rightarrow> (path \<times> jobject option) set \<Rightarrow> path \<Rightarrow> jobject \<Rightarrow> bool" where
  "explored env seen src inputs \<longleftrightarrow>
     (\<forall>(name, spec) \<in> set inputs. \<exists>child overlay. local_path env spec src = ok child
        \<and> nested_inputs spec = ok overlay \<and> (\<forall>p. child = Some p \<longrightarrow> (p, overlay) \<in> seen))"

definition finished :: "local_env \<Rightarrow> 'w scan \<Rightarrow> path \<times> jobject option \<Rightarrow> bool" where
  "finished env st = (\<lambda>(src, overlay). \<exists>inputs. known st src = Some inputs
     \<and> explored env (walked_with st) src (direct_inputs (overlaid inputs overlay)))"

definition inspected :: "'w machine \<Rightarrow> 'w scan \<Rightarrow> bool" where
  "inspected m st \<longleftrightarrow> problems st = [] \<and> fst ` set (definitions st) \<subseteq> fst ` walked_with st
     \<and> (\<forall>(p, d) \<in> set (definitions st). 
        (\<exists>i w w'. d = Some i \<and> nix_inputs m p w = (w', ok i)) \<and> (\<exists>w w'. validate_worktree m p w = (w', ok ())))"

text \<open>A computation without problems forgets nothing, and finishes every pair it adds.\<close>

definition advances :: "'w machine \<Rightarrow> local_env \<Rightarrow> 'w scan \<Rightarrow> 'w scan \<Rightarrow> bool" where
  "advances m env st st' \<longleftrightarrow> inspected m st'
     \<and> (\<forall>p i. known st p = Some i \<longrightarrow> known st' p = Some i) \<and> walked_with st \<subseteq> walked_with st'
     \<and> (\<forall>x \<in> walked_with st' - walked_with st. finished env st' x)"

lemma explored_mono: "explored env A src inputs \<Longrightarrow> A \<subseteq> B \<Longrightarrow> explored env B src inputs"
  unfolding explored_def by fastforce

lemma finished_mono:
  assumes "finished env st x" "\<And>p i. known st p = Some i \<Longrightarrow> known st' p = Some i" "walked_with st \<subseteq> walked_with st'"
  shows "finished env st' x"
  using assms by (cases x) (auto simp: finished_def intro: explored_mono)

lemma advances_trans: "advances m env a b \<Longrightarrow> advances m env b c \<Longrightarrow> advances m env a c"
  unfolding advances_def using finished_mono[of env b _ c] by blast

lemma advances_refl: "inspected m st \<Longrightarrow> advances m env st st"
  by (simp add: advances_def)

lemma inspect_clean:
  "inspect f r st = (st', a) \<Longrightarrow> problems st' = [] \<Longrightarrow> st' = st \<and> (\<exists>x. r = ok x \<and> a = Some x)"
  by (auto simp: inspect_def split: sum.splits)

lemma on_scan_clean:
  assumes "on_scan f g st = (st', a)" "problems st' = []"
  shows "\<exists>x w. g (scan_world st) = (w, ok x) \<and> a = Some x \<and> st' = st\<lparr>scan_world := w\<rparr>"
  using assms inspect_clean[of f _ "st\<lparr>scan_world := _\<rparr>" st' a]
  by (fastforce simp: on_scan_def split: prod.splits)

lemma on_scan_grows: "\<exists>ps. problems (fst (on_scan f g st)) = problems st @ ps"
  by (auto simp: on_scan_def inspect_def split: prod.splits sum.splits)

lemma scan_inputs_clean:
  assumes "scan_inputs m src st = (st', d)" "problems st' = []" "inspected m st" "src \<in> fst ` walked_with st"
  shows "\<exists>i. d = Some i \<and> known st' src = Some i \<and> inspected m st' \<and> walked_with st' = walked_with st
     \<and> (\<forall>p i. known st p = Some i \<longrightarrow> known st' p = Some i)"
proof (cases "map_of (definitions st) src")
  case (Some d')
  with assms have "st' = st" "d = d'" by (simp_all add: scan_inputs_def)
  moreover obtain i where "d' = Some i"
    using Some assms(3) by (fastforce simp: inspected_def dest: map_of_SomeD)
  ultimately show ?thesis using Some assms(3) by (simp add: known_def)
next
  case None
  define st1 where "st1 = fst (on_scan (CannotInspect src) (validate_worktree m src) st)"
  from None assms(1) obtain st2 where st2: "on_scan (CannotInspect src) (\<lambda>w. with_error Io (nix_inputs m src w)) st1 = (st2, d)"
    and st': "st' = st2\<lparr>definitions := definitions st2 @ [(src, d)]\<rparr>"
    by (auto simp: scan_inputs_def Let_def st1_def split: prod.splits)
  from on_scan_clean[OF st2] assms(2) st' obtain i w2 where i: "d = Some i" "st2 = st1\<lparr>scan_world := w2\<rparr>"
    and nix: "nix_inputs m src (scan_world st1) = (w2, ok i)"
    by auto
  with assms(2) st' have "problems st1 = []" by simp
  with on_scan_clean[of "CannotInspect src" "validate_worktree m src" st st1] obtain w1
    where "validate_worktree m src (scan_world st) = (w1, ok ())" "st1 = st\<lparr>scan_world := w1\<rparr>"
    unfolding st1_def by (metis prod.collapse old.unit.exhaust)
  then show ?thesis
    using assms(3,4) i nix st' None by (auto simp: inspected_def known_def map_add_def split: option.splits)
qed

lemma scan_inputs_grows: "\<exists>ps. problems (fst (scan_inputs m src st)) = problems st @ ps"
proof (cases "map_of (definitions st) src")
  case None
  define st1 where "st1 = fst (on_scan (CannotInspect src) (validate_worktree m src) st)"
  obtain ps qs where "problems st1 = problems st @ ps"
    "problems (fst (on_scan (CannotInspect src) (\<lambda>w. with_error Io (nix_inputs m src w)) st1)) = problems st1 @ qs"
    using on_scan_grows unfolding st1_def by metis
  moreover obtain st2 d where "on_scan (CannotInspect src) (\<lambda>w. with_error Io (nix_inputs m src w)) st1 = (st2, d)"
    by force
  ultimately show ?thesis
    using None by (simp add: scan_inputs_def Let_def st1_def [symmetric])
qed (simp add: scan_inputs_def)

lemma scan_grows:
  "scan_walk m fuel src overlay ancestors st = Some st' \<Longrightarrow> \<exists>ps. problems st' = problems st @ ps"
  "scan_edges m fuel src inputs ancestors st = Some st' \<Longrightarrow> \<exists>ps. problems st' = problems st @ ps"
proof (induction m fuel src overlay ancestors st and m fuel src inputs ancestors st arbitrary: st' and st'
    rule: scan_walk_scan_edges.induct)
  case (2 m fuel src overlay ancestors st)
  obtain st1 d where st1: "scan_inputs m src (st\<lparr>walked_with := insert (src, overlay) (walked_with st)\<rparr>) = (st1, d)"
    by force
  with scan_inputs_grows[of m src "st\<lparr>walked_with := insert (src, overlay) (walked_with st)\<rparr>"]
  obtain ps where "problems st1 = problems st @ ps" by auto
  with 2 st1 show ?case by (fastforce split: if_splits option.splits)
next
  case (4 m fuel src name spec inputs ancestors st)
  obtain st1 e where st1: "inspect (CannotInspectInput src name) (scan_edge m src spec (scan_world st)) st = (st1, e)"
    by force
  then obtain ps where "problems st1 = problems st @ ps" by (auto simp: inspect_def split: sum.splits)
  with 4 st1 show ?case by (fastforce split: option.splits prod.splits)
qed simp_all

lemma scan_edge_ok:
  "scan_edge m src spec w = ok (child, overlay) \<longleftrightarrow>
     local_path (sys_view m w) spec src = ok child \<and> nested_inputs spec = ok overlay"
  by (auto simp: scan_edge_def split: sum.splits)

lemma scan_edges_step:
  assumes "scan_edges m fuel src ((name, spec) # inputs) ancestors st = Some st'" "problems st' = []" "quiet m env"
  obtains (skip) overlay where "local_path env spec src = ok None" "nested_inputs spec = ok overlay"
      "scan_edges m fuel src inputs ancestors st = Some st'"
    | (child) child overlay st1 where "local_path env spec src = ok (Some child)" "nested_inputs spec = ok overlay"
      "scan_walk m fuel child overlay ancestors st = Some st1" "problems st1 = []"
      "scan_edges m fuel src inputs ancestors st1 = Some st'"
proof -
  obtain st0 e where st0: "inspect (CannotInspectInput src name) (scan_edge m src spec (scan_world st)) st = (st0, e)"
    by force
  have clean: "problems s = []" if "scan_edges m fuel src inputs ancestors s = Some st'" for s
    using scan_grows(2)[OF that] assms(2) by simp
  have clean_walk: "problems s = []" if "scan_walk m fuel c ov ancestors s = Some s'" "problems s' = []" for c ov s s'
    using scan_grows(1)[OF that(1)] that(2) by simp
  have "problems st0 = []"
    using assms(1) st0 clean clean_walk by (auto split: option.splits)
  with inspect_clean[OF st0] obtain child overlay where
    "st0 = st" "e = Some (child, overlay)" "scan_edge m src spec (scan_world st) = ok (child, overlay)"
    by (metis prod.collapse)
  with st0 assms(1) clean that quiet_local_path[OF assms(3)] show thesis
    by (cases child) (auto simp: scan_edge_ok split: option.splits)
qed

lemma scan_edges_advance:
  assumes walk: "\<And>c ov st st'. scan_walk m fuel c ov ancestors st = Some st' \<Longrightarrow> problems st' = [] \<Longrightarrow> inspected m st
      \<Longrightarrow> advances m env st st' \<and> (c, ov) \<in> walked_with st'"
    and q: "quiet m env"
  shows "scan_edges m fuel src inputs ancestors st = Some st' \<Longrightarrow> problems st' = [] \<Longrightarrow> inspected m st
      \<Longrightarrow> advances m env st st' \<and> explored env (walked_with st') src inputs"
proof (induction inputs arbitrary: st)
  case Nil
  then show ?case by (simp add: explored_def advances_refl)
next
  case (Cons x inputs)
  obtain name spec where x: "x = (name, spec)" by force
  from Cons.prems(1)[unfolded x] Cons.prems(2) q show ?case
  proof (cases rule: scan_edges_step)
    case (skip overlay)
    with Cons show ?thesis by (auto simp: x explored_def)
  next
    case (child c overlay st1)
    note w = walk[OF child(3,4) Cons.prems(3)]
    then have e: "advances m env st1 st'" "explored env (walked_with st') src inputs"
      using Cons.IH[OF child(5) Cons.prems(2)] by (simp_all add: advances_def)
    with w have "(c, overlay) \<in> walked_with st'" by (auto simp: advances_def)
    with e child(1,2) have "explored env (walked_with st') src (x # inputs)" by (auto simp: x explored_def)
    with w e(1) show ?thesis by (blast intro: advances_trans)
  qed
qed

lemma scan_walk_start:
  assumes "scan_walk m (Suc fuel) src overlay ancestors st = Some st'" "problems st' = []" "inspected m st"
  obtains (again) "st' = st" "(src, overlay) \<in> walked_with st"
    | (fresh) i st1 where "(src, overlay) \<notin> walked_with st" "known st1 src = Some i" "inspected m st1"
      "walked_with st1 = insert (src, overlay) (walked_with st)" "known st \<subseteq>\<^sub>m known st1"
      "scan_edges m fuel src (direct_inputs (overlaid i overlay)) (insert src ancestors) st1 = Some st'"
proof (cases "(src, overlay) \<in> walked_with st")
  case True
  with assms again show ?thesis by (auto split: if_splits)
next
  case False
  let ?st = "st\<lparr>walked_with := insert (src, overlay) (walked_with st)\<rparr>"
  obtain st1 d where st1: "scan_inputs m src ?st = (st1, d)" by force
  have fr: "src \<notin> ancestors" using assms(1,2) by (auto split: if_splits)
  have "problems st1 = []"
    using assms(1,2) fr False st1 by (auto split: option.splits dest: scan_grows(2))
  moreover have "inspected m ?st" using assms(3) by (auto simp: inspected_def)
  ultimately obtain i where i: "d = Some i" "known st1 src = Some i" "inspected m st1"
    "walked_with st1 = insert (src, overlay) (walked_with st)" "\<And>p i. known ?st p = Some i \<Longrightarrow> known st1 p = Some i"
    using scan_inputs_clean[OF st1] by auto
  have "known st \<subseteq>\<^sub>m known st1" using i(5) by (auto simp: map_le_def dom_def known_def)
  with False i fresh[of st1 i] assms(1) fr st1 show ?thesis by simp
qed

lemma scan_walk_advances:
  assumes q: "quiet m env"
  shows "scan_walk m fuel src overlay ancestors st = Some st' \<Longrightarrow> problems st' = [] \<Longrightarrow> inspected m st
     \<Longrightarrow> advances m env st st' \<and> (src, overlay) \<in> walked_with st'"
proof (induction fuel arbitrary: src overlay ancestors st st')
  case (Suc fuel)
  from Suc.prems show ?case
  proof (cases rule: scan_walk_start)
    case again
    with Suc.prems(3) show ?thesis by (simp add: advances_refl)
  next
    case (fresh i st1)
    from scan_edges_advance[OF Suc.IH q fresh(6) Suc.prems(2) fresh(3)]
    have adv: "advances m env st1 st'" "explored env (walked_with st') src (direct_inputs (overlaid i overlay))"
      by simp_all
    have "finished env st' (src, overlay)"
      using adv fresh(2) by (auto simp: finished_def advances_def)
    moreover have "known st' p = Some j" if "known st p = Some j" for p j
      using adv(1) fresh(5) that unfolding advances_def by (metis domI map_le_def)
    ultimately show ?thesis using adv(1) fresh(4) by (auto simp: advances_def)
  qed
qed simp

section \<open>What can be reached\<close>

inductive scan_reach :: "local_env \<Rightarrow> (path \<Rightarrow> jobject option) \<Rightarrow> path \<Rightarrow> path \<Rightarrow> jobject option \<Rightarrow> bool"
  for env f rootp where
  start: "scan_reach env f rootp rootp None"
| edge: "scan_reach env f rootp src overlay \<Longrightarrow> f src = Some inputs
    \<Longrightarrow> (name, spec) \<in> set (direct_inputs (overlaid inputs overlay))
    \<Longrightarrow> local_path env spec src = ok (Some child) \<Longrightarrow> nested_inputs spec = ok nested
    \<Longrightarrow> scan_reach env f rootp child nested"

definition edges_into :: "local_env \<Rightarrow> (path \<times> jobject option) set \<Rightarrow> path \<Rightarrow> jobject \<Rightarrow> bool" where
  "edges_into env R src inputs \<longleftrightarrow>
     (\<forall>(name, spec) \<in> set inputs. \<forall>c n. local_path env spec src = ok (Some c) \<longrightarrow> nested_inputs spec = ok n \<longrightarrow> (c, n) \<in> R)"

definition closed_under :: "local_env \<Rightarrow> (path \<Rightarrow> jobject option) \<Rightarrow> (path \<times> jobject option) set \<Rightarrow> bool" where
  "closed_under env f R \<longleftrightarrow>
     (\<forall>(src, overlay) \<in> R. \<forall>i. f src = Some i \<longrightarrow> edges_into env R src (direct_inputs (overlaid i overlay)))"

lemma scan_edges_within:
  assumes walk: "\<And>c ov st st'. scan_walk m fuel c ov ancestors st = Some st' \<Longrightarrow> problems st' = [] \<Longrightarrow> inspected m st
      \<Longrightarrow> known st' \<subseteq>\<^sub>m f \<Longrightarrow> (c, ov) \<in> R \<Longrightarrow> walked_with st \<subseteq> R \<Longrightarrow> walked_with st' \<subseteq> R"
    and q: "quiet m env"
  shows "scan_edges m fuel src inputs ancestors st = Some st' \<Longrightarrow> problems st' = [] \<Longrightarrow> inspected m st
      \<Longrightarrow> known st' \<subseteq>\<^sub>m f \<Longrightarrow> edges_into env R src inputs \<Longrightarrow> walked_with st \<subseteq> R \<Longrightarrow> walked_with st' \<subseteq> R"
proof (induction inputs arbitrary: st)
  case (Cons x inputs)
  obtain name spec where x: "x = (name, spec)" by force
  have rest: "edges_into env R src inputs" using Cons.prems(5) by (simp add: edges_into_def)
  from Cons.prems(1)[unfolded x] Cons.prems(2) q show ?case
  proof (cases rule: scan_edges_step)
    case (skip overlay)
    with Cons rest show ?thesis by simp
  next
    case (child c overlay st1)
    have "(c, overlay) \<in> R" using Cons.prems(5) child(1,2) by (auto simp: x edges_into_def)
    moreover have st1: "inspected m st1" using scan_walk_advances[OF q child(3,4) Cons.prems(3)] by (simp add: advances_def)
    moreover have "known st1 \<subseteq>\<^sub>m f"
    proof -
      have "known st1 \<subseteq>\<^sub>m known st'"
        using scan_edges_advance[OF scan_walk_advances[OF q] q child(5) Cons.prems(2) st1]
        by (auto simp: advances_def map_le_def dom_def)
      then show ?thesis using Cons.prems(4) by (rule map_le_trans)
    qed
    ultimately have "walked_with st1 \<subseteq> R"
      using walk[OF child(3,4) Cons.prems(3)] Cons.prems(6) by simp
    with Cons.IH[OF child(5) Cons.prems(2) st1 Cons.prems(4) rest] show ?thesis by simp
  qed
qed simp

lemma scan_walk_within:
  assumes q: "quiet m env" and R: "closed_under env f R"
  shows "scan_walk m fuel src overlay ancestors st = Some st' \<Longrightarrow> problems st' = [] \<Longrightarrow> inspected m st
     \<Longrightarrow> known st' \<subseteq>\<^sub>m f \<Longrightarrow> (src, overlay) \<in> R \<Longrightarrow> walked_with st \<subseteq> R \<Longrightarrow> walked_with st' \<subseteq> R"
proof (induction fuel arbitrary: src overlay ancestors st st')
  case (Suc fuel)
  from Suc.prems(1-3) show ?case
  proof (cases rule: scan_walk_start)
    case (fresh i st1)
    have "known st' src = Some i"
      using scan_edges_advance[OF scan_walk_advances[OF q] q fresh(6) Suc.prems(2) fresh(3)] fresh(2)
      by (simp add: advances_def)
    with Suc.prems(4) have "f src = Some i" by (metis map_le_def domI)
    with R Suc.prems(5) have into: "edges_into env R src (direct_inputs (overlaid i overlay))"
      unfolding closed_under_def by fast
    have "walked_with st1 \<subseteq> R" using fresh(4) Suc.prems(5,6) by simp
    from scan_edges_within[OF Suc.IH q fresh(6) Suc.prems(2) fresh(3) Suc.prems(4) into this] show ?thesis .
  qed (use Suc.prems in simp)
qed simp

lemma reach_closed: "closed_under env f {(p, overlay). scan_reach env f rootp p overlay}"
  by (auto simp: closed_under_def edges_into_def intro: scan_reach.edge)

lemma reach_walked:
  assumes "scan_reach env (known st) rootp p overlay" "(rootp, None) \<in> walked_with st"
    and fin: "\<And>x. x \<in> walked_with st \<Longrightarrow> finished env st x"
  shows "(p, overlay) \<in> walked_with st"
  using assms(1)
proof induction
  case start
  then show ?case by (rule assms(2))
next
  case (edge src overlay inputs name spec child nested)
  from fin[OF edge.IH] edge show ?case
    by (fastforce simp: finished_def explored_def)
qed

section \<open>Termination\<close>

text \<open>
  Outside \<open>V\<close> there is no flake to evaluate. A call below itself has a worktree with inputs more
  among its ancestors.
\<close>

definition flakes_among :: "'w machine \<Rightarrow> path set \<Rightarrow> bool" where
  "flakes_among m V \<longleftrightarrow> (\<forall>w d. d \<notin> V \<longrightarrow> (\<exists>e. snd (nix_inputs m d w) = err e))"

abbreviation defined_among :: "path set \<Rightarrow> 'w scan \<Rightarrow> bool" where
  "defined_among V st \<equiv> list_all (\<lambda>(p, d). d \<noteq> None \<longrightarrow> p \<in> V) (definitions st)"

lemma on_scan_definitions [simp]: "definitions (fst (on_scan f g st)) = definitions st"
  by (auto simp: on_scan_def inspect_def split: prod.splits sum.splits)

lemma on_scan_None: "snd (g (scan_world st)) = err e \<Longrightarrow> snd (on_scan f g st) = None"
  by (auto simp: on_scan_def inspect_def split: prod.splits)

lemma scan_inputs_among:
  assumes "flakes_among m V" "defined_among V st" "scan_inputs m src st = (st', d)"
  shows "defined_among V st'" "d \<noteq> None \<Longrightarrow> src \<in> V"
proof -
  have "defined_among V st' \<and> (d \<noteq> None \<longrightarrow> src \<in> V)"
  proof (cases "map_of (definitions st) src")
    case (Some d')
    with assms(2,3) show ?thesis by (auto simp: scan_inputs_def list_all_iff dest: map_of_SomeD)
  next
    case None
    define st1 where "st1 = fst (on_scan (CannotInspect src) (validate_worktree m src) st)"
    obtain st2 d2 where st2: "on_scan (CannotInspect src) (\<lambda>w. with_error Io (nix_inputs m src w)) st1 = (st2, d2)"
      by force
    have d: "src \<in> V" if "d2 \<noteq> None"
    proof (rule ccontr)
      assume "src \<notin> V"
      with assms(1) obtain e where "snd (nix_inputs m src (scan_world st1)) = err e" by (auto simp: flakes_among_def)
      then have "snd (with_error Io (nix_inputs m src (scan_world st1))) = err (Io e)"
        by (cases "nix_inputs m src (scan_world st1)") auto
      from on_scan_None[of "\<lambda>w. with_error Io (nix_inputs m src w)", OF this, of "CannotInspect src"] st2 that
      show False by simp
    qed
    have "definitions (fst (on_scan (CannotInspect src) (\<lambda>w. with_error Io (nix_inputs m src w)) st1)) = definitions st"
      by (simp add: st1_def)
    then have "definitions st2 = definitions st" by (simp add: st2)
    with assms(2,3) None st2 d show ?thesis by (auto simp: scan_inputs_def Let_def st1_def [symmetric])
  qed
  then show "defined_among V st'" "d \<noteq> None \<Longrightarrow> src \<in> V" by simp_all
qed

lemma scan_edges_return:
  assumes "\<And>c ov st. defined_among V st \<Longrightarrow> \<exists>st'. scan_walk m fuel c ov ancestors st = Some st' \<and> defined_among V st'"
  shows "defined_among V st \<Longrightarrow> \<exists>st'. scan_edges m fuel src inputs ancestors st = Some st' \<and> defined_among V st'"
proof (induction inputs arbitrary: st)
  case (Cons x inputs)
  obtain name spec where x: "x = (name, spec)" by force
  obtain st0 e where st0: "inspect (CannotInspectInput src name) (scan_edge m src spec (scan_world st)) st = (st0, e)"
    by force
  then have d: "defined_among V st0" using Cons.prems by (auto simp: inspect_def split: sum.splits)
  consider "e = None \<or> (\<exists>ov. e = Some (None, ov))" | c ov where "e = Some (Some c, ov)"
    by (cases e; cases "fst (the e)"; cases "the e") auto
  then show ?case
  proof cases
    case 1
    with Cons.IH[OF d] st0 show ?thesis by (auto simp: x)
  next
    case 2
    from assms[OF d] obtain st1 where "scan_walk m fuel c ov ancestors st0 = Some st1" "defined_among V st1"
      by blast
    with Cons.IH[of st1] 2 st0 show ?thesis by (auto simp: x)
  qed
qed simp

lemma scan_walk_returns:
  assumes "flakes_among m V" "finite V"
  shows "card (V - ancestors) < fuel \<Longrightarrow> defined_among V st
    \<Longrightarrow> \<exists>st'. scan_walk m fuel src overlay ancestors st = Some st' \<and> defined_among V st'"
proof (induction fuel arbitrary: src overlay ancestors st)
  case (Suc fuel)
  let ?st = "st\<lparr>walked_with := insert (src, overlay) (walked_with st)\<rparr>"
  obtain st1 d where st1: "scan_inputs m src ?st = (st1, d)" by force
  have "defined_among V ?st" using Suc.prems(2) by simp
  note among = scan_inputs_among[OF assms(1) this st1]
  show ?case
  proof (cases "src \<in> ancestors \<or> (src, overlay) \<in> walked_with st \<or> d = None")
    case True
    with Suc.prems(2) st1 among(1) show ?thesis by auto
  next
    case False
    then have "card (V - insert src ancestors) < card (V - ancestors)"
      using among(2) assms(2) by (intro psubset_card_mono) auto
    with Suc.IH Suc.prems(1) have "\<And>c ov st. defined_among V st
        \<Longrightarrow> \<exists>st'. scan_walk m fuel c ov (insert src ancestors) st = Some st' \<and> defined_among V st'"
      by simp
    from scan_edges_return[OF this among(1)] False st1 show ?thesis by auto
  qed
qed simp

lemma preflight_returns:
  assumes "flakes_among m V" "finite V" "card V < fuel"
  shows "preflight m fuel root_arg w \<noteq> None"
proof (cases "resolve (sys_view m w) root_arg")
  case (Inr rootp)
  obtain st where "scan_walk m fuel rootp None {}
      \<lparr>scan_world = w, definitions = [], walked_with = {}, problems = []\<rparr> = Some st"
    using scan_walk_returns[OF assms(1,2), of "{}" fuel
        "\<lparr>scan_world = w, definitions = [], walked_with = {}, problems = []\<rparr>" rootp None] assms(3) by auto
  with Inr show ?thesis by (simp add: preflight_def)
qed (simp add: preflight_def)

section \<open>Properties\<close>

definition live_worktree :: "'w machine \<Rightarrow> path \<Rightarrow> jobject \<Rightarrow> bool" where
  "live_worktree m p i \<longleftrightarrow>
     (\<exists>w w'. nix_inputs m p w = (w', ok i)) \<and> (\<exists>w w'. validate_worktree m p w = (w', ok ()))"

definition all_explored :: "local_env \<Rightarrow> (path \<Rightarrow> jobject option) \<Rightarrow> path \<Rightarrow> bool" where
  "all_explored env f rootp \<longleftrightarrow>
     (\<forall>p overlay. scan_reach env f rootp p overlay \<longrightarrow> (\<exists>i. f p = Some i
        \<and> explored env {(p, overlay). scan_reach env f rootp p overlay} p (direct_inputs (overlaid i overlay))))"

lemma finished_known: "finished env st (p, overlay) \<Longrightarrow> p \<in> fst ` set (definitions st)"
  by (force simp: finished_def known_def bind_eq_Some_conv dest: map_of_SomeD)

lemma inspected_live:
  assumes "inspected m st" "p \<in> fst ` set (definitions st)"
  shows "\<exists>i. known st p = Some i \<and> live_worktree m p i"
proof -
  from assms(2) obtain d where d: "map_of (definitions st) p = Some d"
    by (cases "map_of (definitions st) p") (auto simp: map_of_eq_None_iff)
  with assms(1) have "(\<exists>i w w'. d = Some i \<and> nix_inputs m p w = (w', ok i)) \<and> (\<exists>w w'. validate_worktree m p w = (w', ok ()))"
    unfolding inspected_def by (blast dest: map_of_SomeD)
  with d show ?thesis by (auto simp: known_def live_worktree_def)
qed

text \<open>
  C37. A preflight without problems has seen everything: the worktrees it reports are exactly those
  that the root reaches through local inputs, under every overlay they are reached with; each was
  valid and its inputs readable, and every edge between them could be read.
\<close>

theorem preflight_complete:
  assumes "preflight m fuel root_arg w = Some (w', ok ps)" "quiet m env"
  shows "\<exists>rootp f. resolve env root_arg = ok rootp
     \<and> set ps = {p. \<exists>overlay. scan_reach env f rootp p overlay}
     \<and> (\<forall>p \<in> set ps. \<exists>i. f p = Some i \<and> live_worktree m p i)
     \<and> all_explored env f rootp"
proof -
  from assms obtain rootp st where rootp: "resolve env root_arg = ok rootp"
    and walk: "scan_walk m fuel rootp None {}
        \<lparr>scan_world = w, definitions = [], walked_with = {}, problems = []\<rparr> = Some st"
    and clean: "problems st = []" and ps: "ps = sort (map fst (definitions st))"
    by (auto simp: preflight_def quiet_resolve split: sum.splits option.splits if_splits)
  have ins: "inspected m \<lparr>scan_world = w, definitions = [], walked_with = {}, problems = []\<rparr>"
    by (simp add: inspected_def)
  from scan_walk_advances[OF assms(2) walk clean ins]
  have st: "inspected m st" "(rootp, None) \<in> walked_with st" and fin: "\<And>x. x \<in> walked_with st \<Longrightarrow> finished env st x"
    by (auto simp: advances_def)
  have "walked_with st \<subseteq> {(p, overlay). scan_reach env (known st) rootp p overlay}"
    using scan_walk_within[OF assms(2) reach_closed walk clean ins map_le_refl] by (simp add: scan_reach.start)
  moreover have "(p, overlay) \<in> walked_with st" if "scan_reach env (known st) rootp p overlay" for p overlay
    using reach_walked[OF that st(2) fin] .
  ultimately have R: "walked_with st = {(p, overlay). scan_reach env (known st) rootp p overlay}" by blast
  have keys: "fst ` set (definitions st) = fst ` walked_with st"
  proof
    show "fst ` set (definitions st) \<subseteq> fst ` walked_with st" using st(1) unfolding inspected_def by blast
    show "fst ` walked_with st \<subseteq> fst ` set (definitions st)"
    proof
      fix p assume "p \<in> fst ` walked_with st"
      then obtain overlay where "(p, overlay) \<in> walked_with st" by auto
      then show "p \<in> fst ` set (definitions st)" by (rule finished_known[OF fin])
    qed
  qed
  have "set ps = {p. \<exists>overlay. scan_reach env (known st) rootp p overlay}"
    unfolding ps set_sort set_map keys unfolding R by (auto simp: image_iff)
  moreover have "\<forall>p \<in> set ps. \<exists>i. known st p = Some i \<and> live_worktree m p i"
    unfolding ps using inspected_live[OF st(1)] by simp
  moreover have "all_explored env (known st) rootp"
    unfolding all_explored_def R [symmetric] using fin R by (auto simp: finished_def)
  ultimately show ?thesis using rootp by blast
qed

theorem preflight_complete_witness:
  "\<exists>f. {[RootDir, Normal ''root''], [RootDir, Normal ''x''], [RootDir, Normal ''y'']}
      = {p. \<exists>overlay. scan_reach example_env f [RootDir, Normal ''root''] p overlay}"
proof -
  have "quiet overlay_machine example_env"
    by (simp add: quiet_def overlay_machine_def example_machine_def example_env_def)
  moreover have "resolve example_env [Normal ''root''] = ok [RootDir, Normal ''root'']" by code_simp
  ultimately obtain f where "set [[RootDir, Normal ''root''], [RootDir, Normal ''x''], [RootDir, Normal ''y'']]
      = {p. \<exists>overlay. scan_reach example_env f [RootDir, Normal ''root''] p overlay}"
    using preflight_complete[OF overlay_preflight, of example_env] by auto
  then show ?thesis by auto
qed


end
