(* ===== verification/Build_Cli.thy ===== *)
theory Build_Cli
  imports Preflight Lock_Prune
begin

text \<open>
  The command line of \<open>shelllist-local-build\<close> (\<open>src/cli.rs\<close>), the child processes it runs
  (\<open>src/command.rs\<close>), the calls of Nix (\<open>SystemNix\<close> in \<open>src/nix.rs\<close>) and the pruning of a lock file
  (\<open>prune_file\<close> in \<open>src/lock.rs\<close>). A command is the list of its words. What a process does is the
  environment: \<open>exec\<close> gives, in a state of the machine, an error or the exit status and the standard
  output. Parsing of the command line is \<open>clap\<close>'s; JSON is read and written by \<open>serde_json\<close>.
\<close>

section \<open>Child processes\<close>

type_synonym 'w executor = "ustring list \<Rightarrow> 'w \<Rightarrow> 'w \<times> (ustring + bool \<times> ustring)"

text \<open>\<open>output\<close> and \<open>run\<close>: a process that could not be started or did not succeed is an error.\<close>

definition command_output :: "'w executor \<Rightarrow> ustring list \<Rightarrow> 'w \<Rightarrow> 'w \<times> (ustring + ustring)" where
  "command_output exec words w =
     and_then (exec words w) (\<lambda>(success, out) w.
       if success then (w, ok out) else (w, err ''command failed''))"

definition command_run :: "'w executor \<Rightarrow> ustring list \<Rightarrow> 'w \<Rightarrow> 'w \<times> (ustring + unit)" where
  "command_run exec words w =
     and_then (exec words w) (\<lambda>(success, out) w.
       if success then (w, ok ()) else (w, err ''command failed''))"

section \<open>Nix\<close>

text \<open>\<open>str::replace("${", "\${")\<close>.\<close>

fun replace_interpolation :: "ustring \<Rightarrow> ustring" where
  "replace_interpolation [] = []"
| "replace_interpolation [c] = [c]"
| "replace_interpolation (c # d # s) =
     (if c = CHR ''$'' \<and> d = CHR ''{'' then CHR 0x5C # c # d # replace_interpolation s
      else c # replace_interpolation (d # s))"

definition inputs_expression :: "ustring \<Rightarrow> ustring" where
  "inputs_expression literal =
     ''(import (builtins.toPath '' @ replace_interpolation literal @ '')).inputs''"

definition system_inputs ::
  "'w executor \<Rightarrow> (path \<Rightarrow> ustring + ustring) \<Rightarrow> (ustring \<Rightarrow> ustring + jobject) \<Rightarrow> path \<Rightarrow> 'w \<Rightarrow> 'w \<times> (ustring + jobject)"
where
  "system_inputs exec to_json from_json rootp w =
     (case to_json (join rootp [Normal ''flake.nix'']) of
        Inl e \<Rightarrow> (w, err e)
      | Inr literal \<Rightarrow>
          and_then (command_output exec
              [''nix'', ''eval'', ''--impure'', ''--json'', ''--expr'', inputs_expression literal] w) (\<lambda>out w.
            (w, from_json out)))"

definition system_add_source ::
  "'w executor \<Rightarrow> (fs_op \<Rightarrow> 'w \<Rightarrow> 'w \<times> (ustring + unit)) \<Rightarrow> path \<Rightarrow> path \<Rightarrow> 'w \<Rightarrow> 'w \<times> (ustring + ustring)"
where
  "system_add_source exec perform src gc_root w =
     and_then (command_output exec
         [''nix'', ''store'', ''add-path'', ''--name'', ''source'', join_names src] w) (\<lambda>out w.
       if \<not> utf8_valid out then (w, err ''decode Nix store path'')
       else if \<not> starts_with ''/nix/store/'' (trim out) then (w, err (''invalid Nix store path: '' @ trim out))
       else
         (case parent gc_root of
            None \<Rightarrow> (w, err ''GC root has no parent'')
          | Some dir \<Rightarrow>
              and_then (perform (CreateDirAll dir) w) (\<lambda>_ w.
              and_then (command_output exec
                  [''nix-store'', ''--realise'', trim out, ''--add-root'', join_names gc_root, ''--indirect''] w) (\<lambda>_ w.
                (w, ok (trim out))))))"

definition lock_command :: "path \<Rightarrow> (ustring \<times> ustring) list \<Rightarrow> build_error + ustring list" where
  "lock_command staged replacements =
     (case flake_ref staged of
        Inl e \<Rightarrow> err e
      | Inr ref \<Rightarrow>
          ok ([''nix'', ''flake'', ''lock'', ref]
              @ concat (map (\<lambda>(edge, store_path). [''--override-input'', edge, ''path:'' @ store_path]) replacements)
              @ [''--output-lock-file'', join_names (join staged [Normal ''flake.lock''])]))"

section \<open>Invocations\<close>

definition FORBIDDEN :: "ustring list" where
  "FORBIDDEN = [''--override-input'', ''--update-input'', ''--recreate-lock-file'', ''--override-flake'', ''--flake'']"

text \<open>The part of a word before its first equals sign.\<close>

definition flag_of :: "ustring \<Rightarrow> ustring" where
  "flag_of arg = takeWhile (\<lambda>c. c \<noteq> CHR ''='') arg"

datatype cli_error = MissingRoot | SourceOverride | Prepare build_error | CommandFailed ustring

definition validate_args :: "ustring list \<Rightarrow> cli_error + unit" where
  "validate_args args =
     (if list_ex (\<lambda>arg. list_ex (\<lambda>forbidden. flag_of arg = forbidden) FORBIDDEN) args
      then err SourceOverride else ok ())"

definition invocation_parts :: "ustring list \<Rightarrow> cli_error + ustring \<times> ustring list" where
  "invocation_parts arguments =
     (case arguments of
        [] \<Rightarrow> err MissingRoot
      | rootp # args \<Rightarrow>
          ok (rootp, if (case args of [] \<Rightarrow> False | a # _ \<Rightarrow> a = ''--'') then tl args else args))"

definition invocation_command :: "ustring \<Rightarrow> ustring \<Rightarrow> ustring list \<Rightarrow> ustring list" where
  "invocation_command action installable args =
     ''nix'' # (if action = ''check'' then [''flake''] else [])
       @ [action, installable, ''--no-update-lock-file'']
       @ (if action = ''run'' then [''--''] else []) @ args"

text \<open>
  \<open>Invocation::run\<close> up to the process it starts: the command, or the error. The sources are prepared
  below the temporary directory \<open>temporary\<close>; the root is a word of the command line.
\<close>

definition invocation_plan ::
  "'w machine \<Rightarrow> (prepared \<Rightarrow> ustring + ustring) \<Rightarrow> nat \<Rightarrow> nat \<Rightarrow> path \<Rightarrow> ustring \<Rightarrow> ustring option \<Rightarrow> ustring list \<Rightarrow> 'w
     \<Rightarrow> 'w graph option \<times> (cli_error + ustring list)"
where
  "invocation_plan m print fuel depth temporary action attr arguments w =
     (case invocation_parts arguments of
        Inl e \<Rightarrow> (None, err e)
      | Inr (rootp, args) \<Rightarrow>
          (case validate_args args of
             Inl e \<Rightarrow> (None, err e)
           | Inr _ \<Rightarrow>
               (case prepare_with_capture m print fuel depth (components rootp)
                       (join temporary [Normal ''sources'']) False False w of
                  (g, Inl e) \<Rightarrow> (Some g, err (Prepare e))
                | (g, Inr prep) \<Rightarrow>
                    (Some g, ok (invocation_command action
                       (case attr of Some a \<Rightarrow> flake prep @ ''#'' @ a | None \<Rightarrow> flake prep) args)))))"

section \<open>Pruning a lock file\<close>

datatype prune_error = PruneLocal local_error | PruneIo ustring | PruneLock lock_error

text \<open>The names of the local inputs, in the order of the flake's.\<close>

fun local_names :: "local_env \<Rightarrow> path \<Rightarrow> jobject \<Rightarrow> local_error + ustring list" where
  "local_names env rootp [] = ok []"
| "local_names env rootp ((name, spec) # inputs) =
     (case local_path env spec rootp of
        Inl e \<Rightarrow> err e
      | Inr found \<Rightarrow>
          (case local_names env rootp inputs of
             Inl e \<Rightarrow> err e
           | Inr names \<Rightarrow> ok (if found = None then names else name # names)))"

definition prune_file ::
  "'w machine \<Rightarrow> ('w \<Rightarrow> path \<Rightarrow> ustring + json) \<Rightarrow> (json \<Rightarrow> ustring + ustring) \<Rightarrow> path \<Rightarrow> path \<Rightarrow> 'w
     \<Rightarrow> 'w \<times> (prune_error + unit)"
where
  "prune_file m read_json pretty root_arg lock w =
     and_then (with_error PruneLocal (w, resolve (sys_view m w) root_arg)) (\<lambda>rootp w.
     and_then (with_error PruneIo (nix_inputs m rootp w)) (\<lambda>inputs w.
     and_then (with_error PruneLocal (w, local_names (sys_view m w) rootp inputs)) (\<lambda>names w.
     and_then (with_error PruneIo (w, read_json w lock)) (\<lambda>current w.
     and_then (with_error PruneLock (w, prune_lock current names)) (\<lambda>result w.
     and_then (with_error PruneIo (w, pretty result)) (\<lambda>text w.
     with_error PruneIo (sys_perform m (WriteText lock (text @ [CHR 0x0A])) w)))))))"

section \<open>The expression Nix evaluates\<close>

text \<open>
  The body of a JSON string, as \<open>serde_json\<close> prints one: an escape is a backslash and one of the letters
  JSON knows, and a quote is always escaped. \<open>json_tokens\<close> are its characters; \<open>nix_tokens\<close> those
  of a double-quoted string of Nix, where a dollar sign and a brace open an interpolation unless the
  dollar sign is escaped.
\<close>

fun escaped :: "ustring \<Rightarrow> bool" where
  "escaped [] = True"
| "escaped [c] = (c \<noteq> CHR 0x5C \<and> c \<noteq> CHR 0x22)"
| "escaped (c # d # s) =
     (if c = CHR 0x5C then d \<in> set [CHR 0x22, CHR 0x5C, CHR ''/'', CHR ''b'', CHR ''f'', CHR ''n'', CHR ''r'', CHR ''t'', CHR ''u''] \<and> escaped s
      else c \<noteq> CHR 0x22 \<and> escaped (d # s))"

datatype token = Plain char | Escape char | Interpolation

fun json_tokens :: "ustring \<Rightarrow> token list" where
  "json_tokens [] = []"
| "json_tokens [c] = [Plain c]"
| "json_tokens (c # d # s) =
     (if c = CHR 0x5C then Escape d # json_tokens s else Plain c # json_tokens (d # s))"

fun nix_tokens :: "ustring \<Rightarrow> token list" where
  "nix_tokens [] = []"
| "nix_tokens [c] = [Plain c]"
| "nix_tokens (c # d # s) =
     (if c = CHR 0x5C then (if d = CHR ''$'' then Plain d else Escape d) # nix_tokens s
      else if c = CHR ''$'' \<and> d = CHR ''{'' then Interpolation # nix_tokens s
      else Plain c # nix_tokens (d # s))"

lemma replace_other: "c \<noteq> CHR ''$'' \<Longrightarrow> replace_interpolation (c # s) = c # replace_interpolation s"
  by (cases s) simp_all

lemma nix_tokens_plain: "c \<noteq> CHR 0x5C \<Longrightarrow> c \<noteq> CHR ''$'' \<Longrightarrow> nix_tokens (c # s) = Plain c # nix_tokens s"
  by (cases s) simp_all

lemma nix_tokens_dollar:
  "s = [] \<or> hd s \<noteq> CHR ''{'' \<Longrightarrow> nix_tokens (CHR ''$'' # s) = Plain (CHR ''$'') # nix_tokens s"
  by (cases s) simp_all

lemma json_tokens_plain: "c \<noteq> CHR 0x5C \<Longrightarrow> json_tokens (c # s) = Plain c # json_tokens s"
  by (cases s) simp_all

lemma hd_replace: "hd (replace_interpolation (c # s)) \<in> {c, CHR 0x5C}"
  by (cases s) simp_all

lemma replace_inert: "escaped s \<Longrightarrow> nix_tokens (replace_interpolation s) = json_tokens s"
proof (induction s rule: escaped.induct)
  case (3 c d s)
  show ?case
  proof (cases "c = CHR 0x5C")
    case True
    then have d: "d \<noteq> CHR ''$''" and s: "escaped s" using "3.prems" by auto
    have "replace_interpolation (c # d # s) = c # d # replace_interpolation s"
      using True replace_other [OF d] replace_other [of c "d # s"] by simp
    then show ?thesis using True d "3.IH"(1) [OF True s] by simp
  next
    case False
    then have rest: "escaped (d # s)" using "3.prems" by simp
    note IH = "3.IH"(2) [OF False rest]
    show ?thesis
    proof (cases "c = CHR ''$'' \<and> d = CHR ''{''")
      case True
      then have "replace_interpolation (c # d # s) = CHR 0x5C # CHR ''$'' # replace_interpolation (d # s)"
        by (simp add: replace_other)
      then show ?thesis using IH True by (simp add: json_tokens_plain)
    next
      case other: False
      then have r: "replace_interpolation (c # d # s) = c # replace_interpolation (d # s)" by auto
      show ?thesis
      proof (cases "c = CHR ''$''")
        case True
        then have "hd (replace_interpolation (d # s)) \<noteq> CHR ''{''" using hd_replace [of d s] other by auto
        then show ?thesis using r True IH by (simp add: nix_tokens_dollar)
      next
        case N: False
        then show ?thesis using r False IH by (simp add: nix_tokens_plain)
      qed
    qed
  qed
qed simp_all

lemma no_interpolation: "Interpolation \<notin> set (json_tokens s)"
  by (induction s rule: json_tokens.induct) auto

text \<open>
  A directory name is never evaluated. Whatever the path of the flake, the string in the expression
  given to Nix contains no interpolation, and it has the characters that the JSON text of the path
  has: escaping the dollar signs changes nothing else.
\<close>

lemma path_is_not_an_expression:
  assumes "literal = CHR 0x22 # body @ [CHR 0x22]" and "escaped body"
  shows "\<exists>text. inputs_expression literal
      = ''(import (builtins.toPath '' @ CHR 0x22 # text @ CHR 0x22 # '')).inputs''
    \<and> nix_tokens text = json_tokens body \<and> Interpolation \<notin> set (nix_tokens text)"
proof -
  have "replace_interpolation (body @ [CHR 0x22]) = replace_interpolation body @ [CHR 0x22]"
    by (induction body rule: replace_interpolation.induct) auto
  then have "inputs_expression literal
      = ''(import (builtins.toPath '' @ CHR 0x22 # replace_interpolation body @ CHR 0x22 # '')).inputs''"
    by (simp add: inputs_expression_def assms(1) replace_other)
  then show ?thesis using replace_inert [OF assms(2)] no_interpolation by metis
qed

theorem path_is_not_an_expression_witness:
  "\<exists>text. nix_tokens text = json_tokens ''/w/${builtins.abort}/flake.nix'' \<and> Interpolation \<notin> set (nix_tokens text)"
  using path_is_not_an_expression [of "CHR 0x22 # ''/w/${builtins.abort}/flake.nix'' @ [CHR 0x22]"
      "''/w/${builtins.abort}/flake.nix''", OF refl] by auto

section \<open>Sealed invocations\<close>

lemma prepared_flake:
  assumes "prepare_with_capture m print fuel depth root_arg destination_arg frozen capture_root w = (g, ok r)"
  shows "\<exists>rest. flake r = ''path:'' @ rest"
proof -
  obtain dest rootp g2 where "publish m print depth rootp dest capture_root g2 = (g, ok r)"
    using assms by (rule prepare_ok)
  then obtain p where "flake_ref p = ok (flake r)"
    unfolding publish_def
    by (cases "map_of (sources g2) rootp") (auto simp: step_ok on_world_ok Let_def split: if_splits)
  then have "flake r = ''path:'' @ join_names p" by (auto simp: flake_ref_def split: if_splits)
  then show ?thesis by blast
qed

lemma validate_args_ok: "validate_args args = ok u \<Longrightarrow> \<forall>arg \<in> set args. flag_of arg \<notin> set FORBIDDEN"
  by (auto simp: validate_args_def list_ex_iff split: if_splits)

lemma path_word_no_flag: "flag_of (''path:'' @ s) \<notin> set FORBIDDEN"
  by (auto simp: flag_of_def FORBIDDEN_def)


lemma demo_invocation:
  "snd (invocation_plan example_machine (\<lambda>_. ok ''{}'') 3 1 [Normal ''out''] ''build'' (Some ''bin'')
      [''w/app'', ''--'', ''-L''] [])
    = ok [''nix'', ''build'', ''path:/out/sources/root#bin'', ''--no-update-lock-file'', ''-L'']"
  by code_simp


section \<open>Locks\<close>

text \<open>The words of the lock command: each override, in order, and nothing else between the lock and its output.\<close>

lemma lock_command_overrides:
  assumes "lock_command staged replacements = ok words"
  shows "\<exists>ref. flake_ref staged = ok ref
    \<and> words = [''nix'', ''flake'', ''lock'', ref]
        @ concat (map (\<lambda>(edge, store_path). [''--override-input'', edge, ''path:'' @ store_path]) replacements)
        @ [''--output-lock-file'', join_names (join staged [Normal ''flake.lock''])]"
  using assms by (auto simp: lock_command_def split: sum.splits)

lemma local_names_exact:
  "local_names env rootp inputs = ok names \<Longrightarrow>
    names = map fst (filter (\<lambda>(n, spec). \<exists>p. local_path env spec rootp = ok (Some p)) inputs)"
proof (induction inputs arbitrary: names)
  case (Cons i inputs)
  obtain name spec where i: "i = (name, spec)" by fastforce
  then obtain found rest where "local_path env spec rootp = ok found" "local_names env rootp inputs = ok rest"
      "names = (if found = None then rest else name # rest)"
    using Cons.prems by (auto split: sum.splits)
  then show ?case using Cons.IH i by (cases found) auto
qed simp

text \<open>
  A lock file is written only with the result of the pruning, and the inputs dropped are exactly those
  that are local under the rules of the policy; on any error but the writing's own, nothing is written.
\<close>

lemma prune_file_writes:
  assumes "prune_file m read_json pretty root_arg lock w = (w', ok ())"
  shows "\<exists>rootp w1 inputs current names result text.
    resolve (sys_view m w) root_arg = ok rootp \<and> nix_inputs m rootp w = (w1, ok inputs)
    \<and> names = map fst (filter (\<lambda>(n, spec). \<exists>p. local_path (sys_view m w1) spec rootp = ok (Some p)) inputs)
    \<and> read_json w1 lock = ok current \<and> prune_lock current names = ok result \<and> pretty result = ok text
    \<and> sys_perform m (WriteText lock (text @ [CHR 0x0A])) w1 = (w', ok ())"
  using assms unfolding prune_file_def
  by (auto simp: step_ok dest: local_names_exact)


section \<open>The command line\<close>

text \<open>The subcommands, as \<open>clap\<close> hands them over; only \<open>check\<close> takes no attribute.\<close>

datatype cli_action =
    ActPrepare path path bool bool
  | ActPreflight path
  | ActPruneLock path path
  | ActCheck "ustring list"
  | ActBuild "ustring option" "ustring list"
  | ActDevelop "ustring option" "ustring list"
  | ActRun "ustring option" "ustring list"

fun action_invocation :: "cli_action \<Rightarrow> (ustring \<times> ustring option \<times> ustring list) option" where
  "action_invocation (ActCheck arguments) = Some (''check'', None, arguments)"
| "action_invocation (ActBuild attr arguments) = Some (''build'', attr, arguments)"
| "action_invocation (ActDevelop attr arguments) = Some (''develop'', attr, arguments)"
| "action_invocation (ActRun attr arguments) = Some (''run'', attr, arguments)"
| "action_invocation _ = None"

datatype cli_outcome =
    PreparedReport "build_error + prepared"
  | PreflightReport "(preflight_error + path list) option"
  | PrunedLock "prune_error + unit"
  | Invoked "cli_error + ustring list" "ustring + unit"

text \<open>
  \<open>Cli::run\<close> up to the printing of the report. The command an invocation has planned is run on what the
  preparation has left behind; an invocation that has no command runs none.
\<close>

definition cli_run ::
  "'w machine \<Rightarrow> 'w executor \<Rightarrow> (prepared \<Rightarrow> ustring + ustring) \<Rightarrow> ('w \<Rightarrow> path \<Rightarrow> ustring + json)
     \<Rightarrow> (json \<Rightarrow> ustring + ustring) \<Rightarrow> nat \<Rightarrow> nat \<Rightarrow> path \<Rightarrow> cli_action \<Rightarrow> 'w \<Rightarrow> cli_outcome"
where
  "cli_run m exec print read_json pretty fuel depth temporary act w =
     (case action_invocation act of
        Some (action, attr, arguments) \<Rightarrow>
          (case invocation_plan m print fuel depth temporary action attr arguments w of
             (Some g, Inr words) \<Rightarrow> Invoked (ok words) (snd (command_run exec words (world g)))
           | (_, refused) \<Rightarrow> Invoked refused (err ''not run''))
      | None \<Rightarrow>
          (case act of
             ActPrepare root_arg destination_arg frozen capture_root \<Rightarrow>
               PreparedReport (snd (prepare_with_capture m print fuel depth root_arg destination_arg frozen capture_root w))
           | ActPreflight root_arg \<Rightarrow> PreflightReport (map_option snd (preflight m fuel root_arg w))
           | ActPruneLock root_arg lock \<Rightarrow> PrunedLock (snd (prune_file m read_json pretty root_arg lock w))
           | _ \<Rightarrow> Invoked (err MissingRoot) (err ''not run'')))"

lemma action_invocation_kind:
  "action_invocation act = Some (action, attr, arguments) \<Longrightarrow>
    action \<in> {''check'', ''build'', ''develop'', ''run''} \<and> (action = ''check'' \<longrightarrow> attr = None)"
  by (cases act) auto

text \<open>Without arguments, or with one that overrides a source, no process is started.\<close>

lemma refused_runs_nothing:
  assumes "action_invocation act = Some (action, attr, arguments)"
    and "arguments = [] \<or> (\<exists>arg \<in> set (tl arguments). flag_of arg \<in> set FORBIDDEN)"
  shows "\<exists>e. cli_run m exec print read_json pretty fuel depth temporary act w = Invoked (err e) (err ''not run'')"
proof (cases arguments)
  case Nil
  with assms(1) show ?thesis by (simp add: cli_run_def invocation_plan_def invocation_parts_def)
next
  case (Cons rootp args)
  then obtain arg where arg: "arg \<in> set args" "flag_of arg \<in> set FORBIDDEN" using assms(2) by auto
  have "flag_of ''--'' \<notin> set FORBIDDEN" by code_simp
  then have "arg \<in> set (if (case args of [] \<Rightarrow> False | a # _ \<Rightarrow> a = ''--'') then tl args else args)"
    using arg by (cases args) auto
  then have "validate_args (if (case args of [] \<Rightarrow> False | a # _ \<Rightarrow> a = ''--'') then tl args else args) = err SourceOverride"
    using arg(2) by (auto simp: validate_args_def list_ex_iff)
  with Cons assms(1) show ?thesis by (simp add: cli_run_def invocation_plan_def invocation_parts_def)
qed

end
