(* ===== verification/Deadline_Writer.thy ===== *)
theory Deadline_Writer
  imports Prelude
begin

text \<open>
  \<open>shelllist-daemon-tokio/src/socket/writer.rs\<close>: the writer of a socket connection. It bounds a whole
  record, not the single writes it is made of: the bytes taken since the last completed flush stay
  under the frame limit, and the deadline runs from the first poll of the record until its flush.

  A poll happens at an instant (natural numbers, in the unit of \<open>timeout\<close>); a sleep is ready from the
  instant of its deadline on. The wrapped writer is the type parameter \<open>W: AsyncWrite\<close>, a record
  of its poll functions over a state of its own. \<open>writer_contract\<close> states what \<open>AsyncWrite\<close>
  documents: a write takes a prefix of the bytes it is offered, and nothing else adds to the output.
\<close>

section \<open>The writer\<close>

datatype 'a poll = Pending | Ready 'a

record ('w, 'e) async_write =
  aw_write :: "nat \<Rightarrow> ustring \<Rightarrow> 'w \<Rightarrow> ('e + nat) poll \<times> 'w"
  aw_flush :: "nat \<Rightarrow> 'w \<Rightarrow> ('e + unit) poll \<times> 'w"
  aw_shutdown :: "nat \<Rightarrow> 'w \<Rightarrow> ('e + unit) poll \<times> 'w"

datatype 'e deadline_error = FrameLimitExceeded | DeadlinePassed | WrappedError 'e

record 'w deadline_writer =
  dw_writer :: 'w
  dw_limit :: nat
  dw_written :: nat
  dw_timeout :: nat
  dw_deadline :: "nat option"

definition deadline_writer_new :: "'w \<Rightarrow> nat \<Rightarrow> nat \<Rightarrow> 'w deadline_writer" where
  "deadline_writer_new w limit timeout =
     \<lparr>dw_writer = w, dw_limit = limit, dw_written = 0, dw_timeout = timeout, dw_deadline = None\<rparr>"

fun lift_poll :: "('e + 'a) poll \<Rightarrow> ('e deadline_error + 'a) poll" where
  "lift_poll Pending = Pending"
| "lift_poll (Ready (Inl e)) = Ready (Inl (WrappedError e))"
| "lift_poll (Ready (Inr v)) = Ready (Inr v)"

definition expired :: "nat \<Rightarrow> 'w deadline_writer \<Rightarrow> bool \<times> 'w deadline_writer" where
  "expired now dw =
     (let d = (case dw_deadline dw of Some d \<Rightarrow> d | None \<Rightarrow> now + dw_timeout dw)
      in (d \<le> now, dw\<lparr>dw_deadline := Some d\<rparr>))"

definition poll_write ::
  "('w, 'e) async_write \<Rightarrow> nat \<Rightarrow> ustring \<Rightarrow> 'w deadline_writer
    \<Rightarrow> ('e deadline_error + nat) poll \<times> 'w deadline_writer"
where
  "poll_write W now bytes dw =
     (if length bytes > dw_limit dw - dw_written dw then (Ready (Inl FrameLimitExceeded), dw)
      else
        (case expired now dw of
           (True, dw1) \<Rightarrow> (Ready (Inl DeadlinePassed), dw1)
         | (False, dw1) \<Rightarrow>
             (case aw_write W now bytes (dw_writer dw1) of
                (Ready (Inr n), w) \<Rightarrow> (Ready (Inr n), dw1\<lparr>dw_writer := w, dw_written := dw_written dw1 + n\<rparr>)
              | (r, w) \<Rightarrow> (lift_poll r, dw1\<lparr>dw_writer := w\<rparr>))))"

definition poll_flush ::
  "('w, 'e) async_write \<Rightarrow> nat \<Rightarrow> 'w deadline_writer
    \<Rightarrow> ('e deadline_error + unit) poll \<times> 'w deadline_writer"
where
  "poll_flush W now dw =
     (case expired now dw of
        (True, dw1) \<Rightarrow> (Ready (Inl DeadlinePassed), dw1)
      | (False, dw1) \<Rightarrow>
          (case aw_flush W now (dw_writer dw1) of
             (Ready (Inr _), w) \<Rightarrow>
               (Ready (Inr ()), dw1\<lparr>dw_writer := w, dw_written := 0, dw_deadline := None\<rparr>)
           | (r, w) \<Rightarrow> (lift_poll r, dw1\<lparr>dw_writer := w\<rparr>)))"

definition poll_shutdown ::
  "('w, 'e) async_write \<Rightarrow> nat \<Rightarrow> 'w deadline_writer
    \<Rightarrow> ('e deadline_error + unit) poll \<times> 'w deadline_writer"
where
  "poll_shutdown W now dw =
     (case aw_shutdown W now (dw_writer dw) of (r, w) \<Rightarrow> (lift_poll r, dw\<lparr>dw_writer := w\<rparr>))"

text \<open>The trait implementation: the wrapper is an \<open>AsyncWrite\<close> again.\<close>

definition deadline_write :: "('w, 'e) async_write \<Rightarrow> ('w deadline_writer, 'e deadline_error) async_write" where
  "deadline_write W = \<lparr>aw_write = poll_write W, aw_flush = poll_flush W, aw_shutdown = poll_shutdown W\<rparr>"

definition takes_prefix :: "('w \<Rightarrow> ustring) \<Rightarrow> ustring \<Rightarrow> 'w \<Rightarrow> ('e + nat) poll \<times> 'w \<Rightarrow> bool" where
  "takes_prefix out bytes w r \<longleftrightarrow>
     (case r of
        (Ready (Inr n), w') \<Rightarrow> n \<le> length bytes \<and> out w' = out w @ take n bytes
      | (_, w') \<Rightarrow> out w' = out w)"

definition writer_contract :: "('w, 'e) async_write \<Rightarrow> ('w \<Rightarrow> ustring) \<Rightarrow> bool" where
  "writer_contract W out \<longleftrightarrow>
     (\<forall>now bytes w. takes_prefix out bytes w (aw_write W now bytes w))
     \<and> (\<forall>now w. out (snd (aw_flush W now w)) = out w)
     \<and> (\<forall>now w. out (snd (aw_shutdown W now w)) = out w)"

section \<open>Polls and their log\<close>

datatype poll_event = PollWrite nat ustring | PollFlush nat | PollShutdown nat

datatype poll_note = Accepted nat | Flushed | Rejected | Late | Waiting | Closing

fun event_time :: "poll_event \<Rightarrow> nat" where
  "event_time (PollWrite t _) = t"
| "event_time (PollFlush t) = t"
| "event_time (PollShutdown t) = t"

fun write_note :: "('e deadline_error + nat) poll \<Rightarrow> poll_note" where
  "write_note (Ready (Inr n)) = Accepted n"
| "write_note (Ready (Inl FrameLimitExceeded)) = Rejected"
| "write_note (Ready (Inl DeadlinePassed)) = Late"
| "write_note _ = Waiting"

fun flush_note :: "('e deadline_error + unit) poll \<Rightarrow> poll_note" where
  "flush_note (Ready (Inr _)) = Flushed"
| "flush_note (Ready (Inl DeadlinePassed)) = Late"
| "flush_note _ = Waiting"

fun poll_once :: "('w, 'e) async_write \<Rightarrow> poll_event \<Rightarrow> 'w deadline_writer \<Rightarrow> (nat \<times> poll_note) \<times> 'w deadline_writer" where
  "poll_once W (PollWrite t bytes) dw = (case poll_write W t bytes dw of (r, dw') \<Rightarrow> ((t, write_note r), dw'))"
| "poll_once W (PollFlush t) dw = (case poll_flush W t dw of (r, dw') \<Rightarrow> ((t, flush_note r), dw'))"
| "poll_once W (PollShutdown t) dw = (case poll_shutdown W t dw of (r, dw') \<Rightarrow> ((t, Closing), dw'))"

fun poll_all :: "('w, 'e) async_write \<Rightarrow> poll_event list \<Rightarrow> 'w deadline_writer \<Rightarrow> (nat \<times> poll_note) list \<times> 'w deadline_writer" where
  "poll_all W [] dw = ([], dw)"
| "poll_all W (ev # evs) dw =
     (case poll_once W ev dw of (n, dw1) \<Rightarrow> (case poll_all W evs dw1 of (ns, dw2) \<Rightarrow> (n # ns, dw2)))"


text \<open>
  What the log says about the record being written: the polls since the last completed flush, the
  bytes taken, and the instant its clock started (the poll at \<open>t\<close> starts it when none has).
\<close>

definition this_record :: "(nat \<times> poll_note) list \<Rightarrow> (nat \<times> poll_note) list" where
  "this_record log = rev (takeWhile (\<lambda>e. snd e \<noteq> Flushed) (rev log))"

fun bytes_of :: "poll_note \<Rightarrow> nat" where
  "bytes_of (Accepted n) = n"
| "bytes_of _ = 0"

definition taken :: "(nat \<times> poll_note) list \<Rightarrow> nat" where
  "taken log = sum_list (map (bytes_of \<circ> snd) (this_record log))"

definition clock :: "(nat \<times> poll_note) list \<Rightarrow> nat list" where
  "clock log = map fst (filter (\<lambda>e. snd e \<notin> {Rejected, Closing}) (this_record log))"

definition record_start :: "(nat \<times> poll_note) list \<Rightarrow> nat \<Rightarrow> nat" where
  "record_start log t = hd (clock log @ [t])"

lemma this_record_snoc [simp]:
  "this_record [] = []"
  "this_record (log @ [(t, k)]) = (if k = Flushed then [] else this_record log @ [(t, k)])"
  by (simp_all add: this_record_def)

lemma taken_snoc [simp]:
  "taken [] = 0"
  "taken (log @ [(t, k)]) = (if k = Flushed then 0 else taken log + bytes_of k)"
  by (simp_all add: taken_def)

lemma clock_snoc [simp]:
  "clock [] = []"
  "clock (log @ [(t, k)])
     = (if k = Flushed then [] else if k \<in> {Rejected, Closing} then clock log else clock log @ [t])"
  by (simp_all add: clock_def)

definition in_step :: "nat \<Rightarrow> nat \<Rightarrow> (nat \<times> poll_note) list \<Rightarrow> 'w deadline_writer \<Rightarrow> bool" where
  "in_step limit timeout log dw \<longleftrightarrow>
     dw_limit dw = limit \<and> dw_timeout dw = timeout \<and> dw_written dw = taken log \<and> taken log \<le> limit
     \<and> dw_deadline dw = (case clock log of [] \<Rightarrow> None | t # _ \<Rightarrow> Some (t + timeout))"

text \<open>What the limit and the deadline allow as the next entry of a log.\<close>

definition allowed :: "nat \<Rightarrow> nat \<Rightarrow> (nat \<times> poll_note) list \<Rightarrow> nat \<Rightarrow> poll_note \<Rightarrow> bool" where
  "allowed limit timeout log t k \<longleftrightarrow>
     (case k of
        Accepted n \<Rightarrow> taken log + n \<le> limit \<and> t < record_start log t + timeout
      | Flushed \<Rightarrow> t < record_start log t + timeout
      | Late \<Rightarrow> record_start log t + timeout \<le> t
      | _ \<Rightarrow> True)"

lemma poll_append:
  "poll_all W (xs @ [x]) dw =
     (case poll_all W xs dw of (ns, dw1) \<Rightarrow> (case poll_once W x dw1 of (n, dw2) \<Rightarrow> (ns @ [n], dw2)))"
  by (induction xs arbitrary: dw) (simp_all split: prod.split)

lemma expired_in_step:
  assumes "in_step limit timeout log dw" "expired t dw = (late, dw1)"
  shows "late \<longleftrightarrow> record_start log t + timeout \<le> t"
    and "dw1 = dw\<lparr>dw_deadline := Some (record_start log t + timeout)\<rparr>"
  using assms by (auto simp: in_step_def expired_def record_start_def Let_def split: list.splits)

lemma start_snoc [simp]: "record_start log t + timeout = u \<Longrightarrow>
    (case clock log @ [t] of [] \<Rightarrow> None | s # _ \<Rightarrow> Some (s + timeout)) = Some u"
  by (cases "clock log") (simp_all add: record_start_def)

text \<open>Each kind of poll writes an entry the bounds allow, and keeps the state in step with the log.\<close>

lemma poll_write_allowed:
  assumes s: "in_step limit timeout log dw"
    and c: "writer_contract W out"
    and p: "poll_write W t bytes dw = (r, dw')"
  shows "allowed limit timeout log t (write_note r) \<and> in_step limit timeout (log @ [(t, write_note r)]) dw'"
proof (cases "length bytes > dw_limit dw - dw_written dw")
  case True
  with p have "r = Ready (Inl FrameLimitExceeded)" "dw' = dw" by (simp_all add: poll_write_def)
  with s show ?thesis by (simp add: allowed_def in_step_def)
next
  case False
  obtain late dw1 where e: "expired t dw = (late, dw1)" by fastforce
  note ex = expired_in_step [OF s e]
  obtain q w where q: "aw_write W t bytes (dw_writer dw1) = (q, w)" by fastforce
  have "takes_prefix out bytes (dw_writer dw1) (q, w)"
    using c q by (metis writer_contract_def)
  then have "\<And>n. q = Ready (Inr n) \<Longrightarrow> n \<le> length bytes"
    by (simp add: takes_prefix_def)
  with False s p e q ex show ?thesis
    by (cases late; cases q rule: lift_poll.cases)
       (auto simp: poll_write_def allowed_def in_step_def)
qed

lemma poll_flush_allowed:
  assumes s: "in_step limit timeout log dw" and p: "poll_flush W t dw = (r, dw')"
  shows "allowed limit timeout log t (flush_note r) \<and> in_step limit timeout (log @ [(t, flush_note r)]) dw'"
proof -
  obtain late dw1 where e: "expired t dw = (late, dw1)" by fastforce
  note ex = expired_in_step [OF s e]
  obtain q w where q: "aw_flush W t (dw_writer dw1) = (q, w)" by fastforce
  with s p e ex show ?thesis
    by (cases late; cases q rule: lift_poll.cases)
       (auto simp: poll_flush_def allowed_def in_step_def)
qed

lemma poll_once_allowed:
  assumes "in_step limit timeout log dw" "writer_contract W out" "poll_once W ev dw = ((t, k), dw')"
  shows "t = event_time ev \<and> allowed limit timeout log t k \<and> in_step limit timeout (log @ [(t, k)]) dw'"
proof (cases ev)
  case (PollWrite u bytes)
  obtain r d where "poll_write W u bytes dw = (r, d)" by fastforce
  with poll_write_allowed [OF assms(1,2) this] assms(3) PollWrite show ?thesis by simp
next
  case (PollFlush u)
  obtain r d where "poll_flush W u dw = (r, d)" by fastforce
  with poll_flush_allowed [OF assms(1) this] assms(3) PollFlush show ?thesis by simp
next
  case (PollShutdown u)
  with assms show ?thesis
    by (auto simp: poll_shutdown_def allowed_def in_step_def split: prod.splits)
qed

text \<open>A passed deadline stays: no flush can clear it.\<close>

definition expired_since :: "(nat \<times> poll_note) list \<Rightarrow> 'w deadline_writer \<Rightarrow> bool" where
  "expired_since log dw \<longleftrightarrow> (\<forall>u. (u, Late) \<in> set log \<longrightarrow> (\<exists>d \<le> u. dw_deadline dw = Some d))"

lemma poll_once_late:
  assumes "poll_once W ev dw = ((t, k), dw')" "dw_deadline dw = Some d" "d \<le> event_time ev"
  shows "k \<in> {Rejected, Late, Closing} \<and> dw_deadline dw' = Some d \<and> (k \<noteq> Closing \<longrightarrow> dw_writer dw' = dw_writer dw)"
  using assms
  by (cases ev) (auto simp: poll_write_def poll_flush_def poll_shutdown_def expired_def split: if_splits prod.splits)

lemma late_expires:
  assumes "allowed limit timeout log t Late" "in_step limit timeout (log @ [(t, Late)]) dw"
  shows "\<exists>d \<le> t. dw_deadline dw = Some d"
  using assms start_snoc [of log t timeout] by (simp add: allowed_def in_step_def)

lemma poll_all_allowed:
  assumes "writer_contract W out" "sorted (map event_time evs)"
    and "poll_all W evs (deadline_writer_new w limit timeout) = (log, dw)"
  shows "map fst log = map event_time evs \<and> in_step limit timeout log dw \<and> expired_since log dw
    \<and> (\<forall>pre t k post. log = pre @ (t, k) # post \<longrightarrow>
         allowed limit timeout pre t k \<and> (Late \<in> snd ` set pre \<longrightarrow> k \<in> {Rejected, Late, Closing}))"
  using assms(2,3)
proof (induction evs arbitrary: log dw rule: rev_induct)
  case Nil
  then show ?case by (auto simp: deadline_writer_new_def in_step_def expired_since_def)
next
  case (snoc ev evs)
  obtain log1 dw1 where p1: "poll_all W evs (deadline_writer_new w limit timeout) = (log1, dw1)" by fastforce
  obtain t k dw2 where p2: "poll_once W ev dw1 = ((t, k), dw2)" by (metis prod.exhaust)
  have log: "log = log1 @ [(t, k)]" "dw = dw2" using snoc.prems(2) p1 p2 by (simp_all add: poll_append)
  have sorted: "sorted (map event_time evs)" "\<forall>e \<in> set evs. event_time e \<le> event_time ev"
    using snoc.prems(1) by (simp_all add: sorted_append)
  note IH = snoc.IH [OF sorted(1) p1]
  have now: "t = event_time ev" "allowed limit timeout log1 t k" "in_step limit timeout log dw"
    using poll_once_allowed [OF _ assms(1) p2] IH log by auto
  have earlier: "u \<le> t" if "(u, c) \<in> set log1" for u c
  proof -
    have "u \<in> set (map fst log1)" using that by force
    then show ?thesis using IH sorted(2) now(1) by auto
  qed
  have late: "k \<in> {Rejected, Late, Closing} \<and> (\<exists>d \<le> u. dw_deadline dw2 = Some d)" if m: "(u, Late) \<in> set log1" for u
  proof -
    obtain d where d: "d \<le> u" "dw_deadline dw1 = Some d" using IH m unfolding expired_since_def by meson
    then show ?thesis using poll_once_late [OF p2 d(2)] earlier [OF m] now(1) by auto
  qed
  have "expired_since log dw"
    using late late_expires [of limit timeout log1 t dw] now(2,3) log by (auto simp: expired_since_def)
  moreover have "\<forall>pre t k post. log = pre @ (t, k) # post \<longrightarrow>
      allowed limit timeout pre t k \<and> (Late \<in> snd ` set pre \<longrightarrow> k \<in> {Rejected, Late, Closing})"
  proof (intro allI impI)
    fix pre u c post assume eq: "log = pre @ (u, c) # post"
    show "allowed limit timeout pre u c \<and> (Late \<in> snd ` set pre \<longrightarrow> c \<in> {Rejected, Late, Closing})"
    proof (cases post rule: rev_cases)
      case Nil
      with eq log have "pre = log1" "u = t" "c = k" by auto
      then show ?thesis using now(2) late by force
    next
      case (snoc post' e)
      with eq log have "log1 = pre @ (u, c) # post'" by auto
      then show ?thesis using IH by blast
    qed
  qed
  ultimately show ?case using IH now log by simp
qed

text \<open>
  C23. The bound is the record's, not the write's. Whatever the wrapped writer answers, every entry of
  the log of polls respects the budget of the record it belongs to: the bytes taken since the last
  completed flush stay within the frame limit; bytes are taken, and a flush completes, only before
  the timeout counted from the first poll of that record, which a partial write never moves; a poll is
  reported late only when that much time has passed; and after a late poll no byte is taken and no
  flush completes any more.
\<close>

theorem record_budget_holds:
  assumes "writer_contract W out" "sorted (map event_time evs)"
    and "poll_all W evs (deadline_writer_new w limit timeout) = (log, dw)"
    and "log = pre @ (t, k) # post"
  shows "(\<forall>n. k = Accepted n \<longrightarrow> taken pre + n \<le> limit \<and> t < record_start pre t + timeout)
    \<and> (k = Flushed \<longrightarrow> t < record_start pre t + timeout)
    \<and> (k = Late \<longrightarrow> record_start pre t + timeout \<le> t)
    \<and> (Late \<in> snd ` set pre \<longrightarrow> (\<forall>n. k \<noteq> Accepted n) \<and> k \<noteq> Flushed)"
proof -
  have "allowed limit timeout pre t k" "Late \<in> snd ` set pre \<longrightarrow> k \<in> {Rejected, Late, Closing}"
    using poll_all_allowed [OF assms(1-3)] assms(4) by blast+
  then show ?thesis by (cases k) (simp_all add: allowed_def)
qed

text \<open>A writer that takes at most two bytes a poll, as its output.\<close>

definition slow_writer :: "(ustring, unit) async_write" where
  "slow_writer =
     \<lparr>aw_write = (\<lambda>now bytes w. (Ready (Inr (min 2 (length bytes))), w @ take 2 bytes)),
      aw_flush = (\<lambda>now w. (Ready (Inr ()), w)), aw_shutdown = (\<lambda>now w. (Ready (Inr ()), w))\<rparr>"

lemma slow_writer_contract: "writer_contract slow_writer (\<lambda>w. w)"
  by (simp add: writer_contract_def slow_writer_def takes_prefix_def min_def)

lemma slow_run:
  "poll_all slow_writer [PollWrite 10 ''abcd'', PollWrite 15 ''cd''] (deadline_writer_new '''' 8 5)
     = ([(10, Accepted 2)] @ (15, Late) # [],
        \<lparr>dw_writer = ''ab'', dw_limit = 8, dw_written = 2, dw_timeout = 5, dw_deadline = Some 15\<rparr>)"
  by code_simp

theorem record_budget_holds_witness:
  "record_start [(10, Accepted 2)] 15 + 5 \<le> (15 :: nat)"
proof -
  have "sorted (map event_time [PollWrite 10 ''abcd'', PollWrite 15 ''cd''])" by simp
  from record_budget_holds [OF slow_writer_contract this slow_run refl] show ?thesis by simp
qed

section \<open>Whole records\<close>

text \<open>
  \<open>emit_line\<close> of the output actor writes a record with \<open>AsyncWriteExt::write_all\<close> and then flushes.
  \<open>write_all\<close> is tokio's, as documented: it polls until no byte is left, a poll fails, or a poll takes
  nothing. The instants of the polls to come are \<open>ts\<close>; when they run out the task is still waiting.
\<close>

datatype 'e record_end = Complete | Failed 'e | WroteNothing | StillWaiting

fun write_all ::
  "('w, 'e) async_write \<Rightarrow> nat list \<Rightarrow> ustring \<Rightarrow> 'w \<Rightarrow> 'e record_end \<times> nat list \<times> 'w"
where
  "write_all W ts [] w = (Complete, ts, w)"
| "write_all W [] bytes w = (StillWaiting, [], w)"
| "write_all W (t # ts) bytes w =
     (case aw_write W t bytes w of
        (Pending, w') \<Rightarrow> write_all W ts bytes w'
      | (Ready (Inl e), w') \<Rightarrow> (Failed e, ts, w')
      | (Ready (Inr n), w') \<Rightarrow> if n = 0 then (WroteNothing, ts, w') else write_all W ts (drop n bytes) w')"

fun flush_all :: "('w, 'e) async_write \<Rightarrow> nat list \<Rightarrow> 'w \<Rightarrow> 'e record_end \<times> nat list \<times> 'w" where
  "flush_all W [] w = (StillWaiting, [], w)"
| "flush_all W (t # ts) w =
     (case aw_flush W t w of
        (Pending, w') \<Rightarrow> flush_all W ts w'
      | (Ready (Inl e), w') \<Rightarrow> (Failed e, ts, w')
      | (Ready (Inr _), w') \<Rightarrow> (Complete, ts, w'))"

definition emit_bytes :: "('w, 'e) async_write \<Rightarrow> nat list \<Rightarrow> ustring \<Rightarrow> 'w \<Rightarrow> 'e record_end \<times> nat list \<times> 'w" where
  "emit_bytes W ts bytes w =
     (case write_all W ts bytes w of
        (Complete, ts', w') \<Rightarrow> flush_all W ts' w'
      | r \<Rightarrow> r)"

text \<open>The records of a connection, up to the first that does not complete, and how many did.\<close>

fun emit_records :: "('w, 'e) async_write \<Rightarrow> nat list \<Rightarrow> ustring list \<Rightarrow> 'w \<Rightarrow> nat \<times> 'e record_end \<times> 'w" where
  "emit_records W ts [] w = (0, Complete, w)"
| "emit_records W ts (bytes # rest) w =
     (case emit_bytes W ts bytes w of
        (Complete, ts', w') \<Rightarrow> (case emit_records W ts' rest w' of (k, e, w'') \<Rightarrow> (Suc k, e, w''))
      | (e, ts', w') \<Rightarrow> (0, e, w'))"

lemma contract_write:
  assumes "writer_contract W out" "aw_write W t bytes w = (q, w')"
  shows "(\<forall>n. q = Ready (Inr n) \<longrightarrow> n \<le> length bytes \<and> out w' = out w @ take n bytes)
    \<and> ((\<forall>n. q \<noteq> Ready (Inr n)) \<longrightarrow> out w' = out w)"
proof -
  have "takes_prefix out bytes w (q, w')" using assms by (metis writer_contract_def)
  then show ?thesis by (auto simp: takes_prefix_def split: poll.splits sum.splits)
qed

lemma contract_flush:
  "writer_contract W out \<Longrightarrow> aw_flush W t w = (q, w') \<Longrightarrow> out w' = out w"
  by (metis writer_contract_def snd_conv)

lemma contract_shutdown:
  "writer_contract W out \<Longrightarrow> aw_shutdown W t w = (q, w') \<Longrightarrow> out w' = out w"
  by (metis writer_contract_def snd_conv)

text \<open>The wrapper keeps the contract it relies on.\<close>

lemma deadline_write_contract:
  assumes c: "writer_contract W out"
  shows "writer_contract (deadline_write W) (\<lambda>dw. out (dw_writer dw))"
proof -
  have "takes_prefix (\<lambda>dw. out (dw_writer dw)) bytes dw (poll_write W t bytes dw)" for bytes dw t
  proof -
    obtain late dw1 where e: "expired t dw = (late, dw1)" by fastforce
    then have w1: "dw_writer dw1 = dw_writer dw" by (auto simp: expired_def Let_def)
    obtain q w where q: "aw_write W t bytes (dw_writer dw1) = (q, w)" by fastforce
    note cw = contract_write [OF c q]
    show ?thesis using e w1 q cw
      by (cases late; cases q rule: lift_poll.cases) (simp_all add: poll_write_def takes_prefix_def)
  qed
  moreover have "out (dw_writer (snd (poll_flush W t dw))) = out (dw_writer dw)" for t dw
  proof -
    obtain late dw1 where e: "expired t dw = (late, dw1)" by fastforce
    then have w1: "dw_writer dw1 = dw_writer dw" by (auto simp: expired_def Let_def)
    obtain q w where q: "aw_flush W t (dw_writer dw1) = (q, w)" by fastforce
    note cf = contract_flush [OF c q]
    show ?thesis using e w1 q cf
      by (cases late; cases q rule: lift_poll.cases) (simp_all add: poll_flush_def)
  qed
  moreover have "out (dw_writer (snd (poll_shutdown W t dw))) = out (dw_writer dw)" for t dw
    by (cases "aw_shutdown W t (dw_writer dw)") (simp add: poll_shutdown_def contract_shutdown [OF c])
  ultimately show ?thesis by (simp add: writer_contract_def deadline_write_def)
qed

text \<open>Any writer: what reached the output is a prefix of the record, all of it when it completes.\<close>

lemma write_all_prefix:
  assumes "writer_contract W out" "write_all W ts bytes w = (e, ts', w')"
  shows "\<exists>k \<le> length bytes. out w' = out w @ take k bytes \<and> (e = Complete \<longrightarrow> k = length bytes)"
  using assms
proof (induction W ts bytes w rule: write_all.induct)
  case (3 W t ts b bs w)
  note c = \<open>writer_contract W out\<close>
  obtain q w1 where q: "aw_write W t (b # bs) w = (q, w1)" by fastforce
  note cw = contract_write [OF c q]
  show ?case
  proof (cases "\<exists>n. q = Ready (Inr n) \<and> n \<noteq> 0")
    case True
    then obtain n where n: "q = Ready (Inr n)" "n \<noteq> 0" by blast
    with cw have taken: "n \<le> length (b # bs)" "out w1 = out w @ take n (b # bs)" by auto
    have "write_all W ts (drop n (b # bs)) w1 = (e, ts', w')" using 3 q n by simp
    then obtain k where k: "k \<le> length (drop n (b # bs))" "out w' = out w1 @ take k (drop n (b # bs))"
        "e = Complete \<longrightarrow> k = length (drop n (b # bs))"
      using "3.IH"(2) [OF q [symmetric] n(1) refl n(2) c] by blast
    have "out w' = out w @ take (n + k) (b # bs)" using k(2) taken(2) by (simp add: take_add)
    moreover have "n + k \<le> length (b # bs)" "e = Complete \<longrightarrow> n + k = length (b # bs)"
      using k(1,3) taken(1) by auto
    ultimately show ?thesis by blast
  next
    case False
    then consider "q = Pending" | x where "q = Ready (Inl x)" | "q = Ready (Inr 0)"
      by (cases q rule: lift_poll.cases) auto
    then show ?thesis
    proof cases
      case 1
      with cw have "out w1 = out w" by simp
      then show ?thesis using "3.IH"(1) [OF q [symmetric] 1 c] 3(4) q 1 by simp
    qed (use 3 q cw in auto)
  qed
qed auto

lemma flush_all_keeps:
  "writer_contract W out \<Longrightarrow> flush_all W ts w = (e, ts', w') \<Longrightarrow> out w' = out w"
proof (induction W ts w rule: flush_all.induct)
  case (2 W t ts w)
  obtain q w1 where q: "aw_flush W t w = (q, w1)" by fastforce
  note cf = contract_flush [OF 2(2) q]
  show ?case using 2 q cf by (cases q rule: lift_poll.cases) auto
qed simp

lemma emit_bytes_prefix:
  assumes c: "writer_contract W out" and e: "emit_bytes W ts bytes w = (e, ts', w')"
  shows "\<exists>k \<le> length bytes. out w' = out w @ take k bytes \<and> (e = Complete \<longrightarrow> k = length bytes)"
proof -
  obtain e1 ts1 w1 where a: "write_all W ts bytes w = (e1, ts1, w1)" by (metis prod.exhaust)
  obtain k where k: "k \<le> length bytes" "out w1 = out w @ take k bytes" "e1 = Complete \<longrightarrow> k = length bytes"
    using write_all_prefix [OF c a] by blast
  show ?thesis
  proof (cases "e1 = Complete")
    case True
    then have "flush_all W ts1 w1 = (e, ts', w')" using e a by (simp add: emit_bytes_def)
    then have "out w' = out w1" by (rule flush_all_keeps [OF c])
    with k True show ?thesis by auto
  next
    case False
    then have "e = e1" "w' = w1" using e a by (cases e1; simp add: emit_bytes_def)+
    with k False show ?thesis by auto
  qed
qed

text \<open>
  The limit and \<open>write_all\<close>: a partial write shrinks what is left by what it counts, so the check sees
  the whole record every time. An oversized record is refused before its first byte.
\<close>

lemma deadline_write_sel [simp]:
  "aw_write (deadline_write W) = poll_write W"
  "aw_flush (deadline_write W) = poll_flush W"
  "aw_shutdown (deadline_write W) = poll_shutdown W"
  by (simp_all add: deadline_write_def)

lemma poll_write_oversized:
  "limit < dw_written dw + length bytes \<Longrightarrow> dw_limit dw = limit \<Longrightarrow> 0 < length bytes \<Longrightarrow>
    poll_write W t bytes dw = (Ready (Inl FrameLimitExceeded), dw)"
proof -
  assume "limit < dw_written dw + length bytes" "dw_limit dw = limit" "0 < length bytes"
  then have "length bytes > dw_limit dw - dw_written dw" by linarith
  then show ?thesis by (simp add: poll_write_def)
qed

lemma poll_write_fits:
  assumes "dw_written dw + length bytes \<le> dw_limit dw" "poll_write W t bytes dw = (q, dw')"
  shows "q \<noteq> Ready (Inl FrameLimitExceeded) \<and> dw_limit dw' = dw_limit dw
    \<and> (\<forall>n. q = Ready (Inr n) \<longrightarrow> dw_written dw' = dw_written dw + n)
    \<and> (q = Pending \<longrightarrow> dw_written dw' = dw_written dw)"
proof -
  obtain late dw1 where e: "expired t dw = (late, dw1)" by fastforce
  then have w1: "dw_written dw1 = dw_written dw" "dw_limit dw1 = dw_limit dw"
    by (auto simp: expired_def Let_def)
  obtain p w where p: "aw_write W t bytes (dw_writer dw1) = (p, w)" by fastforce
  have "\<not> dw_limit dw - dw_written dw < length bytes" using assms(1) by linarith
  with assms(2) p e w1 show ?thesis
    by (cases late; cases p rule: lift_poll.cases) (auto simp: poll_write_def)
qed

lemma poll_flush_facts:
  assumes "poll_flush W t dw = (q, dw')"
  shows "q \<noteq> Ready (Inl FrameLimitExceeded) \<and> dw_limit dw' = dw_limit dw
    \<and> (q = Ready (Inr ()) \<longrightarrow> dw_written dw' = 0 \<and> dw_deadline dw' = None)"
proof -
  obtain late dw1 where e: "expired t dw = (late, dw1)" by fastforce
  then have w1: "dw_limit dw1 = dw_limit dw" by (auto simp: expired_def Let_def)
  obtain p w where p: "aw_flush W t (dw_writer dw1) = (p, w)" by fastforce
  with assms e w1 show ?thesis
    by (cases late; cases p rule: lift_poll.cases) (auto simp: poll_flush_def)
qed

lemma write_all_fits:
  assumes "writer_contract W out" "write_all (deadline_write W) ts bytes dw = (e, ts', dw')"
    and "dw_written dw + length bytes \<le> dw_limit dw"
  shows "e \<noteq> Failed FrameLimitExceeded \<and> dw_limit dw' = dw_limit dw"
  using assms
proof (induction "deadline_write W" ts bytes dw rule: write_all.induct)
  case (3 t ts b bs dw)
  obtain q dw1 where q: "poll_write W t (b # bs) dw = (q, dw1)" by fastforce
  note fits = poll_write_fits [OF 3(5) q]
  have q': "aw_write (deadline_write W) t (b # bs) dw = (q, dw1)" using q by simp
  show ?case
  proof (cases "\<exists>n. q = Ready (Inr n) \<and> n \<noteq> 0")
    case True
    then obtain n where n: "q = Ready (Inr n)" "n \<noteq> 0" by blast
    have "n \<le> length (b # bs)"
      using contract_write [OF deadline_write_contract [OF 3(3)] q'] n by blast
    then have "dw_written dw1 + length (drop n (b # bs)) \<le> dw_limit dw1" using fits n 3(5) by auto
    moreover have "write_all (deadline_write W) ts (drop n (b # bs)) dw1 = (e, ts', dw')"
      using 3(4) q n by simp
    ultimately have "e \<noteq> Failed FrameLimitExceeded \<and> dw_limit dw' = dw_limit dw1"
      using "3.hyps"(2) [OF q' [symmetric] n(1) refl n(2) 3(3)] by blast
    with fits show ?thesis by simp
  next
    case False
    then consider "q = Pending" | x where "q = Ready (Inl x)" | "q = Ready (Inr 0)"
      by (cases q) (metis sum.exhaust)+
    then show ?thesis
    proof cases
      case 1
      then show ?thesis using "3.hyps"(1) [OF q' [symmetric] 1 3(3)] 3(4,5) q fits by simp
    qed (use 3 q fits in auto)
  qed
qed auto

lemma flush_all_facts:
  "flush_all (deadline_write W) ts dw = (e, ts', dw') \<Longrightarrow>
    e \<noteq> Failed FrameLimitExceeded \<and> dw_limit dw' = dw_limit dw \<and> (e = Complete \<longrightarrow> dw_written dw' = 0)"
proof (induction "deadline_write W" ts dw rule: flush_all.induct)
  case (2 t ts dw)
  obtain q dw1 where q: "poll_flush W t dw = (q, dw1)" by fastforce
  note facts = poll_flush_facts [OF q]
  show ?case using 2 q facts
    by (cases q; cases "case q of Ready r \<Rightarrow> r | Pending \<Rightarrow> Inr ()") auto
qed simp

lemma emit_bytes_limit:
  assumes c: "writer_contract W out" and "dw_written dw = 0"
    and e: "emit_bytes (deadline_write W) ts bytes dw = (e, ts', dw')"
  shows "dw_limit dw' = dw_limit dw
    \<and> (e = Complete \<longrightarrow> dw_written dw' = 0 \<and> length bytes \<le> dw_limit dw)
    \<and> (e = Failed FrameLimitExceeded \<longrightarrow> dw_limit dw < length bytes)
    \<and> (dw_limit dw < length bytes \<longrightarrow> dw' = dw)"
proof (cases "dw_limit dw < length bytes")
  case True
  then obtain b bs where b: "bytes = b # bs" by (cases bytes) auto
  have "poll_write W t bytes dw = (Ready (Inl FrameLimitExceeded), dw)" for t
    by (rule poll_write_oversized) (use True b assms(2) in auto)
  then show ?thesis using True e b by (cases ts) (auto simp: emit_bytes_def)
next
  case False
  obtain e1 ts1 dw1 where a: "write_all (deadline_write W) ts bytes dw = (e1, ts1, dw1)" by (metis prod.exhaust)
  have w: "e1 \<noteq> Failed FrameLimitExceeded \<and> dw_limit dw1 = dw_limit dw"
    using write_all_fits [OF c a] False assms(2) by simp
  show ?thesis
  proof (cases "e1 = Complete")
    case True
    then have "flush_all (deadline_write W) ts1 dw1 = (e, ts', dw')" using e a by (simp add: emit_bytes_def)
    from flush_all_facts [OF this] w False show ?thesis by simp
  next
    case N: False
    then have "e = e1" "dw' = dw1" using e a by (cases e1; simp add: emit_bytes_def)+
    with w N False show ?thesis by simp
  qed
qed

lemma emit_records_facts:
  assumes c: "writer_contract W out"
  shows "dw_written dw = 0 \<Longrightarrow> emit_records (deadline_write W) ts records dw = (k, e, dw') \<Longrightarrow>
    k \<le> length records \<and> (e = Complete \<longrightarrow> k = length records) \<and> (e \<noteq> Complete \<longrightarrow> k < length records)
    \<and> (\<exists>n. out (dw_writer dw') = out (dw_writer dw) @ concat (take k records)
             @ (if e = Complete then [] else take n (records ! k))
         \<and> (k < length records \<and> dw_limit dw < length (records ! k) \<longrightarrow> n = 0))
    \<and> (\<forall>i < k. length (records ! i) \<le> dw_limit dw)
    \<and> (e = Failed FrameLimitExceeded \<longrightarrow> dw_limit dw < length (records ! k))"
proof (induction records arbitrary: ts dw k)
  case Nil
  then show ?case by auto
next
  case (Cons bytes rest)
  obtain e1 ts1 dw1 where a: "emit_bytes (deadline_write W) ts bytes dw = (e1, ts1, dw1)" by (metis prod.exhaust)
  note limit = emit_bytes_limit [OF c Cons.prems(1) a]
  obtain n where n: "n \<le> length bytes" "out (dw_writer dw1) = out (dw_writer dw) @ take n bytes"
      "e1 = Complete \<longrightarrow> n = length bytes"
    using emit_bytes_prefix [OF deadline_write_contract [OF c] a] by blast
  show ?case
  proof (cases "e1 = Complete")
    case True
    obtain k1 e2 dw2 where r: "emit_records (deadline_write W) ts1 rest dw1 = (k1, e2, dw2)" by (metis prod.exhaust)
    have eq: "k = Suc k1" "e = e2" "dw' = dw2" using Cons.prems(2) a True r by simp_all
    have w: "dw_written dw1 = 0" "dw_limit dw1 = dw_limit dw" "length bytes \<le> dw_limit dw" using limit True by auto
    have IH: "k1 \<le> length rest \<and> (e = Complete \<longrightarrow> k1 = length rest) \<and> (e \<noteq> Complete \<longrightarrow> k1 < length rest)
        \<and> (\<forall>i < k1. length (rest ! i) \<le> dw_limit dw)
        \<and> (e = Failed FrameLimitExceeded \<longrightarrow> dw_limit dw < length (rest ! k1))"
      using Cons.IH [OF w(1)] r eq w(2) by auto
    obtain m where m: "out (dw_writer dw') = out (dw_writer dw1) @ concat (take k1 rest)
          @ (if e = Complete then [] else take m (rest ! k1))"
        "k1 < length rest \<and> dw_limit dw < length (rest ! k1) \<longrightarrow> m = 0"
      using Cons.IH [OF w(1)] r eq w(2) by metis
    have "out (dw_writer dw') = out (dw_writer dw) @ concat (take k (bytes # rest))
        @ (if e = Complete then [] else take m ((bytes # rest) ! k))"
      using m(1) n True eq(1) by simp
    then show ?thesis using IH m(2) w(3) eq(1) by (auto simp: nth_Cons split: nat.split)
  next
    case False
    then have eq: "k = 0" "e = e1" "dw' = dw1" using Cons.prems(2) a by (cases e1; simp)+
    have "out (dw_writer dw') = out (dw_writer dw) @ take (if dw_limit dw < length bytes then 0 else n) bytes"
      using n limit eq by (cases "dw_limit dw < length bytes") auto
    then show ?thesis using eq False limit by auto
  qed
qed

text \<open>
  C22. A client reads whole records. Whatever the socket takes at each poll and however late it is, what
  has reached it is the complete records in order, followed by at most a prefix of the one whose writing
  failed; no record over the frame limit is ever begun, none within it is refused for its size, and
  when the writing completes every record has been delivered in full.
\<close>

theorem client_reads_whole_records:
  assumes "writer_contract W out"
    and "emit_records (deadline_write W) ts records (deadline_writer_new w limit timeout) = (k, e, dw)"
  shows "(e = Complete \<longrightarrow> out (dw_writer dw) = out w @ concat records)
    \<and> (e \<noteq> Complete \<longrightarrow> k < length records
         \<and> (\<exists>n. out (dw_writer dw) = out w @ concat (take k records) @ take n (records ! k)
              \<and> (limit < length (records ! k) \<longrightarrow> n = 0)))
    \<and> (\<forall>i < k. length (records ! i) \<le> limit)
    \<and> (e = Failed FrameLimitExceeded \<longrightarrow> limit < length (records ! k))"
proof -
  have new: "dw_written (deadline_writer_new w limit timeout) = 0"
    "dw_limit (deadline_writer_new w limit timeout) = limit"
    "dw_writer (deadline_writer_new w limit timeout) = w" by (simp_all add: deadline_writer_new_def)
  note facts = emit_records_facts [OF assms(1) new(1) assms(2), unfolded new]
  show ?thesis using facts by (cases "e = Complete") auto
qed

lemma slow_records:
  "emit_records (deadline_write slow_writer) [10, 11, 12, 13, 14, 15] [''abc'', ''toolong''] (deadline_writer_new '''' 4 5)
     = (1, Failed FrameLimitExceeded,
        \<lparr>dw_writer = ''abc'', dw_limit = 4, dw_written = 0, dw_timeout = 5, dw_deadline = None\<rparr>)"
  by code_simp

theorem client_reads_whole_records_witness:
  "\<exists>n. ''abc'' = concat (take 1 [''abc'', ''toolong'']) @ take n ''toolong'' \<and> n = 0"
  using client_reads_whole_records [OF slow_writer_contract slow_records] by simp

end
