(* ===== verification/Socket_Listener.thy ===== *)
theory Socket_Listener
  imports Prelude
begin

text \<open>
  \<open>shelllist-daemon-tokio/src/socket/path.rs\<close>: binding the socket of a daemon below its private
  runtime directory, and the removal of the socket when the listener is dropped.

  Several attempts to bind the same name run concurrently, in one process or in many; each attempt
  has a number. One step of an attempt is one system call of \<open>bind\<close> or of \<open>drop\<close>, with the checks
  that follow it, so the calls of different attempts interleave in any order, and any call may fail
  for a reason of its own (the flag \<open>fault\<close>). An attempt may be killed at any point; the kernel closes
  the descriptors of an ended attempt one by one. The state is what these calls act on: the two
  directory entries (the lock file, which nobody unlinks, and the socket), the inodes, which socket
  inodes some attempt listens on, which inodes are locked with \<open>flock\<close>. Inode numbers
  are reused once nothing refers to them. The runtime directory itself does not change. Attempts that
  are \<open>Ended\<close> in the first state stand for other programs: they may listen or hold locks, but change
  no entry.
\<close>

datatype entry_kind = SocketEntry | RegularEntry | DirectoryEntry | SymlinkEntry | OtherEntry

record inode =
  in_kind :: entry_kind
  in_uid :: nat
  in_mode :: nat
  in_nlink :: nat

record runtime_directory =
  rd_absolute :: bool
  rd_canonical :: bool
  rd_kind :: entry_kind
  rd_uid :: nat
  rd_mode :: nat

datatype bind_error =
  InvalidName | InspectFailed | UnsafeRuntime | SystemError | UnsafeLock | AlreadyOwned
  | ForeignEntry | LiveSocket | SocketChanged

text \<open>Where an attempt is: the inode of its open lock file, of the socket it looks at or owns, of the
  identity it has read, and the error it will report.\<close>

datatype phase =
    Start
  | Opening
  | Opened nat
  | Checked nat
  | Locked nat
  | Probing nat nat
  | Stale nat nat
  | Confirmed nat nat
  | Clear nat
  | Bound nat nat
  | Listening nat nat
  | Named nat nat nat
  | Serving nat nat nat
  | Dropping nat nat nat "bind_error option"
  | Unlinking nat nat nat "bind_error option"
  | Ended "bind_error option"

record sockets =
  sk_name :: ustring
  sk_runtime :: runtime_directory
  sk_uid :: nat
  sk_lock_mode :: nat
  sk_inode :: "nat \<Rightarrow> inode"
  sk_lock_at :: "nat option"
  sk_sock_at :: "nat option"
  sk_flock :: "nat \<Rightarrow> nat option"
  sk_listen :: "nat \<Rightarrow> nat option"
  sk_phase :: "nat \<Rightarrow> phase"

section \<open>The checks\<close>

definition ascii_alphanumeric :: "char \<Rightarrow> bool" where
  "ascii_alphanumeric c \<longleftrightarrow>
     (let n = of_char c :: nat in (48 \<le> n \<and> n \<le> 57) \<or> (65 \<le> n \<and> n \<le> 90) \<or> (97 \<le> n \<and> n \<le> 122))"

definition valid_socket_name :: "ustring \<Rightarrow> bool" where
  "valid_socket_name name \<longleftrightarrow>
     name \<noteq> [] \<and> length name \<le> 64 \<and> list_all (\<lambda>c. ascii_alphanumeric c \<or> c = CHR ''-'') name"

definition private_runtime :: "nat \<Rightarrow> runtime_directory \<Rightarrow> bool" where
  "private_runtime uid d \<longleftrightarrow>
     rd_absolute d \<and> rd_canonical d \<and> rd_kind d = DirectoryEntry \<and> rd_uid d = uid \<and> rd_mode d mod 512 = 448"

definition safe_lock :: "nat \<Rightarrow> inode \<Rightarrow> bool" where
  "safe_lock uid i \<longleftrightarrow> in_kind i = RegularEntry \<and> in_uid i = uid \<and> in_mode i mod 512 = 384 \<and> in_nlink i = 1"

definition own_socket :: "nat \<Rightarrow> inode \<Rightarrow> bool" where
  "own_socket uid i \<longleftrightarrow> in_kind i = SocketEntry \<and> in_uid i = uid"

definition unused :: "sockets \<Rightarrow> nat \<Rightarrow> bool" where
  "unused s n \<longleftrightarrow>
     sk_lock_at s \<noteq> Some n \<and> sk_sock_at s \<noteq> Some n \<and> sk_flock s n = None \<and> sk_listen s n = None"

definition at_phase :: "nat \<Rightarrow> phase \<Rightarrow> sockets \<Rightarrow> sockets" where
  "at_phase p ph s = s\<lparr>sk_phase := (sk_phase s)(p := ph)\<rparr>"

definition give_up :: "nat \<Rightarrow> bind_error \<Rightarrow> sockets \<Rightarrow> sockets" where
  "give_up p e s = at_phase p (Ended (Some e)) s"

section \<open>The system calls of an attempt\<close>

definition open_lock :: "nat \<Rightarrow> nat \<Rightarrow> sockets \<Rightarrow> sockets" where
  "open_lock p n s =
     (case sk_lock_at s of
        Some l \<Rightarrow>
          if in_kind (sk_inode s l) \<in> {RegularEntry, OtherEntry} then at_phase p (Opened l) s
          else give_up p SystemError s
      | None \<Rightarrow>
          if unused s n
          then at_phase p (Opened n)
                 (s\<lparr>sk_lock_at := Some n,
                    sk_inode := (sk_inode s)(n := \<lparr>in_kind = RegularEntry, in_uid = sk_uid s,
                                                   in_mode = sk_lock_mode s, in_nlink = 1\<rparr>)\<rparr>)
          else s)"

definition lock_exclusive :: "nat \<Rightarrow> nat \<Rightarrow> sockets \<Rightarrow> sockets" where
  "lock_exclusive p l s =
     (if sk_flock s l = None then at_phase p (Locked l) (s\<lparr>sk_flock := (sk_flock s)(l := Some p)\<rparr>)
      else give_up p AlreadyOwned s)"

definition inspect_socket :: "nat \<Rightarrow> nat \<Rightarrow> sockets \<Rightarrow> sockets" where
  "inspect_socket p l s =
     (case sk_sock_at s of
        None \<Rightarrow> at_phase p (Clear l) s
      | Some j \<Rightarrow>
          if own_socket (sk_uid s) (sk_inode s j) then at_phase p (Probing l j) s
          else give_up p ForeignEntry s)"

definition connect_refused :: "sockets \<Rightarrow> bool" where
  "connect_refused s =
     (case sk_sock_at s of
        None \<Rightarrow> False
      | Some j \<Rightarrow> in_kind (sk_inode s j) = SocketEntry \<and> sk_listen s j = None)"

definition probe_socket :: "nat \<Rightarrow> nat \<Rightarrow> nat \<Rightarrow> sockets \<Rightarrow> sockets" where
  "probe_socket p l j s =
     (if connect_refused s then at_phase p (Stale l j) s else give_up p LiveSocket s)"

definition confirm_identity :: "nat \<Rightarrow> nat \<Rightarrow> nat \<Rightarrow> sockets \<Rightarrow> sockets" where
  "confirm_identity p l j s =
     (case sk_sock_at s of
        None \<Rightarrow> give_up p SystemError s
      | Some j' \<Rightarrow> if j' = j then at_phase p (Confirmed l j) s else give_up p SocketChanged s)"

definition remove_stale :: "nat \<Rightarrow> nat \<Rightarrow> sockets \<Rightarrow> sockets" where
  "remove_stale p l s =
     (case sk_sock_at s of
        None \<Rightarrow> give_up p SystemError s
      | Some _ \<Rightarrow> at_phase p (Clear l) (s\<lparr>sk_sock_at := None\<rparr>))"

definition bind_socket :: "nat \<Rightarrow> nat \<Rightarrow> nat \<Rightarrow> nat \<Rightarrow> sockets \<Rightarrow> sockets" where
  "bind_socket p l n mode s =
     (case sk_sock_at s of
        Some _ \<Rightarrow> give_up p SystemError s
      | None \<Rightarrow>
          if unused s n
          then at_phase p (Bound l n)
                 (s\<lparr>sk_sock_at := Some n,
                    sk_inode := (sk_inode s)(n := \<lparr>in_kind = SocketEntry, in_uid = sk_uid s,
                                                   in_mode = mode, in_nlink = 1\<rparr>)\<rparr>)
          else s)"

definition listen_on :: "nat \<Rightarrow> nat \<Rightarrow> nat \<Rightarrow> sockets \<Rightarrow> sockets" where
  "listen_on p l n s = at_phase p (Listening l n) (s\<lparr>sk_listen := (sk_listen s)(n := Some p)\<rparr>)"

definition read_identity :: "nat \<Rightarrow> nat \<Rightarrow> nat \<Rightarrow> sockets \<Rightarrow> sockets" where
  "read_identity p l n s =
     (case sk_sock_at s of None \<Rightarrow> give_up p SystemError s | Some i \<Rightarrow> at_phase p (Named l n i) s)"

definition make_private :: "nat \<Rightarrow> nat \<Rightarrow> nat \<Rightarrow> nat \<Rightarrow> sockets \<Rightarrow> sockets" where
  "make_private p l n i s =
     (case sk_sock_at s of
        None \<Rightarrow> at_phase p (Dropping l n i (Some SystemError)) s
      | Some j \<Rightarrow>
          at_phase p (Serving l n i) (s\<lparr>sk_inode := (sk_inode s)(j := (sk_inode s j)\<lparr>in_mode := 448\<rparr>)\<rparr>))"

text \<open>\<open>Drop for JsonlListener\<close>: the entry is removed only when it still is the listener's own socket.\<close>

definition check_own :: "nat \<Rightarrow> nat \<Rightarrow> nat \<Rightarrow> nat \<Rightarrow> bind_error option \<Rightarrow> sockets \<Rightarrow> sockets" where
  "check_own p l n i e s =
     (case sk_sock_at s of
        None \<Rightarrow> at_phase p (Ended e) s
      | Some j \<Rightarrow>
          if j = i \<and> in_kind (sk_inode s j) = SocketEntry then at_phase p (Unlinking l n i e) s
          else at_phase p (Ended e) s)"

definition unlink_own :: "nat \<Rightarrow> bind_error option \<Rightarrow> sockets \<Rightarrow> sockets" where
  "unlink_own p e s = at_phase p (Ended e) (s\<lparr>sk_sock_at := None\<rparr>)"

text \<open>
  One step of \<open>bind\<close>, then of the drop. \<open>n\<close> is the inode number a created file gets (the call is
  retried with another when it is in use), \<open>mode\<close> the mode of a created socket.
\<close>

definition bind_step :: "nat \<Rightarrow> bool \<Rightarrow> nat \<Rightarrow> nat \<Rightarrow> sockets \<Rightarrow> sockets" where
  "bind_step p fault n mode s =
     (case sk_phase s p of
        Start \<Rightarrow>
          if \<not> valid_socket_name (sk_name s) then give_up p InvalidName s
          else if fault then give_up p InspectFailed s
          else if \<not> private_runtime (sk_uid s) (sk_runtime s) then give_up p UnsafeRuntime s
          else at_phase p Opening s
      | Opening \<Rightarrow> if fault then give_up p SystemError s else open_lock p n s
      | Opened l \<Rightarrow>
          if fault then give_up p SystemError s
          else if \<not> safe_lock (sk_uid s) (sk_inode s l) then give_up p UnsafeLock s
          else at_phase p (Checked l) s
      | Checked l \<Rightarrow> if fault then give_up p AlreadyOwned s else lock_exclusive p l s
      | Locked l \<Rightarrow> if fault then give_up p SystemError s else inspect_socket p l s
      | Probing l j \<Rightarrow> if fault then give_up p LiveSocket s else probe_socket p l j s
      | Stale l j \<Rightarrow> if fault then give_up p SystemError s else confirm_identity p l j s
      | Confirmed l j \<Rightarrow> if fault then give_up p SystemError s else remove_stale p l s
      | Clear l \<Rightarrow> if fault then give_up p SystemError s else bind_socket p l n mode s
      | Bound l b \<Rightarrow> if fault then give_up p SystemError s else listen_on p l b s
      | Listening l b \<Rightarrow> if fault then give_up p SystemError s else read_identity p l b s
      | Named l b i \<Rightarrow>
          if fault then at_phase p (Dropping l b i (Some SystemError)) s else make_private p l b i s
      | Serving l b i \<Rightarrow> s
      | Dropping l b i e \<Rightarrow> if fault then at_phase p (Ended e) s else check_own p l b i e s
      | Unlinking l b i e \<Rightarrow> if fault then at_phase p (Ended e) s else unlink_own p e s
      | Ended e \<Rightarrow> s)"

section \<open>The machine\<close>

datatype socket_event =
    Advance nat bool nat nat
  | DropListener nat
  | Kill nat
  | CloseSocket nat nat
  | CloseLock nat nat

definition ended :: "phase \<Rightarrow> bool" where
  "ended ph = (case ph of Ended _ \<Rightarrow> True | _ \<Rightarrow> False)"

fun socket_step :: "socket_event \<Rightarrow> sockets \<Rightarrow> sockets" where
  "socket_step (Advance p fault n mode) s = bind_step p fault n mode s"
| "socket_step (DropListener p) s =
     (case sk_phase s p of Serving l b i \<Rightarrow> at_phase p (Dropping l b i None) s | _ \<Rightarrow> s)"
| "socket_step (Kill p) s = (if ended (sk_phase s p) then s else at_phase p (Ended None) s)"
| "socket_step (CloseSocket p j) s =
     (if ended (sk_phase s p) \<and> sk_listen s j = Some p
      then s\<lparr>sk_listen := (sk_listen s)(j := None)\<rparr> else s)"
| "socket_step (CloseLock p l) s =
     (if ended (sk_phase s p) \<and> sk_flock s l = Some p
      then s\<lparr>sk_flock := (sk_flock s)(l := None)\<rparr> else s)"

section \<open>The invariant\<close>

text \<open>The lock file an attempt has open, and the one it holds locked.\<close>

fun opened_lock :: "phase \<Rightarrow> nat option" where
  "opened_lock (Opened l) = Some l"
| "opened_lock (Checked l) = Some l"
| "opened_lock _ = None"

fun held_lock :: "phase \<Rightarrow> nat option" where
  "held_lock (Locked l) = Some l"
| "held_lock (Probing l j) = Some l"
| "held_lock (Stale l j) = Some l"
| "held_lock (Confirmed l j) = Some l"
| "held_lock (Clear l) = Some l"
| "held_lock (Bound l b) = Some l"
| "held_lock (Listening l b) = Some l"
| "held_lock (Named l b i) = Some l"
| "held_lock (Serving l b i) = Some l"
| "held_lock (Dropping l b i e) = Some l"
| "held_lock (Unlinking l b i e) = Some l"
| "held_lock _ = None"

text \<open>The socket at the path belongs to this uid, and this attempt, or nobody, listens on it.\<close>

definition entry_is :: "sockets \<Rightarrow> nat \<Rightarrow> nat option \<Rightarrow> bool" where
  "entry_is s j who \<longleftrightarrow>
     sk_sock_at s = Some j \<and> own_socket (sk_uid s) (sk_inode s j) \<and> sk_listen s j = who"

fun entry_ok :: "nat \<Rightarrow> sockets \<Rightarrow> phase \<Rightarrow> bool" where
  "entry_ok p s (Probing l j) \<longleftrightarrow> entry_is s j (sk_listen s j)"
| "entry_ok p s (Stale l j) \<longleftrightarrow> entry_is s j None"
| "entry_ok p s (Confirmed l j) \<longleftrightarrow> entry_is s j None"
| "entry_ok p s (Clear l) \<longleftrightarrow> sk_sock_at s = None"
| "entry_ok p s (Bound l b) \<longleftrightarrow> entry_is s b None"
| "entry_ok p s (Listening l b) \<longleftrightarrow> entry_is s b (Some p)"
| "entry_ok p s (Named l b i) \<longleftrightarrow> i = b \<and> entry_is s b (Some p)"
| "entry_ok p s (Serving l b i) \<longleftrightarrow> i = b \<and> entry_is s b (Some p) \<and> in_mode (sk_inode s b) = 448"
| "entry_ok p s (Dropping l b i e) \<longleftrightarrow> i = b \<and> entry_is s b (Some p)"
| "entry_ok p s (Unlinking l b i e) \<longleftrightarrow> i = b \<and> entry_is s b (Some p)"
| "entry_ok p s _ \<longleftrightarrow> True"

definition admitted_here :: "sockets \<Rightarrow> bool" where
  "admitted_here s \<longleftrightarrow> valid_socket_name (sk_name s) \<and> private_runtime (sk_uid s) (sk_runtime s)"

definition attempt_ok :: "sockets \<Rightarrow> nat \<Rightarrow> bool" where
  "attempt_ok s p \<longleftrightarrow>
     (\<forall>l. opened_lock (sk_phase s p) = Some l \<longrightarrow> sk_lock_at s = Some l)
     \<and> (\<forall>l. held_lock (sk_phase s p) = Some l \<longrightarrow> sk_lock_at s = Some l \<and> sk_flock s l = Some p)
     \<and> entry_ok p s (sk_phase s p)
     \<and> (sk_phase s p \<noteq> Start \<and> \<not> ended (sk_phase s p) \<longrightarrow> admitted_here s)"

definition sockets_inv :: "sockets \<Rightarrow> bool" where
  "sockets_inv s \<longleftrightarrow> (\<forall>p. attempt_ok s p)"

text \<open>Only one attempt holds the lock: the entry of the lock file never changes.\<close>

lemma lock_is_exclusive:
  assumes "sockets_inv s" "held_lock (sk_phase s p) = Some l" "held_lock (sk_phase s q) = Some k"
  shows "q = p"
  using assms unfolding sockets_inv_def attempt_ok_def by (metis option.inject)

lemma entry_ok_unlocked: "held_lock ph = None \<Longrightarrow> entry_ok p s ph"
  by (cases ph) simp_all

lemma admitted_here_cong:
  "sk_name s' = sk_name s \<Longrightarrow> sk_uid s' = sk_uid s \<Longrightarrow> sk_runtime s' = sk_runtime s \<Longrightarrow>
    admitted_here s' = admitted_here s"
  by (simp add: admitted_here_def)

text \<open>
  What an attempt may do to the others: it keeps the configuration and the lock entry, it changes only
  its own phase, it frees no lock held by another, and it touches the socket entry only while it
  holds the lock.
\<close>

definition step_of :: "nat \<Rightarrow> sockets \<Rightarrow> sockets \<Rightarrow> bool" where
  "step_of p s s' \<longleftrightarrow>
     sk_name s' = sk_name s \<and> sk_uid s' = sk_uid s \<and> sk_runtime s' = sk_runtime s
     \<and> (\<forall>q. q \<noteq> p \<longrightarrow> sk_phase s' q = sk_phase s q)
     \<and> (\<forall>l. sk_lock_at s = Some l \<longrightarrow> sk_lock_at s' = Some l)
     \<and> (\<forall>l q. q \<noteq> p \<and> sk_flock s l = Some q \<longrightarrow> sk_flock s' l = Some q)
     \<and> (held_lock (sk_phase s p) = None \<longrightarrow>
          sk_sock_at s' = sk_sock_at s
          \<and> (\<forall>j. sk_sock_at s = Some j \<longrightarrow> sk_inode s' j = sk_inode s j
               \<and> (\<forall>q. q \<noteq> p \<and> sk_listen s j = Some q \<longrightarrow> sk_listen s' j = Some q)
               \<and> (sk_listen s j = None \<longrightarrow> sk_listen s' j = None)))"

lemma others_keep_ok:
  assumes inv: "sockets_inv s" and st: "step_of p s s'" and q: "q \<noteq> p"
  shows "attempt_ok s' q"
proof -
  have ok: "attempt_ok s q" using inv by (simp add: sockets_inv_def)
  have ph: "sk_phase s' q = sk_phase s q" using st q by (simp add: step_of_def)
  have adm: "admitted_here s' = admitted_here s"
    using st by (intro admitted_here_cong) (simp_all add: step_of_def)
  have "entry_ok q s' (sk_phase s q)"
  proof (cases "held_lock (sk_phase s q)")
    case None
    then show ?thesis by (rule entry_ok_unlocked)
  next
    case (Some k)
    then have "held_lock (sk_phase s p) = None"
      using lock_is_exclusive [OF inv _ Some, of p] q by (cases "held_lock (sk_phase s p)") auto
    with st have "sk_sock_at s' = sk_sock_at s" "sk_uid s' = sk_uid s"
      "\<forall>j. sk_sock_at s = Some j \<longrightarrow> sk_inode s' j = sk_inode s j
               \<and> (\<forall>r. r \<noteq> p \<and> sk_listen s j = Some r \<longrightarrow> sk_listen s' j = Some r)
               \<and> (sk_listen s j = None \<longrightarrow> sk_listen s' j = None)"
      by (simp_all add: step_of_def)
    moreover have "entry_ok q s (sk_phase s q)" using ok by (simp add: attempt_ok_def)
    ultimately show ?thesis using q by (cases "sk_phase s q") (auto simp: entry_is_def)
  qed
  then show ?thesis using ok ph adm st q by (auto simp: attempt_ok_def step_of_def)
qed

lemma step_inv_intro:
  assumes "sockets_inv s" "step_of p s s'" "attempt_ok s' p"
  shows "sockets_inv s'"
  using assms others_keep_ok unfolding sockets_inv_def by metis

lemmas bind_calls =
  open_lock_def lock_exclusive_def inspect_socket_def connect_refused_def probe_socket_def
  confirm_identity_def remove_stale_def bind_socket_def listen_on_def read_identity_def
  make_private_def check_own_def unlink_own_def give_up_def at_phase_def

lemma bind_step_of: "step_of p s (bind_step p fault n mode s)"
proof (cases "sk_phase s p")
  case Start
  then show ?thesis by (simp add: step_of_def bind_step_def bind_calls)
next
  case Opening
  then show ?thesis
    by (simp add: step_of_def bind_step_def bind_calls unused_def split: option.split)
next
  case (Checked l)
  then show ?thesis by (simp add: step_of_def bind_step_def bind_calls)
qed (simp_all add: step_of_def bind_step_def bind_calls split: option.split)

lemma entry_ok_at [simp]: "entry_ok p (at_phase q ph' s) ph = entry_ok p s ph"
  by (cases ph) (simp_all add: at_phase_def entry_is_def)

lemma at_phase_ok [simp]:
  "attempt_ok (at_phase p ph s) p \<longleftrightarrow>
     (\<forall>l. opened_lock ph = Some l \<longrightarrow> sk_lock_at s = Some l)
     \<and> (\<forall>l. held_lock ph = Some l \<longrightarrow> sk_lock_at s = Some l \<and> sk_flock s l = Some p)
     \<and> entry_ok p s ph
     \<and> (ph \<noteq> Start \<and> \<not> ended ph \<longrightarrow> admitted_here s)"
  unfolding attempt_ok_def entry_ok_at by (simp add: at_phase_def admitted_here_def)

lemma ended_simps [simp]: "ended (Ended e)" "\<not> ended Start" "\<not> ended Opening" "\<not> ended (Opened l)"
  "\<not> ended (Checked l)" "\<not> ended (Locked l)" "\<not> ended (Probing l j)" "\<not> ended (Stale l j)"
  "\<not> ended (Confirmed l j)" "\<not> ended (Clear l)" "\<not> ended (Bound l b)" "\<not> ended (Listening l b)"
  "\<not> ended (Named l b i)" "\<not> ended (Serving l b i)" "\<not> ended (Dropping l b i e)" "\<not> ended (Unlinking l b i e)"
  by (simp_all add: ended_def)

lemma give_up_ok [simp]: "attempt_ok (give_up p e s) p"
  by (simp add: give_up_def)

lemma bind_step_ok:
  assumes "attempt_ok s p"
  shows "attempt_ok (bind_step p fault n mode s) p"
proof -
  note ops = bind_step_def open_lock_def lock_exclusive_def inspect_socket_def probe_socket_def
    confirm_identity_def remove_stale_def bind_socket_def listen_on_def read_identity_def
    make_private_def check_own_def unlink_own_def
  have ok: "\<forall>l. opened_lock (sk_phase s p) = Some l \<longrightarrow> sk_lock_at s = Some l"
    "\<forall>l. held_lock (sk_phase s p) = Some l \<longrightarrow> sk_lock_at s = Some l \<and> sk_flock s l = Some p"
    "entry_ok p s (sk_phase s p)"
    "sk_phase s p \<noteq> Start \<and> \<not> ended (sk_phase s p) \<longrightarrow> admitted_here s"
    using assms by (simp_all add: attempt_ok_def)
  show ?thesis
    using assms ok
    by (cases "sk_phase s p")
       (simp_all add: ops entry_is_def admitted_here_def unused_def own_socket_def connect_refused_def
          split: option.split)
qed

text \<open>What an ended attempt still does has no effect on what it promised.\<close>

lemma ended_ok:
  assumes "ended (sk_phase s p)" shows "attempt_ok s p"
  using assms by (cases "sk_phase s p") (simp_all add: attempt_ok_def)

lemma ended_no_lock: "ended ph \<Longrightarrow> held_lock ph = None"
  by (cases ph) simp_all

lemma socket_step_inv:
  assumes "sockets_inv s"
  shows "sockets_inv (socket_step ev s)"
proof (cases ev)
  case (Advance p fault n mode)
  have "attempt_ok s p" using assms by (simp add: sockets_inv_def)
  then show ?thesis
    using step_inv_intro [OF assms bind_step_of bind_step_ok] Advance by simp
next
  case (DropListener p)
  have ok: "attempt_ok s p" using assms by (simp add: sockets_inv_def)
  show ?thesis
  proof (cases "\<exists>l b i. sk_phase s p = Serving l b i")
    case True
    then obtain l b i where ph: "sk_phase s p = Serving l b i" by blast
    then have "step_of p s (socket_step ev s)" "attempt_ok (socket_step ev s) p"
      using ok DropListener
      by (auto simp: step_of_def at_phase_def attempt_ok_def entry_is_def admitted_here_def ended_def)
    then show ?thesis by (rule step_inv_intro [OF assms])
  next
    case False
    then have "socket_step ev s = s" using DropListener by (cases "sk_phase s p") auto
    with assms show ?thesis by simp
  qed
next
  case (Kill p)
  have "step_of p s (socket_step ev s)" "attempt_ok (socket_step ev s) p"
    using Kill assms
    by (auto simp: step_of_def at_phase_def attempt_ok_def sockets_inv_def ended_def)
  then show ?thesis by (rule step_inv_intro [OF assms])
next
  case (CloseSocket p j)
  show ?thesis
  proof (cases "ended (sk_phase s p) \<and> sk_listen s j = Some p")
    case True
    have "step_of p s (socket_step ev s)"
      using CloseSocket True ended_no_lock [of "sk_phase s p"] by (auto simp: step_of_def)
    moreover have "attempt_ok (socket_step ev s) p"
      using CloseSocket True by (intro ended_ok) simp
    ultimately show ?thesis by (rule step_inv_intro [OF assms])
  next
    case False
    with assms CloseSocket show ?thesis by (simp only: socket_step.simps if_False)
  qed
next
  case (CloseLock p l)
  show ?thesis
  proof (cases "ended (sk_phase s p) \<and> sk_flock s l = Some p")
    case True
    have "step_of p s (socket_step ev s)"
      using CloseLock True ended_no_lock [of "sk_phase s p"] by (auto simp: step_of_def)
    moreover have "attempt_ok (socket_step ev s) p"
      using CloseLock True by (intro ended_ok) simp
    ultimately show ?thesis by (rule step_inv_intro [OF assms])
  next
    case False
    with assms CloseLock show ?thesis by (simp only: socket_step.simps if_False)
  qed
qed

interpretation listener: step_invariant socket_step sockets_inv
  by unfold_locales (rule socket_step_inv)

section \<open>One listener for a name\<close>

fun serves :: "phase \<Rightarrow> nat option" where
  "serves (Serving l b i) = Some b"
| "serves _ = None"

lemma serves_phase: "serves ph = Some b \<Longrightarrow> \<exists>l i. ph = Serving l b i"
  by (cases ph) simp_all

lemma bind_step_removes:
  assumes ok: "attempt_ok s p" and j: "sk_sock_at s = Some j"
    and changed: "sk_sock_at (bind_step p fault n mode s) \<noteq> Some j"
  shows "own_socket (sk_uid s) (sk_inode s j)
    \<and> (sk_listen s j = None \<or> (\<exists>l e. sk_phase s p = Unlinking l j j e \<and> sk_listen s j = Some p))"
proof -
  note ops = bind_step_def bind_calls unused_def
  have e: "entry_ok p s (sk_phase s p)" using ok by (simp add: attempt_ok_def)
  show ?thesis using e j changed
    by (cases "sk_phase s p") (simp_all add: ops entry_is_def split: if_splits option.splits)
qed

lemma fresh_attempts_ok:
  "\<forall>p. sk_phase s p = Start \<or> ended (sk_phase s p) \<Longrightarrow> sockets_inv s"
  unfolding sockets_inv_def by (metis attempt_ok_def ended_ok entry_ok.simps(11) held_lock.simps(12)
      opened_lock.simps(3) option.distinct(1))

text \<open>
  C21. At most one listener owns a name, and no live or foreign socket is ever unlinked. However the
  system calls of any number of concurrent attempts interleave, fail, or are cut short by a kill: two
  attempts never both serve the name; an attempt that serves has passed the name and directory checks,
  the entry of the name is its own socket, on which it listens, with mode 0700; an entry is removed
  only when it is a socket of this uid on which nobody listens, or the remover's own; and the lock file
  is never unlinked, so a second lock cannot appear beside the first.
\<close>

theorem listener_is_exclusive:
  assumes "\<forall>p. sk_phase s0 p = Start \<or> ended (sk_phase s0 p)" and "s = fold socket_step evs s0"
  shows "(\<forall>p q b c. serves (sk_phase s p) = Some b \<and> serves (sk_phase s q) = Some c \<longrightarrow> q = p)
    \<and> (\<forall>p b. serves (sk_phase s p) = Some b \<longrightarrow>
         valid_socket_name (sk_name s) \<and> private_runtime (sk_uid s) (sk_runtime s)
         \<and> sk_sock_at s = Some b \<and> sk_listen s b = Some p \<and> in_mode (sk_inode s b) = 448)
    \<and> (\<forall>ev j. sk_sock_at s = Some j \<and> sk_sock_at (socket_step ev s) \<noteq> Some j \<longrightarrow>
         own_socket (sk_uid s) (sk_inode s j)
         \<and> (sk_listen s j = None \<or> (\<exists>p l e. sk_phase s p = Unlinking l j j e \<and> sk_listen s j = Some p)))
    \<and> (\<forall>ev l. sk_lock_at s = Some l \<longrightarrow> sk_lock_at (socket_step ev s) = Some l)"
proof -
  have inv: "sockets_inv s"
    unfolding assms(2) by (rule listener.run_inv [OF fresh_attempts_ok [OF assms(1)]])
  then have ok: "attempt_ok s p" for p by (simp add: sockets_inv_def)
  have one: "q = p" if pq: "serves (sk_phase s p) = Some b" "serves (sk_phase s q) = Some c" for p q b c
  proof -
    obtain l i k m where "sk_phase s p = Serving l b i" "sk_phase s q = Serving k c m"
      using serves_phase [OF pq(1)] serves_phase [OF pq(2)] by blast
    then show ?thesis using lock_is_exclusive [OF inv, of p l q k] by simp
  qed
  have up: "valid_socket_name (sk_name s) \<and> private_runtime (sk_uid s) (sk_runtime s)
         \<and> sk_sock_at s = Some b \<and> sk_listen s b = Some p \<and> in_mode (sk_inode s b) = 448"
    if sp: "serves (sk_phase s p) = Some b" for p b
  proof -
    obtain l i where "sk_phase s p = Serving l b i" using serves_phase [OF sp] by blast
    then show ?thesis using ok [of p] by (simp add: attempt_ok_def entry_is_def admitted_here_def)
  qed
  have removal: "own_socket (sk_uid s) (sk_inode s j)
         \<and> (sk_listen s j = None \<or> (\<exists>p l e. sk_phase s p = Unlinking l j j e \<and> sk_listen s j = Some p))"
    if "sk_sock_at s = Some j" "sk_sock_at (socket_step ev s) \<noteq> Some j" for ev j
  proof (cases ev)
    case (Advance p fault n mode)
    then show ?thesis using bind_step_removes [OF ok that(1), of p fault n mode] that(2) by auto
  qed (use that in \<open>auto simp: at_phase_def split: phase.splits if_splits\<close>)
  have lock: "sk_lock_at (socket_step ev s) = Some l" if "sk_lock_at s = Some l" for ev l
  proof (cases ev)
    case (Advance p fault n mode)
    then show ?thesis using bind_step_of [of p s fault n mode] that by (simp add: step_of_def)
  qed (use that in \<open>auto simp: at_phase_def split: phase.splits\<close>)
  show ?thesis using one up removal lock by blast
qed


text \<open>A stale socket left by a killed daemon, and two attempts to bind its name.\<close>

definition demo_sockets :: sockets where
  "demo_sockets =
     \<lparr>sk_name = ''test'',
      sk_runtime = \<lparr>rd_absolute = True, rd_canonical = True, rd_kind = DirectoryEntry, rd_uid = 1000, rd_mode = 448\<rparr>,
      sk_uid = 1000, sk_lock_mode = 384,
      sk_inode = (\<lambda>_. \<lparr>in_kind = SocketEntry, in_uid = 1000, in_mode = 448, in_nlink = 1\<rparr>),
      sk_lock_at = None, sk_sock_at = Some 7, sk_flock = (\<lambda>_. None), sk_listen = (\<lambda>_. None),
      sk_phase = (\<lambda>p. if p \<in> {1, 2} then Start else Ended None)\<rparr>"

definition demo_binds :: "socket_event list" where
  "demo_binds =
     [Advance 1 False 0 0, Advance 2 False 0 0, Advance 1 False 3 0, Advance 2 False 3 0, Advance 1 False 0 0,
      Advance 2 False 0 0, Advance 1 False 0 0, Advance 2 False 0 0, Advance 1 False 0 0, Advance 1 False 0 0,
      Advance 1 False 0 0, Advance 1 False 0 0, Advance 1 False 5 493, Advance 1 False 0 0, Advance 1 False 0 0,
      Advance 1 False 0 0]"

lemma demo_result:
  "serves (sk_phase (fold socket_step demo_binds demo_sockets) 1) = Some 5"
  "sk_phase (fold socket_step demo_binds demo_sockets) 2 = Ended (Some AlreadyOwned)"
  by code_simp+

theorem listener_is_exclusive_witness:
  "sk_sock_at (fold socket_step demo_binds demo_sockets) = Some 5
    \<and> sk_listen (fold socket_step demo_binds demo_sockets) 5 = Some 1
    \<and> in_mode (sk_inode (fold socket_step demo_binds demo_sockets) 5) = 448"
proof -
  have "\<forall>p. sk_phase demo_sockets p = Start \<or> ended (sk_phase demo_sockets p)"
    by (simp add: demo_sockets_def)
  note exclusive = listener_is_exclusive [OF this refl, of demo_binds]
  show ?thesis
    using exclusive [THEN conjunct2, THEN conjunct1, rule_format, OF demo_result(1)] by blast
qed

section \<open>A stale socket does not keep a daemon from starting\<close>

definition lock_free :: "sockets \<Rightarrow> nat \<Rightarrow> bool" where
  "lock_free s n \<longleftrightarrow>
     (case sk_lock_at s of
        None \<Rightarrow> unused s n \<and> sk_lock_mode s mod 512 = 384
      | Some l \<Rightarrow> safe_lock (sk_uid s) (sk_inode s l) \<and> sk_flock s l = None)"

definition path_free :: "sockets \<Rightarrow> bool" where
  "path_free s \<longleftrightarrow>
     (case sk_sock_at s of
        None \<Rightarrow> True
      | Some j \<Rightarrow> own_socket (sk_uid s) (sk_inode s j) \<and> sk_listen s j = None)"

text \<open>The first four calls end with the lock held, the rest as in \<open>bind\<close>.\<close>

lemma at_phase_sel [simp]:
  "sk_phase (at_phase p ph s) p = ph"
  "sk_name (at_phase p ph s) = sk_name s" "sk_uid (at_phase p ph s) = sk_uid s"
  "sk_runtime (at_phase p ph s) = sk_runtime s" "sk_lock_mode (at_phase p ph s) = sk_lock_mode s"
  "sk_inode (at_phase p ph s) = sk_inode s" "sk_lock_at (at_phase p ph s) = sk_lock_at s"
  "sk_sock_at (at_phase p ph s) = sk_sock_at s" "sk_flock (at_phase p ph s) = sk_flock s"
  "sk_listen (at_phase p ph s) = sk_listen s"
  by (simp_all add: at_phase_def)

lemma unused_at [simp]: "unused (at_phase p ph s) n = unused s n"
  by (simp add: unused_def)

lemma path_free_at [simp]: "path_free (at_phase p ph s) = path_free s"
  by (simp add: path_free_def cong: option.case_cong)

lemma opens_lock:
  assumes "sk_phase s p = Opening" "lock_free s n" "path_free s" "unused s k" "k \<noteq> n"
  shows "\<exists>s' l. open_lock p n s = s' \<and> sk_phase s' p = Opened l
    \<and> safe_lock (sk_uid s') (sk_inode s' l) \<and> sk_flock s' l = None \<and> path_free s' \<and> unused s' k \<and> k \<noteq> l"
proof (cases "sk_lock_at s")
  case None
  then have n: "unused s n" "sk_lock_mode s mod 512 = 384" using assms(2) by (simp_all add: lock_free_def)
  then have "path_free s' = path_free s"
    if "s' = s\<lparr>sk_lock_at := Some n, sk_inode := (sk_inode s)(n := i)\<rparr>" for s' i
    using that by (auto simp: path_free_def unused_def split: option.split)
  then show ?thesis using None n assms by (simp add: open_lock_def safe_lock_def unused_def)
next
  case (Some l)
  then show ?thesis using assms by (auto simp: open_lock_def lock_free_def safe_lock_def unused_def)
qed

lemma replicate_4: "replicate 4 x = [x, x, x, x]"
  by (simp add: numeral_eq_Suc)

lemma takes_lock:
  assumes "sk_phase s p = Start" "admitted_here s" "lock_free s n" "path_free s" "unused s k" "k \<noteq> n"
  shows "\<exists>s' l. fold socket_step (replicate 4 (Advance p False n mode)) s = s'
    \<and> sk_phase s' p = Locked l \<and> path_free s' \<and> unused s' k"
proof -
  let ?s1 = "at_phase p Opening s"
  have "lock_free ?s1 n" using assms(3) by (simp add: lock_free_def cong: option.case_cong)
  then obtain s2 l where s2: "open_lock p n ?s1 = s2" "sk_phase s2 p = Opened l"
      "safe_lock (sk_uid s2) (sk_inode s2 l)" "sk_flock s2 l = None" "path_free s2" "unused s2 k" "k \<noteq> l"
    using opens_lock [of ?s1 p n k] assms by auto
  let ?s4 = "at_phase p (Locked l) ((at_phase p (Checked l) s2)\<lparr>sk_flock := (sk_flock s2)(l := Some p)\<rparr>)"
  have "fold socket_step (replicate 4 (Advance p False n mode)) s = ?s4"
    unfolding replicate_4 using s2 assms(1,2)
    by (simp add: bind_step_def admitted_here_def lock_exclusive_def)
  moreover have "path_free ?s4" "unused ?s4 k"
    using s2 by (simp_all add: path_free_def unused_def cong: option.case_cong)
  ultimately show ?thesis by simp
qed

lemma serving_stays:
  "serves (sk_phase s p) = Some k \<Longrightarrow>
    serves (sk_phase (fold socket_step (replicate m (Advance p fault n mode)) s) p) = Some k"
proof (induction m arbitrary: s)
  case (Suc m)
  then obtain l i where "sk_phase s p = Serving l k i" using serves_phase by blast
  then have "socket_step (Advance p fault n mode) s = s" by (simp add: bind_step_def)
  with Suc show ?case by (simp del: fold_replicate)
qed simp

lemma binds_when_clear:
  assumes "sk_phase s p = Clear l" "sk_sock_at s = None" "unused s k"
  shows "serves (sk_phase (fold socket_step (replicate 4 (Advance p False k mode)) s) p) = Some k"
  unfolding replicate_4 using assms
  by (simp add: bind_step_def bind_socket_def listen_on_def read_identity_def make_private_def)

lemma at_phase_twice [simp]: "at_phase p x (at_phase p y t) = at_phase p x t"
  by (simp add: at_phase_def)

lemma binds_under_lock:
  assumes "sk_phase s p = Locked l" "path_free s" "unused s k"
  shows "serves (sk_phase (fold socket_step (replicate 8 (Advance p False k mode)) s) p) = Some k"
proof (cases "sk_sock_at s")
  case None
  have "fold socket_step (replicate 8 x) s
      = fold socket_step (replicate 3 x) (fold socket_step (replicate 4 x) (socket_step x s))" for x
    using fold_append [of socket_step "x # replicate 4 x" "replicate 3 x"]
    by (simp add: numeral_eq_Suc del: fold_replicate)
  moreover have "socket_step (Advance p False k mode) s = at_phase p (Clear l) s"
    using assms None by (simp add: bind_step_def inspect_socket_def)
  ultimately show ?thesis
    using binds_when_clear [of "at_phase p (Clear l) s" p l k] assms None serving_stays
    by (simp del: fold_replicate)
next
  case (Some j)
  let ?s4 = "at_phase p (Clear l) ((at_phase p (Confirmed l j) s)\<lparr>sk_sock_at := None\<rparr>)"
  have "fold socket_step (replicate 4 (Advance p False k mode)) s = ?s4"
    unfolding replicate_4 using assms Some
    by (simp add: bind_step_def inspect_socket_def path_free_def probe_socket_def
        connect_refused_def own_socket_def confirm_identity_def remove_stale_def)
  moreover have "unused ?s4 k" using assms by (simp add: unused_def)
  moreover have "replicate 8 x = replicate 4 x @ replicate 4 x" for x :: socket_event
    by (simp add: numeral_eq_Suc)
  ultimately show ?thesis
    using binds_when_clear [of ?s4 p l k] by (simp del: fold_replicate)
qed

text \<open>
  A stale socket is replaced. When the name and the directory pass the checks, nobody holds the
  lock, and the path is free or carries a socket of this uid on which nobody listens (what a killed
  daemon leaves), an attempt whose system calls do not fail serves the name after at most twelve of
  them, on a new socket.
\<close>

lemma stale_socket_is_replaced:
  assumes "sk_phase s p = Start" "admitted_here s" "lock_free s n" "path_free s" "unused s k" "k \<noteq> n"
  shows "serves (sk_phase (fold socket_step
      (replicate 4 (Advance p False n mode) @ replicate 8 (Advance p False k mode)) s) p) = Some k"
proof -
  obtain s' l where "fold socket_step (replicate 4 (Advance p False n mode)) s = s'"
    "sk_phase s' p = Locked l" "path_free s'" "unused s' k"
    using takes_lock [OF assms] by blast
  then show ?thesis using binds_under_lock by (simp del: fold_replicate)
qed

theorem stale_socket_is_replaced_witness:
  "serves (sk_phase (fold socket_step
      (replicate 4 (Advance 1 False 3 493) @ replicate 8 (Advance 1 False 5 493)) demo_sockets) 1) = Some 5"
  by (rule stale_socket_is_replaced)
     (code_simp | simp add: demo_sockets_def)+

end
