(* ===== verification/Socket_Session.thy ===== *)
theory Socket_Session
  imports Jsonl_Client Envelopes
begin

text \<open>
  \<open>shelllist-daemon-tokio/src/socket.rs\<close>, the parts around a connection: the configuration and its
  validation, the owner identity a session is minted with, the session handle that producers of
  events use, the dispatch of one request to the daemon's \<open>LocalJsonlService\<close>, and the accept loop.
  The connection itself is the theory \<open>Socket_Connection\<close>.

  The service is the daemon's, a record of functions: what each of its calls answers. The kernel's
  entropy is the parameter \<open>entropy\<close>, what each \<open>getrandom\<close> would write.
\<close>

section \<open>Configuration\<close>

record socket_config =
  max_connections :: nat
  max_in_flight_requests :: nat
  maximum_request_bytes :: nat
  maximum_response_bytes :: nat
  sc_output_capacity :: nat
  pending_event_limit :: nat
  sc_request_timeout :: nat
  sc_write_timeout :: nat

definition socket_config_default :: socket_config where
  "socket_config_default =
     \<lparr>max_connections = 8, max_in_flight_requests = 64,
      maximum_request_bytes = default_jsonl_request_bytes, maximum_response_bytes = 32 * 1024 * 1024,
      sc_output_capacity = 16, pending_event_limit = 32,
      sc_request_timeout = 30000, sc_write_timeout = 5000\<rparr>"

definition validate_config :: "socket_config \<Rightarrow> ustring + unit" where
  "validate_config c =
     (if \<not> (0 < max_connections c \<and> 0 < max_in_flight_requests c \<and> 0 < sc_output_capacity c)
      then err ''socket capacities must be positive''
      else if \<not> (1 \<le> maximum_request_bytes c \<and> maximum_request_bytes c \<le> max_jsonl_request_bytes)
      then err ''invalid request byte bound''
      else if \<not> (1 \<le> maximum_response_bytes c \<and> maximum_response_bytes c \<le> 64 * 1024 * 1024)
      then err ''invalid response byte bound''
      else if \<not> (sc_request_timeout c \<noteq> 0 \<and> sc_write_timeout c \<noteq> 0)
      then err ''socket deadlines must be positive''
      else ok ())"

section \<open>Owner identities\<close>

datatype entropy_error = EntropyUnavailable | NoEntropy

text \<open>The loop of \<open>new_owner\<close>: \<open>entropy i n\<close> is what the \<open>i\<close>-th call writes into \<open>n\<close> free bytes.\<close>

function fill_entropy ::
  "(nat \<Rightarrow> nat \<Rightarrow> entropy_error + byte list) \<Rightarrow> nat \<Rightarrow> byte list \<Rightarrow> entropy_error + byte list"
where
  "fill_entropy entropy i filled =
     (if 16 \<le> length filled then ok filled
      else
        (case entropy i (16 - length filled) of
           Inl e \<Rightarrow> err e
         | Inr bs \<Rightarrow>
             if bs = [] then err NoEntropy
             else fill_entropy entropy (Suc i) (filled @ take (16 - length filled) bs)))"
  by pat_completeness auto
termination
proof (relation "measure (\<lambda>(entropy, i, filled). 16 - length filled)")
  fix entropy :: "nat \<Rightarrow> nat \<Rightarrow> entropy_error + byte list" and i and filled bs :: "byte list"
  assume "\<not> 16 \<le> length filled" "bs \<noteq> []"
  then have "0 < length bs" "length filled < 16" by simp_all
  then show "((entropy, Suc i, filled @ take (16 - length filled) bs), entropy, i, filled)
      \<in> measure (\<lambda>(entropy, i, filled). 16 - length filled)"
    by (cases bs) (auto simp: min_def)
qed simp

declare fill_entropy.simps [simp del]

definition hex_digit :: "nat \<Rightarrow> char" where
  "hex_digit d = (if d < 10 then char_of (48 + d) else char_of (87 + d))"

text \<open>\<open>{:032x}\<close> of a number of at most 32 hexadecimal digits is \<open>hex_padded 32\<close>.\<close>

fun hex_padded :: "nat \<Rightarrow> nat \<Rightarrow> ustring" where
  "hex_padded 0 n = []"
| "hex_padded (Suc w) n = hex_padded w (n div 16) @ [hex_digit (n mod 16)]"

definition from_le_bytes :: "byte list \<Rightarrow> nat" where
  "from_le_bytes bs = foldr (\<lambda>b acc. of_char b + 256 * acc) bs 0"

definition owner_name :: "byte list \<Rightarrow> 64 word \<Rightarrow> ustring" where
  "owner_name bs n = ''unix:'' @ hex_padded 32 (from_le_bytes bs) @ '':'' @ decimal (unat n)"

text \<open>\<open>NEXT_OWNER\<close> counts the identities minted; it is not touched when there is no entropy.\<close>

definition new_owner ::
  "(nat \<Rightarrow> nat \<Rightarrow> entropy_error + byte list) \<Rightarrow> 64 word \<Rightarrow> (entropy_error + ustring) \<times> 64 word"
where
  "new_owner entropy next_owner =
     (case fill_entropy entropy 0 [] of
        Inl e \<Rightarrow> (err e, next_owner)
      | Inr bs \<Rightarrow> (ok (owner_name bs next_owner), next_owner + 1))"

fun mint_owners :: "(nat \<Rightarrow> nat \<Rightarrow> entropy_error + byte list) list \<Rightarrow> 64 word \<Rightarrow> ustring list" where
  "mint_owners [] n = []"
| "mint_owners (entropy # rest) n =
     (case new_owner entropy n of
        (Inl e, n') \<Rightarrow> mint_owners rest n'
      | (Inr owner, n') \<Rightarrow> owner # mint_owners rest n')"

section \<open>Sessions\<close>

text \<open>The handle of the output actor: two bounded queues, and whether the actor still receives.\<close>

record output_handle =
  oh_open :: bool
  oh_capacity :: nat
  oh_priority :: "output_command list"
  oh_events :: "output_command list"

fun is_event :: "output_command \<Rightarrow> bool" where
  "is_event (Event _ _) = True"
| "is_event _ = False"

text \<open>\<open>send\<close> waits (\<open>None\<close>) while the queue is full, unless the actor has gone.\<close>

definition send_command :: "output_command \<Rightarrow> output_handle \<Rightarrow> (ustring + output_handle) option" where
  "send_command c h =
     (if \<not> oh_open h then Some (err send_failed)
      else if is_event c
      then if length (oh_events h) < oh_capacity h then Some (ok (h\<lparr>oh_events := oh_events h @ [c]\<rparr>)) else None
      else if length (oh_priority h) < oh_capacity h then Some (ok (h\<lparr>oh_priority := oh_priority h @ [c]\<rparr>)) else None)"

definition try_event :: "ustring \<Rightarrow> json \<Rightarrow> output_handle \<Rightarrow> ustring + output_handle" where
  "try_event stream event h =
     (if oh_open h \<and> length (oh_events h) < oh_capacity h
      then ok (h\<lparr>oh_events := oh_events h @ [Event stream event]\<rparr>)
      else err ''admit synchronous daemon event'')"

record socket_session =
  ss_owner :: ustring
  ss_output :: output_handle
  ss_closed :: bool

definition close_session :: "socket_session \<Rightarrow> socket_session" where
  "close_session s = s\<lparr>ss_closed := True\<rparr>"

definition session_closed_text :: ustring where
  "session_closed_text = ''socket session closed''"

definition emit :: "ustring \<Rightarrow> json \<Rightarrow> socket_session \<Rightarrow> ((ustring + unit) \<times> socket_session) option" where
  "emit stream event s =
     (if ss_closed s then Some (err session_closed_text, s)
      else
        (case send_command (Event stream event) (ss_output s) of
           None \<Rightarrow> None
         | Some (Inl e) \<Rightarrow> Some (err e, s)
         | Some (Inr h) \<Rightarrow> Some (ok (), s\<lparr>ss_output := h\<rparr>)))"

definition try_emit :: "ustring \<Rightarrow> json \<Rightarrow> socket_session \<Rightarrow> (ustring + unit) \<times> socket_session" where
  "try_emit stream event s =
     (if ss_closed s then (err session_closed_text, s)
      else
        (case try_event stream event (ss_output s) of
           Inl e \<Rightarrow> (err e, close_session s)
         | Inr h \<Rightarrow> (ok (), s\<lparr>ss_output := h\<rparr>)))"

section \<open>Dispatch\<close>

datatype service_request = ServiceCall ustring json | ServiceSubscribe "ustring list" | ServiceCancel ustring

record service_answers =
  sv_call :: "ustring \<Rightarrow> json \<Rightarrow> ustring + json"
  sv_subscribe :: "ustring list \<Rightarrow> ustring + json"
  sv_cancel :: "ustring \<Rightarrow> ustring + json"
  sv_owned :: "client_route \<Rightarrow> ustring list"
  sv_output_open :: bool

type_synonym dispatched = "service_request list \<times> output_command list \<times> (ustring + json \<times> ustring option)"

fun release_each :: "service_answers \<Rightarrow> nat \<Rightarrow> ustring list \<Rightarrow> dispatched" where
  "release_each sv count [] = ([], [], ok (jobj [(''released'', JNumber (PosInt count))], None))"
| "release_each sv count (i # ids) =
     (case sv_cancel sv i of
        Inl e \<Rightarrow> ([ServiceCancel i], [], err e)
      | Inr response \<Rightarrow>
          if \<not> cancellation_succeeded response then ([ServiceCancel i], [], err ''daemon rejected cancellation'')
          else if \<not> sv_output_open sv then ([ServiceCancel i], [], err send_failed)
          else (case release_each sv count ids of (ds, es, r) \<Rightarrow> (ServiceCancel i # ds, Cancelled i # es, r)))"

definition plain :: "ustring + json \<Rightarrow> ustring + json \<times> ustring option" where
  "plain r = map_sum id (\<lambda>v. (v, None)) r"

definition dispatch_request :: "service_answers \<Rightarrow> bool \<Rightarrow> client_message \<Rightarrow> dispatched" where
  "dispatch_request sv closed m =
     (if closed then ([], [], err ''connection closed before dispatch'')
      else
        (case request m of
           Call rid name params \<Rightarrow> ([ServiceCall name params], [], plain (sv_call sv name params))
         | Subscribe rid streams \<Rightarrow> ([ServiceSubscribe streams], [], plain (sv_subscribe sv streams))
         | Cancel rid target \<Rightarrow>
             ([ServiceCancel target], [],
              map_sum id (\<lambda>v. (v, if cancellation_succeeded v then Some target else None)) (sv_cancel sv target))
         | Release rid \<Rightarrow>
             (case route m of
                None \<Rightarrow> ([], [], err ''release requires routed dispatch'')
              | Some r \<Rightarrow> release_each sv (length (sv_owned sv r)) (sv_owned sv r))
         | Shutdown rid \<Rightarrow> ([], [], ok (jobj [], None))))"

section \<open>The accept loop\<close>

datatype serve_event = ShutdownRequested | AcceptFailed | PeerAccepted "nat option" | ConnectionEnded nat

datatype serve_result = ServeOk | ServeFailed

record 's socket_server =
  srv_uid :: nat
  srv_capacity :: 's
  srv_live :: "(nat \<times> nat) list"
  srv_next :: nat
  srv_result :: "serve_result option"

definition serve_start :: "'s semaphore \<Rightarrow> nat \<Rightarrow> socket_config \<Rightarrow> ustring + 's socket_server" where
  "serve_start sem uid config =
     (case validate_config config of
        Inl e \<Rightarrow> err e
      | Inr _ \<Rightarrow> ok \<lparr>srv_uid = uid, srv_capacity = sem_new sem (max_connections config), srv_live = [],
                      srv_next = 0, srv_result = None\<rparr>)"

text \<open>Once the loop is left (\<open>srv_result\<close>), the connections are told to stop and are waited for.\<close>

fun serve_step :: "'s semaphore \<Rightarrow> serve_event \<Rightarrow> 's socket_server \<Rightarrow> 's socket_server" where
  "serve_step sem ShutdownRequested v = (if srv_result v = None then v\<lparr>srv_result := Some ServeOk\<rparr> else v)"
| "serve_step sem AcceptFailed v = (if srv_result v = None then v\<lparr>srv_result := Some ServeFailed\<rparr> else v)"
| "serve_step sem (PeerAccepted peer) v =
     (if srv_result v \<noteq> None \<or> peer \<noteq> Some (srv_uid v) then v
      else
        (case sem_try_acquire sem (srv_capacity v) of
           None \<Rightarrow> v
         | Some c \<Rightarrow> v\<lparr>srv_capacity := c, srv_live := srv_live v @ [(srv_next v, srv_uid v)],
                       srv_next := Suc (srv_next v)\<rparr>))"
| "serve_step sem (ConnectionEnded i) v =
     (if i \<in> fst ` set (srv_live v)
      then v\<lparr>srv_capacity := sem_release sem (srv_capacity v), srv_live := filter (\<lambda>c. fst c \<noteq> i) (srv_live v)\<rparr>
      else v)"

definition serve_returned :: "'s socket_server \<Rightarrow> serve_result option" where
  "serve_returned v = (if srv_live v = [] then srv_result v else None)"


section \<open>Facts\<close>

lemma validate_config_ok:
  "validate_config c = Inr u \<longleftrightarrow>
     0 < max_connections c \<and> 0 < max_in_flight_requests c \<and> 0 < sc_output_capacity c
     \<and> 1 \<le> maximum_request_bytes c \<and> maximum_request_bytes c \<le> max_jsonl_request_bytes
     \<and> 1 \<le> maximum_response_bytes c \<and> maximum_response_bytes c \<le> 64 * 1024 * 1024
     \<and> 0 < sc_request_timeout c \<and> 0 < sc_write_timeout c"
  by (auto simp: validate_config_def)

lemma default_config_valid: "validate_config socket_config_default = Inr u"
  by (simp add: validate_config_ok socket_config_default_def default_jsonl_request_bytes_def
      max_jsonl_request_bytes_def)

subsection \<open>Identities\<close>

lemma fill_entropy_length:
  "fill_entropy entropy i filled = Inr bs \<Longrightarrow> length filled \<le> 16 \<Longrightarrow> length bs = 16"
proof (induction entropy i filled rule: fill_entropy.induct)
  case (1 entropy i filled)
  show ?case
  proof (cases "16 \<le> length filled")
    case True
    then show ?thesis using 1(2,3) by (simp add: fill_entropy.simps)
  next
    case False
    then obtain got where got: "entropy i (16 - length filled) = Inr got" "got \<noteq> []"
        "fill_entropy entropy (Suc i) (filled @ take (16 - length filled) got) = Inr bs"
      using 1(2) by (auto simp: fill_entropy.simps [of entropy i filled] split: sum.splits if_splits)
    show ?thesis using "1.IH" [OF False got(1,2,3)] False by simp
  qed
qed

lemma length_hex_padded [simp]: "length (hex_padded w n) = w"
  by (induction w arbitrary: n) simp_all

lemma owner_name_counter:
  assumes "owner_name bs n = owner_name cs k" shows "n = k"
proof -
  have "drop 38 (owner_name bs n) = decimal (unat n)" "drop 38 (owner_name cs k) = decimal (unat k)"
    by (simp_all add: owner_name_def)
  with assms show ?thesis by (simp add: decimal_inj word_unat_eq_iff)
qed

lemma mint_owners_Cons:
  "mint_owners (entropy # rest) n =
     (case fill_entropy entropy 0 [] of
        Inl e \<Rightarrow> mint_owners rest n
      | Inr bs \<Rightarrow> owner_name bs n # mint_owners rest (n + 1))"
  by (simp add: new_owner_def split: sum.split)

declare mint_owners.simps(2) [simp del]

lemma minted_counter:
  "owner \<in> set (mint_owners entropies n) \<Longrightarrow>
    \<exists>bs i. owner = owner_name bs (n + of_nat i) \<and> length bs = 16 \<and> i < length entropies"
proof (induction entropies arbitrary: n)
  case (Cons entropy rest)
  show ?case
  proof (cases "fill_entropy entropy 0 []")
    case (Inl e)
    then obtain bs i where "owner = owner_name bs (n + of_nat i)" "length bs = 16" "i < length rest"
      using Cons.IH [of n] Cons.prems by (auto simp: mint_owners_Cons)
    then have "owner = owner_name bs (n + of_nat i) \<and> length bs = 16 \<and> i < length (entropy # rest)" by simp
    then show ?thesis by blast
  next
    case (Inr bs)
    then consider "owner = owner_name bs n" | "owner \<in> set (mint_owners rest (n + 1))"
      using Cons.prems by (auto simp: mint_owners_Cons)
    then show ?thesis
    proof cases
      case 1
      then have "owner = owner_name bs (n + of_nat 0) \<and> length bs = 16 \<and> 0 < length (entropy # rest)"
        using fill_entropy_length [OF Inr] by simp
      then show ?thesis by blast
    next
      case 2
      then obtain cs i where "owner = owner_name cs (n + 1 + of_nat i)" "length cs = 16" "i < length rest"
        using Cons.IH by blast
      then have "owner = owner_name cs (n + of_nat (Suc i)) \<and> length cs = 16 \<and> Suc i < length (entropy # rest)"
        by (simp add: add.assoc)
      then show ?thesis by blast
    qed
  qed
qed simp

lemma counter_step_nonzero: "i < 2 ^ 64 - 1 \<Longrightarrow> (1 :: 64 word) + of_nat i \<noteq> 0"
proof
  assume i: "i < 2 ^ 64 - 1" and "(1 :: 64 word) + of_nat i = 0"
  then have "(of_nat (Suc i) :: 64 word) = of_nat 0" by simp
  then have "take_bit 64 (Suc i) = take_bit 64 0" by (simp only: word_of_nat_eq_iff) simp
  then have "take_bit 64 (Suc i) = 0" by (simp only: take_bit_of_0)
  moreover have "Suc i < 2 ^ 64" using i by linarith
  ultimately show False by (simp only: take_bit_nat_eq_self)
qed

text \<open>
  Owner identities cannot be confused. The identities minted for the connections of a daemon are
  pairwise different whatever the kernel's entropy returns, for as many as \<open>2 ^ 64\<close> attempts; each one
  carries sixteen bytes of entropy or is not minted at all; and none is a unique name of D-Bus, which
  starts with a colon.
\<close>

lemma socket_owners_distinct:
  assumes "length entropies \<le> 2 ^ 64"
  shows "distinct (mint_owners entropies n)
    \<and> (\<forall>owner \<in> set (mint_owners entropies n).
         hd owner \<noteq> CHR '':'' \<and> (\<exists>bs c. length bs = 16 \<and> owner = owner_name bs c))"
proof -
  have distinct: "distinct (mint_owners entropies n)"
    using assms
  proof (induction entropies arbitrary: n)
    case (Cons entropy rest)
    show ?case
    proof (cases "fill_entropy entropy 0 []")
      case (Inl e)
      then show ?thesis using Cons by (simp add: mint_owners_Cons)
    next
      case (Inr bs)
      have "owner_name bs n \<notin> set (mint_owners rest (n + 1))"
      proof
        assume "owner_name bs n \<in> set (mint_owners rest (n + 1))"
        then obtain cs i where i: "owner_name bs n = owner_name cs (n + 1 + of_nat i)" "i < length rest"
          using minted_counter by blast
        then have "n + 0 = n + (1 + of_nat i)" using owner_name_counter [OF i(1)] by (simp add: add.assoc)
        then have "1 + of_nat i = (0 :: 64 word)" by (simp only: add_left_cancel)
        moreover have "i < 2 ^ 64 - 1" using i(2) Cons.prems by simp
        ultimately show False using counter_step_nonzero by blast
      qed
      then show ?thesis using Cons Inr by (simp add: mint_owners_Cons)
    qed
  qed simp
  have "hd (owner_name bs c) \<noteq> CHR '':''" for bs c by (simp add: owner_name_def)
  then show ?thesis using distinct minted_counter by blast
qed

theorem socket_owners_distinct_witness:
  "distinct (mint_owners [\<lambda>i n. Inr (replicate n (CHR ''a'')), \<lambda>i n. Inl EntropyUnavailable,
      \<lambda>i n. Inr [CHR ''a'']] (- 1))"
  using socket_owners_distinct [of "[\<lambda>i n. Inr (replicate n (CHR ''a'')), \<lambda>i n. Inl EntropyUnavailable,
      \<lambda>i n. Inr [CHR ''a'']]" "- 1"] by simp

subsection \<open>Events\<close>

text \<open>A producer's events, and the actor taking them off the queue, delivering them in order.\<close>

datatype session_op = TryEmit ustring json | ActorTakes | OutputGone | CloseSession

fun session_step :: "session_op \<Rightarrow> socket_session \<times> output_command list \<Rightarrow> socket_session \<times> output_command list" where
  "session_step (TryEmit stream event) (s, got) = (snd (try_emit stream event s), got)"
| "session_step ActorTakes (s, got) =
     (case oh_events (ss_output s) of
        [] \<Rightarrow> (s, got)
      | c # cs \<Rightarrow> (s\<lparr>ss_output := (ss_output s)\<lparr>oh_events := cs\<rparr>\<rparr>, got @ [c]))"
| "session_step OutputGone (s, got) = (s\<lparr>ss_output := (ss_output s)\<lparr>oh_open := False\<rparr>\<rparr>, got)"
| "session_step CloseSession (s, got) = (close_session s, got)"

fun attempts :: "session_op list \<Rightarrow> output_command list" where
  "attempts [] = []"
| "attempts (TryEmit stream event # ops) = Event stream event # attempts ops"
| "attempts (_ # ops) = attempts ops"

lemma attempts_append [simp]: "attempts (xs @ ys) = attempts xs @ attempts ys"
  by (induction xs rule: attempts.induct) simp_all

lemma session_prefix:
  "fold session_step ops (s0, []) = (s, got) \<Longrightarrow> oh_events (ss_output s0) = [] \<Longrightarrow>
    (\<exists>rest. attempts ops = got @ oh_events (ss_output s) @ rest \<and> (rest \<noteq> [] \<longrightarrow> ss_closed s))
    \<and> length (oh_events (ss_output s)) \<le> oh_capacity (ss_output s)"
proof (induction ops arbitrary: s got rule: rev_induct)
  case (snoc op ops)
  obtain t got1 where t: "fold session_step ops (s0, []) = (t, got1)" by fastforce
  obtain rest where IH: "attempts ops = got1 @ oh_events (ss_output t) @ rest" "rest \<noteq> [] \<longrightarrow> ss_closed t"
      "length (oh_events (ss_output t)) \<le> oh_capacity (ss_output t)"
    using snoc.IH [OF t snoc.prems(2)] by blast
  have st: "session_step op (t, got1) = (s, got)" using snoc.prems(1) t by simp
  show ?case
  proof (cases op)
    case (TryEmit stream event)
    with st IH show ?thesis
      by (cases "ss_closed t") (auto simp: try_emit_def try_event_def close_session_def split: if_splits)
  next
    case ActorTakes
    with st IH show ?thesis by (cases "oh_events (ss_output t)") auto
  qed (use st IH in \<open>auto simp: close_session_def\<close>)
qed auto

text \<open>
  C20. A producer that cannot wait never leaves a gap. Whatever the actor takes in between, and whether
  the queue fills, the output goes away or the session is closed: what has been delivered, followed by
  what waits in the queue, is an initial part of the events the producer attempted, in order. The part
  is proper only when the session is closed, and then nothing more is ever accepted. The queue stays
  within its capacity.
\<close>

theorem events_have_no_gap:
  assumes "fold session_step ops (s0, []) = (s, got)" and "oh_events (ss_output s0) = []"
  shows "(\<exists>rest. attempts ops = got @ oh_events (ss_output s) @ rest \<and> (rest \<noteq> [] \<longrightarrow> ss_closed s))
    \<and> length (oh_events (ss_output s)) \<le> oh_capacity (ss_output s)
    \<and> (ss_closed s \<longrightarrow>
         try_emit stream event s = (Inl session_closed_text, s) \<and> emit stream event s = Some (Inl session_closed_text, s))"
  using session_prefix [OF assms] by (simp add: try_emit_def emit_def)

definition demo_session :: socket_session where
  "demo_session =
     \<lparr>ss_owner = ''unix:0:1'',
      ss_output = \<lparr>oh_open = True, oh_capacity = 1, oh_priority = [], oh_events = []\<rparr>, ss_closed = False\<rparr>"

definition demo_ops :: "session_op list" where
  "demo_ops = [TryEmit ''s'' (JBool True), ActorTakes, TryEmit ''s'' (JBool False), TryEmit ''s'' JNull,
     ActorTakes, TryEmit ''s'' JNull]"

lemma demo_ops_run:
  "fold session_step demo_ops (demo_session, []) =
     (demo_session\<lparr>ss_closed := True\<rparr>, [Event ''s'' (JBool True), Event ''s'' (JBool False)])"
  by (simp add: demo_ops_def demo_session_def try_emit_def try_event_def close_session_def)

theorem events_have_no_gap_witness:
  "try_emit ''s'' JNull (demo_session\<lparr>ss_closed := True\<rparr>)
     = (Inl session_closed_text, demo_session\<lparr>ss_closed := True\<rparr>)"
  using events_have_no_gap [OF demo_ops_run, of "''s''" JNull] by (simp add: demo_session_def)

subsection \<open>The accept loop\<close>

definition server_inv :: "'s semaphore \<Rightarrow> nat \<Rightarrow> nat \<Rightarrow> 's socket_server \<Rightarrow> bool" where
  "server_inv sem bound uid v \<longleftrightarrow>
     semaphore_laws sem \<and> srv_uid v = uid
     \<and> sem_available sem (srv_capacity v) + length (srv_live v) = bound
     \<and> distinct (map fst (srv_live v)) \<and> (\<forall>c \<in> set (srv_live v). fst c < srv_next v \<and> snd c = uid)"

lemma filter_one_key:
  "distinct (map fst xs) \<Longrightarrow> i \<in> fst ` set xs \<Longrightarrow> Suc (length (filter (\<lambda>c. fst c \<noteq> i) xs)) = length xs"
proof (induction xs)
  case (Cons x xs)
  show ?case
  proof (cases "fst x = i")
    case True
    then have "i \<notin> fst ` set xs" using Cons.prems(1) by simp
    then have "\<forall>c \<in> set xs. fst c \<noteq> i" by blast
    then have "filter (\<lambda>c. fst c \<noteq> i) xs = xs" by (simp add: filter_id_conv)
    with True show ?thesis by simp
  next
    case False
    with Cons show ?thesis by auto
  qed
qed simp

lemma serve_step_inv: "server_inv sem bound uid v \<Longrightarrow> server_inv sem bound uid (serve_step sem ev v)"
proof (cases ev)
  case (PeerAccepted peer)
  assume inv: "server_inv sem bound uid v"
  have acq: "case sem_try_acquire sem (srv_capacity v) of
      None \<Rightarrow> sem_available sem (srv_capacity v) = 0
    | Some s' \<Rightarrow> sem_available sem (srv_capacity v) = Suc (sem_available sem s')"
    using inv by (simp add: server_inv_def semaphore_laws_def)
  show ?thesis
    using inv PeerAccepted acq
    by (cases "sem_try_acquire sem (srv_capacity v)") (auto simp: server_inv_def)
next
  case (ConnectionEnded i)
  assume inv: "server_inv sem bound uid v"
  have rel: "sem_available sem (sem_release sem (srv_capacity v)) = Suc (sem_available sem (srv_capacity v))"
    using inv by (simp add: server_inv_def semaphore_laws_def)
  have "distinct (map fst (filter (\<lambda>c. fst c \<noteq> i) (srv_live v)))"
    using inv by (simp add: server_inv_def distinct_map_filter)
  then show ?thesis
  proof (cases "i \<in> fst ` set (srv_live v)")
    case True
    have "Suc (length (filter (\<lambda>c. fst c \<noteq> i) (srv_live v))) = length (srv_live v)"
      using filter_one_key [OF _ True] inv by (simp add: server_inv_def)
    with \<open>distinct _\<close> show ?thesis using inv ConnectionEnded rel True by (simp add: server_inv_def)
  next
    case False
    with inv ConnectionEnded show ?thesis by simp
  qed
qed (auto simp: server_inv_def)

interpretation server: step_invariant "serve_step sem" "server_inv sem bound uid" for sem bound uid
  by unfold_locales (rule serve_step_inv)

lemma serve_start_inv:
  assumes "semaphore_laws sem" "serve_start sem uid config = Inr v"
  shows "server_inv sem (max_connections config) uid v"
  using assms by (auto simp: serve_start_def server_inv_def semaphore_laws_def split: sum.splits)

lemma serve_left:
  "srv_result v \<noteq> None \<Longrightarrow>
    srv_result (serve_step sem ev v) = srv_result v \<and> set (srv_live (serve_step sem ev v)) \<subseteq> set (srv_live v)"
  by (cases ev) auto

text \<open>
  The listener admits its own user only, and no more than it has room for. With any order of
  accepts, ends of connections, failures and the shutdown: every live connection's peer has the
  listener's uid, at most \<open>max_connections\<close> are live, and a permit is free for each one that is not;
  once the loop has been left no connection is added; and \<open>serve\<close> returns only when none is live.
\<close>

lemma server_admits_own_user:
  assumes "semaphore_laws sem" "serve_start sem uid config = Inr v0"
  shows "(let v = fold (serve_step sem) evs v0 in
    (\<forall>c \<in> set (srv_live v). snd c = uid)
    \<and> length (srv_live v) + sem_available sem (srv_capacity v) = max_connections config
    \<and> (srv_result v \<noteq> None \<longrightarrow> set (srv_live (serve_step sem ev v)) \<subseteq> set (srv_live v))
    \<and> (serve_returned v \<noteq> None \<longrightarrow> srv_live v = []))"
proof -
  have "server_inv sem (max_connections config) uid (fold (serve_step sem) evs v0)"
    by (rule server.run_inv [OF serve_start_inv [OF assms]])
  then show ?thesis
    using serve_left [of "fold (serve_step sem) evs v0" sem ev]
    by (auto simp: Let_def server_inv_def serve_returned_def simp del: serve_step.simps split: if_splits)
qed

lemma demo_server:
  "serve_start nat_semaphore 1000 (socket_config_default\<lparr>max_connections := 1\<rparr>)
     = Inr \<lparr>srv_uid = 1000, srv_capacity = 1, srv_live = [], srv_next = 0, srv_result = None\<rparr>"
  by (simp add: serve_start_def validate_config_def socket_config_default_def default_jsonl_request_bytes_def
      max_jsonl_request_bytes_def nat_semaphore_def)

theorem server_admits_own_user_witness:
  "length (srv_live (fold (serve_step nat_semaphore)
      [PeerAccepted (Some 0), PeerAccepted (Some 1000), PeerAccepted (Some 1000), PeerAccepted None, ShutdownRequested]
      \<lparr>srv_uid = 1000, srv_capacity = 1, srv_live = [], srv_next = 0, srv_result = None\<rparr>)) = 1"
proof -
  let ?v = "fold (serve_step nat_semaphore)
      [PeerAccepted (Some 0), PeerAccepted (Some 1000), PeerAccepted (Some 1000), PeerAccepted None, ShutdownRequested]
      \<lparr>srv_uid = 1000, srv_capacity = 1, srv_live = [], srv_next = 0, srv_result = None\<rparr>"
  have free: "sem_available nat_semaphore (srv_capacity ?v) = 0" by code_simp
  have "length (srv_live ?v) + sem_available nat_semaphore (srv_capacity ?v)
      = max_connections (socket_config_default\<lparr>max_connections := 1\<rparr>)"
    by (rule server_admits_own_user [OF nat_semaphore_laws demo_server, unfolded Let_def,
          THEN conjunct2, THEN conjunct1])
  moreover have "max_connections (socket_config_default\<lparr>max_connections := 1\<rparr>) = 1" by simp
  ultimately show ?thesis unfolding free by (simp only: add_0_right)
qed

end
