(* ===== verification/Socket_Connection.thy ===== *)
theory Socket_Connection
  imports Socket_Session
begin

text \<open>
  \<open>shelllist-daemon-tokio/src/socket.rs\<close>: one connection. A reading loop admits requests; each admitted
  request gets a waiter task, which spawns the work itself, waits for it up to the request deadline and
  answers the client; the work runs detached from its waiter, so a deadline or a lost connection never
  aborts it. The connection ends by closing the session, aborting the waiters and telling the service
  that the owner is gone; a work that finishes later tells it again.

  The tasks interleave: an event of the machine is one step of one task, up to its next await, with
  what its environment answers. \<open>cn_sent\<close> holds the commands accepted by the output queue, those a
  waiter sent marked with the number of its work; \<open>cn_trace\<close> holds what the service experienced.
\<close>

section \<open>The connection\<close>

datatype work_phase = Unlaunched | Queued | Running | Returned | Cleaning | Gone

datatype waiter = Awaiting | Answered | Aborted

record work =
  wk_message :: client_message
  wk_phase :: work_phase
  wk_waiter :: waiter
  wk_result :: "(ustring + json \<times> ustring option) option"

datatype connection_phase = Reading | Draining ustring | Leaving | Aborting | Disconnecting | Over

datatype service_event = Effect nat "service_request list" | Disconnected

record 's connection =
  cn_slots :: "'s request_slots"
  cn_works :: "work list"
  cn_closed :: bool
  cn_phase :: connection_phase
  cn_open :: bool
  cn_sent :: "(nat option \<times> output_command) list"
  cn_trace :: "service_event list"
  cn_guard :: bool

definition connection_new :: "'s semaphore \<Rightarrow> socket_config \<Rightarrow> 's connection" where
  "connection_new sem config =
     \<lparr>cn_slots = slots_new sem (max_in_flight_requests config), cn_works = [], cn_closed = False,
      cn_phase = Reading, cn_open = True, cn_sent = [], cn_trace = [], cn_guard = False\<rparr>"

section \<open>Reading\<close>

text \<open>A command sent with \<open>?\<close>: when the output has gone, the reading loop ends.\<close>

definition send_or_leave :: "output_command \<Rightarrow> 's connection \<Rightarrow> 's connection" where
  "send_or_leave cmd c =
     (if cn_open c then c\<lparr>cn_sent := cn_sent c @ [(None, cmd)]\<rparr> else c\<lparr>cn_phase := Leaving\<rparr>)"

definition capacity_text :: ustring where
  "capacity_text = ''socket request capacity exceeded; request was not dispatched''"

definition admit_request :: "'s semaphore \<Rightarrow> client_message \<Rightarrow> 's connection \<Rightarrow> 's connection" where
  "admit_request sem m c =
     (case acquire_slot sem (request m) (cn_slots c) of
        None \<Rightarrow>
          send_or_leave (RequestError (req_id (request m)) ''rejected-before-dispatch'' capacity_text (route m)) c
      | Some s \<Rightarrow>
          c\<lparr>cn_slots := s,
            cn_works := cn_works c @
              [\<lparr>wk_message = m, wk_phase = Unlaunched, wk_waiter = Awaiting, wk_result = None\<rparr>]\<rparr>)"

definition read_frame ::
  "'s semaphore \<Rightarrow> (ustring \<Rightarrow> ustring + client_message) \<Rightarrow> nat \<Rightarrow> next_result \<Rightarrow> 's connection \<Rightarrow> 's connection"
where
  "read_frame sem parse byte_limit f c =
     (case f of
        Got TooLarge \<Rightarrow>
          send_or_leave (ProtocolError (''JSONL request exceeds '' @ decimal byte_limit @ '' bytes'')) c
      | Got (Line l) \<Rightarrow>
          (case parse_request parse l of
             Skip \<Rightarrow> c
           | Malformed e \<Rightarrow> send_or_leave (ProtocolError e) c
           | Parsed m \<Rightarrow>
               (case request m of
                  Shutdown rid \<Rightarrow> c\<lparr>cn_phase := Draining rid\<rparr>
                | _ \<Rightarrow> admit_request sem m c))
      | _ \<Rightarrow> c\<lparr>cn_phase := Leaving\<rparr>)"

text \<open>After a shutdown request, once every waiter has ended.\<close>

definition drain_done :: "ustring \<Rightarrow> 's connection \<Rightarrow> 's connection" where
  "drain_done rid c =
     (if \<forall>w \<in> set (cn_works c). wk_waiter w \<noteq> Awaiting
      then (send_or_leave (OutShutdown rid) c)\<lparr>cn_phase := Leaving\<rparr>
      else c)"

section \<open>A request's waiter and its work\<close>

definition update_work :: "nat \<Rightarrow> (work \<Rightarrow> work) \<Rightarrow> 's connection \<Rightarrow> 's connection" where
  "update_work k f c = c\<lparr>cn_works := (cn_works c)[k := f (cn_works c ! k)]\<rparr>"

definition begin_work :: "nat \<Rightarrow> 's connection \<Rightarrow> 's connection" where
  "begin_work k c =
     (if cn_closed c
      then update_work k (\<lambda>w. w\<lparr>wk_phase := Returned,
             wk_result := Some (err ''connection closed before dispatch'')\<rparr>) c
      else update_work k (\<lambda>w. w\<lparr>wk_phase := Running\<rparr>) c)"

definition work_effect :: "nat \<Rightarrow> service_answers \<Rightarrow> 's connection \<Rightarrow> 's connection" where
  "work_effect k sv c =
     (case dispatch_request sv False (wk_message (cn_works c ! k)) of
        (reqs, cmds, r) \<Rightarrow>
          update_work k (\<lambda>w. w\<lparr>wk_phase := Returned, wk_result := Some r\<rparr>)
            (c\<lparr>cn_trace := cn_trace c @ [Effect k reqs], cn_sent := cn_sent c @ map (Pair None) cmds\<rparr>))"

definition finish_work :: "'s semaphore \<Rightarrow> nat \<Rightarrow> 's connection \<Rightarrow> 's connection" where
  "finish_work sem k c =
     update_work k (\<lambda>w. w\<lparr>wk_phase := Gone\<rparr>)
       (c\<lparr>cn_slots := release_slot sem (request (wk_message (cn_works c ! k))) (cn_slots c)\<rparr>)"

definition check_closed :: "'s semaphore \<Rightarrow> nat \<Rightarrow> 's connection \<Rightarrow> 's connection" where
  "check_closed sem k c =
     (if cn_closed c then update_work k (\<lambda>w. w\<lparr>wk_phase := Cleaning\<rparr>) c else finish_work sem k c)"

definition late_cleanup :: "'s semaphore \<Rightarrow> nat \<Rightarrow> 's connection \<Rightarrow> 's connection" where
  "late_cleanup sem k c = finish_work sem k (c\<lparr>cn_trace := cn_trace c @ [Disconnected]\<rparr>)"

definition unknown_text :: ustring where
  "unknown_text = ''socket request reply unavailable; reconcile state, never replay effects''"

fun reply_command :: "client_message \<Rightarrow> (ustring + json \<times> ustring option) option \<Rightarrow> output_command" where
  "reply_command m (Some (Inr (v, cancelled_id))) =
     response_command (req_id (request m)) (Inr v) cancelled_id (route m)"
| "reply_command m _ = RequestError (req_id (request m)) ''outcome-unknown'' unknown_text (route m)"

fun succeeded :: "(ustring + json \<times> ustring option) option \<Rightarrow> bool" where
  "succeeded (Some (Inr _)) = True"
| "succeeded _ = False"

fun is_call :: "client_request \<Rightarrow> bool" where
  "is_call (Call _ _ _) = True"
| "is_call _ = False"

definition answer_request :: "nat \<Rightarrow> (ustring + json \<times> ustring option) option \<Rightarrow> 's connection \<Rightarrow> 's connection" where
  "answer_request k r c =
     (let m = wk_message (cn_works c ! k)
      in update_work k (\<lambda>w. w\<lparr>wk_waiter := Answered\<rparr>)
           (c\<lparr>cn_closed := (cn_closed c \<or> (\<not> succeeded r \<and> \<not> is_call (request m))),
              cn_sent := cn_sent c @ (if cn_open c then [(Some k, reply_command m r)] else [])\<rparr>))"

section \<open>Ending\<close>

fun abort_waiter :: "work \<Rightarrow> work" where
  "abort_waiter w =
     (if wk_waiter w = Awaiting
      then w\<lparr>wk_waiter := Aborted, wk_phase := (if wk_phase w = Unlaunched then Gone else wk_phase w)\<rparr>
      else w)"

definition release_unlaunched :: "'s semaphore \<Rightarrow> work list \<Rightarrow> 's request_slots \<Rightarrow> 's request_slots" where
  "release_unlaunched sem ws slots =
     fold (\<lambda>w s. if wk_waiter w = Awaiting \<and> wk_phase w = Unlaunched
                 then release_slot sem (request (wk_message w)) s else s) ws slots"

text \<open>\<open>JoinSet::shutdown\<close>, and its drop: the waiters end; a work they have not spawned never starts.\<close>

definition abort_waiters :: "'s semaphore \<Rightarrow> 's connection \<Rightarrow> 's connection" where
  "abort_waiters sem c =
     c\<lparr>cn_slots := release_unlaunched sem (cn_works c) (cn_slots c), cn_works := map abort_waiter (cn_works c)\<rparr>"

definition close_step :: "'s semaphore \<Rightarrow> 's connection \<Rightarrow> 's connection" where
  "close_step sem c =
     (case cn_phase c of
        Leaving \<Rightarrow> c\<lparr>cn_closed := True, cn_phase := Aborting\<rparr>
      | Aborting \<Rightarrow> (abort_waiters sem c)\<lparr>cn_phase := Disconnecting\<rparr>
      | Disconnecting \<Rightarrow> c\<lparr>cn_trace := cn_trace c @ [Disconnected], cn_open := False, cn_phase := Over\<rparr>
      | _ \<Rightarrow> c)"

text \<open>The connection's task is dropped: \<open>DisconnectGuard\<close> closes the session and spawns the clean-up.\<close>

definition drop_connection :: "'s semaphore \<Rightarrow> 's connection \<Rightarrow> 's connection" where
  "drop_connection sem c =
     (if cn_phase c = Over then c
      else (abort_waiters sem c)\<lparr>cn_closed := True, cn_open := False, cn_guard := True, cn_phase := Over\<rparr>)"

definition guard_runs :: "'s connection \<Rightarrow> 's connection" where
  "guard_runs c = (if cn_guard c then c\<lparr>cn_trace := cn_trace c @ [Disconnected], cn_guard := False\<rparr> else c)"

section \<open>The machine\<close>

datatype connection_event =
    FrameRead next_result
  | DrainDone
  | Launch nat
  | BeginWork nat
  | WorkEffect nat service_answers
  | CheckClosed nat
  | LateCleanup nat
  | Reply nat
  | DeadlinePasses nat
  | EventSent ustring json
  | SessionRetired
  | OutputEnds
  | Leave
  | CloseStep
  | DropConnection
  | GuardRuns

definition work_in :: "nat \<Rightarrow> work_phase \<Rightarrow> 's connection \<Rightarrow> bool" where
  "work_in k ph c \<longleftrightarrow> k < length (cn_works c) \<and> wk_phase (cn_works c ! k) = ph"

definition awaited :: "nat \<Rightarrow> 's connection \<Rightarrow> bool" where
  "awaited k c \<longleftrightarrow> k < length (cn_works c) \<and> wk_waiter (cn_works c ! k) = Awaiting"

fun draining :: "connection_phase \<Rightarrow> ustring option" where
  "draining (Draining rid) = Some rid"
| "draining _ = None"

fun connection_step ::
  "'s semaphore \<Rightarrow> (ustring \<Rightarrow> ustring + client_message) \<Rightarrow> nat \<Rightarrow> connection_event \<Rightarrow> 's connection \<Rightarrow> 's connection"
where
  "connection_step sem parse byte_limit (FrameRead f) c =
     (if cn_phase c = Reading then read_frame sem parse byte_limit f c else c)"
| "connection_step sem parse byte_limit DrainDone c =
     (case draining (cn_phase c) of None \<Rightarrow> c | Some rid \<Rightarrow> drain_done rid c)"
| "connection_step sem parse byte_limit (Launch k) c =
     (if awaited k c \<and> work_in k Unlaunched c then update_work k (\<lambda>w. w\<lparr>wk_phase := Queued\<rparr>) c else c)"
| "connection_step sem parse byte_limit (BeginWork k) c = (if work_in k Queued c then begin_work k c else c)"
| "connection_step sem parse byte_limit (WorkEffect k sv) c =
     (if work_in k Running c then work_effect k sv c else c)"
| "connection_step sem parse byte_limit (CheckClosed k) c =
     (if work_in k Returned c then check_closed sem k c else c)"
| "connection_step sem parse byte_limit (LateCleanup k) c =
     (if work_in k Cleaning c then late_cleanup sem k c else c)"
| "connection_step sem parse byte_limit (Reply k) c =
     (if awaited k c \<and> work_in k Gone c then answer_request k (wk_result (cn_works c ! k)) c else c)"
| "connection_step sem parse byte_limit (DeadlinePasses k) c =
     (if awaited k c \<and> \<not> work_in k Unlaunched c \<and> \<not> work_in k Gone c then answer_request k None c else c)"
| "connection_step sem parse byte_limit (EventSent stream event) c =
     (if cn_open c then c\<lparr>cn_sent := cn_sent c @ [(None, Event stream event)]\<rparr> else c)"
| "connection_step sem parse byte_limit SessionRetired c = c\<lparr>cn_closed := True\<rparr>"
| "connection_step sem parse byte_limit OutputEnds c = c\<lparr>cn_open := False\<rparr>"
| "connection_step sem parse byte_limit Leave c =
     (if cn_phase c = Reading \<or> draining (cn_phase c) \<noteq> None then c\<lparr>cn_phase := Leaving\<rparr> else c)"
| "connection_step sem parse byte_limit CloseStep c = close_step sem c"
| "connection_step sem parse byte_limit DropConnection c = drop_connection sem c"
| "connection_step sem parse byte_limit GuardRuns c = guard_runs c"


section \<open>Slots\<close>

definition lane_slots :: "'s semaphore \<Rightarrow> lane \<Rightarrow> 's request_slots \<Rightarrow> nat" where
  "lane_slots sem l slots =
     sem_available sem (case l of CallLane \<Rightarrow> rs_calls slots | ControlLane \<Rightarrow> rs_controls slots)"

definition holds_slot :: "lane \<Rightarrow> work \<Rightarrow> bool" where
  "holds_slot l w \<longleftrightarrow> wk_phase w \<noteq> Gone \<and> slot_lane (request (wk_message w)) = l"

definition in_flight :: "lane \<Rightarrow> work list \<Rightarrow> nat" where
  "in_flight l ws = length (filter (holds_slot l) ws)"

lemma in_flight_append [simp]: "in_flight l (xs @ ys) = in_flight l xs + in_flight l ys"
  by (simp add: in_flight_def)

lemma in_flight_Cons: "in_flight l (w # ws) = of_bool (holds_slot l w) + in_flight l ws"
  by (simp add: in_flight_def)

lemma in_flight_Nil [simp]: "in_flight l [] = 0"
  by (simp add: in_flight_def)

lemma in_flight_update:
  assumes "k < length ws"
  shows "in_flight l (ws[k := w]) + of_bool (holds_slot l (ws ! k)) = in_flight l ws + of_bool (holds_slot l w)"
proof -
  have "in_flight l ws = in_flight l (take k ws @ ws ! k # drop (Suc k) ws)"
    using assms by (simp add: id_take_nth_drop [symmetric])
  moreover have "in_flight l (ws[k := w]) = in_flight l (take k ws @ w # drop (Suc k) ws)"
    using assms by (simp add: upd_conv_take_nth_drop)
  ultimately show ?thesis by (simp add: in_flight_Cons)
qed

lemma in_flight_same:
  assumes "k < length ws" "holds_slot l w = holds_slot l (ws ! k)"
  shows "in_flight l (ws[k := w]) = in_flight l ws"
  using in_flight_update [OF assms(1), of l w] assms(2) by simp

lemma lane_slots_release:
  "semaphore_laws sem \<Longrightarrow>
    lane_slots sem l (release_slot sem req slots) = lane_slots sem l slots + of_bool (slot_lane req = l)"
  by (cases l; cases "slot_lane req") (simp_all add: lane_slots_def release_slot_def semaphore_laws_def)

lemma lane_slots_acquire:
  assumes "semaphore_laws sem" "acquire_slot sem req slots = Some slots'"
  shows "lane_slots sem l slots = lane_slots sem l slots' + of_bool (slot_lane req = l)"
proof -
  have acq: "\<And>s s'. sem_try_acquire sem s = Some s' \<Longrightarrow> sem_available sem s = Suc (sem_available sem s')"
  proof -
    have "\<forall>s. case sem_try_acquire sem s of None \<Rightarrow> sem_available sem s = 0
        | Some s' \<Rightarrow> sem_available sem s = Suc (sem_available sem s')"
      using assms(1) by (simp add: semaphore_laws_def)
    then show "sem_available sem s = Suc (sem_available sem s')" if "sem_try_acquire sem s = Some s'" for s s'
      using that by (metis option.simps(5))
  qed
  show ?thesis
  proof (cases "slot_lane req")
    case CallLane
    then obtain s where s: "sem_try_acquire sem (rs_calls slots) = Some s" "slots' = slots\<lparr>rs_calls := s\<rparr>"
      using assms(2) by (auto simp: acquire_slot_def)
    then show ?thesis using CallLane acq [OF s(1)] by (cases l) (simp_all add: lane_slots_def)
  next
    case ControlLane
    then obtain s where s: "sem_try_acquire sem (rs_controls slots) = Some s" "slots' = slots\<lparr>rs_controls := s\<rparr>"
      using assms(2) by (auto simp: acquire_slot_def)
    then show ?thesis using ControlLane acq [OF s(1)] by (cases l) (simp_all add: lane_slots_def)
  qed
qed

lemma release_unlaunched_counts:
  assumes "semaphore_laws sem"
  shows "lane_slots sem l (release_unlaunched sem ws slots) + in_flight l (map abort_waiter ws)
    = lane_slots sem l slots + in_flight l ws"
  unfolding release_unlaunched_def
proof (induction ws arbitrary: slots)
  case (Cons w ws)
  then show ?case
    by (cases "wk_waiter w = Awaiting \<and> wk_phase w = Unlaunched")
       (auto simp: in_flight_Cons holds_slot_def lane_slots_release [OF assms])
qed simp

definition slots_inv :: "'s semaphore \<Rightarrow> nat \<Rightarrow> 's connection \<Rightarrow> bool" where
  "slots_inv sem bound c \<longleftrightarrow>
     (\<forall>l. lane_slots sem l (cn_slots c) + in_flight l (cn_works c)
        = (case l of CallLane \<Rightarrow> bound | ControlLane \<Rightarrow> control_capacity))"

lemma slots_inv_frame:
  "cn_slots c' = cn_slots c \<Longrightarrow> cn_works c' = cn_works c \<Longrightarrow> slots_inv sem bound c \<Longrightarrow> slots_inv sem bound c'"
  by (simp add: slots_inv_def)

lemma slots_inv_update:
  assumes "slots_inv sem bound c" "k < length (cn_works c)"
    and "wk_phase (f (cn_works c ! k)) \<noteq> Gone" "wk_phase (cn_works c ! k) \<noteq> Gone"
    and "wk_message (f (cn_works c ! k)) = wk_message (cn_works c ! k)"
  shows "slots_inv sem bound (update_work k f c)"
  using assms by (simp add: slots_inv_def update_work_def in_flight_same holds_slot_def)

lemma slots_inv_phase:
  assumes "slots_inv sem bound c" "k < length (cn_works c)"
    and "wk_phase (f (cn_works c ! k)) = wk_phase (cn_works c ! k)"
    and "wk_message (f (cn_works c ! k)) = wk_message (cn_works c ! k)"
  shows "slots_inv sem bound (update_work k f c)"
  using assms by (simp add: slots_inv_def update_work_def in_flight_same holds_slot_def)

lemma slots_inv_finish:
  assumes "semaphore_laws sem" "slots_inv sem bound c" "k < length (cn_works c)"
    and "wk_phase (cn_works c ! k) \<noteq> Gone"
  shows "slots_inv sem bound (finish_work sem k c)"
  unfolding slots_inv_def
proof
  fix l
  let ?w = "(cn_works c ! k)\<lparr>wk_phase := Gone\<rparr>"
  have "in_flight l ((cn_works c)[k := ?w]) + of_bool (holds_slot l (cn_works c ! k)) = in_flight l (cn_works c)"
    using in_flight_update [OF assms(3), of l ?w] by (simp add: holds_slot_def)
  moreover have "lane_slots sem l (cn_slots c) + in_flight l (cn_works c)
      = (case l of CallLane \<Rightarrow> bound | ControlLane \<Rightarrow> control_capacity)"
    using assms(2) by (simp add: slots_inv_def)
  ultimately show "lane_slots sem l (cn_slots (finish_work sem k c)) + in_flight l (cn_works (finish_work sem k c))
      = (case l of CallLane \<Rightarrow> bound | ControlLane \<Rightarrow> control_capacity)"
    using assms(4) by (simp add: finish_work_def update_work_def lane_slots_release [OF assms(1)] holds_slot_def)
qed

lemma slots_inv_admit:
  assumes "semaphore_laws sem" "slots_inv sem bound c"
  shows "slots_inv sem bound (admit_request sem m c)"
proof (cases "acquire_slot sem (request m) (cn_slots c)")
  case None
  with assms(2) show ?thesis by (simp add: admit_request_def send_or_leave_def slots_inv_def)
next
  case (Some s)
  have one: "in_flight l [\<lparr>wk_message = m, wk_phase = Unlaunched, wk_waiter = Awaiting, wk_result = None\<rparr>]
      = of_bool (slot_lane (request m) = l)" for l
    by (simp add: in_flight_Cons holds_slot_def)
  have "lane_slots sem l s + in_flight l (cn_works c) + of_bool (slot_lane (request m) = l)
      = (case l of CallLane \<Rightarrow> bound | ControlLane \<Rightarrow> control_capacity)" for l
    using assms(2) [unfolded slots_inv_def, THEN spec, of l] lane_slots_acquire [OF assms(1) Some, of l]
    by linarith
  then show ?thesis
    using Some by (simp add: slots_inv_def admit_request_def one add.assoc del: of_bool_eq of_bool_def)
qed

lemma slots_inv_send [simp]: "slots_inv sem bound (send_or_leave cmd c) = slots_inv sem bound c"
  by (simp add: slots_inv_def send_or_leave_def)

lemma slots_inv_abort:
  "semaphore_laws sem \<Longrightarrow> slots_inv sem bound c \<Longrightarrow> slots_inv sem bound (abort_waiters sem c)"
  by (simp add: slots_inv_def abort_waiters_def release_unlaunched_counts)

lemma slots_inv_fields [simp]:
  "slots_inv sem bound (c\<lparr>cn_phase := a\<rparr>) = slots_inv sem bound c"
  "slots_inv sem bound (c\<lparr>cn_closed := b\<rparr>) = slots_inv sem bound c"
  "slots_inv sem bound (c\<lparr>cn_open := b\<rparr>) = slots_inv sem bound c"
  "slots_inv sem bound (c\<lparr>cn_sent := d\<rparr>) = slots_inv sem bound c"
  "slots_inv sem bound (c\<lparr>cn_trace := e\<rparr>) = slots_inv sem bound c"
  "slots_inv sem bound (c\<lparr>cn_guard := b\<rparr>) = slots_inv sem bound c"
  by (simp_all add: slots_inv_def)

lemma slots_inv_answer:
  assumes "slots_inv sem bound c" "k < length (cn_works c)"
  shows "slots_inv sem bound (answer_request k r c)"
  unfolding answer_request_def Let_def by (rule slots_inv_phase) (use assms in simp_all)

lemma slots_inv_step:
  assumes sem: "semaphore_laws sem" and inv: "slots_inv sem bound c"
  shows "slots_inv sem bound (connection_step sem parse byte_limit ev c)"
proof (cases ev)
  case (FrameRead f)
  have "slots_inv sem bound (read_frame sem parse byte_limit f c)"
    using inv slots_inv_admit [OF sem inv]
    by (simp add: read_frame_def split: next_result.split frame.split parsed.split client_request.split)
  with FrameRead inv show ?thesis by simp
next
  case DrainDone
  with inv show ?thesis by (simp add: drain_done_def split: option.split)
next
  case (Launch k)
  with inv show ?thesis by (auto simp: work_in_def intro!: slots_inv_update)
next
  case (BeginWork k)
  with inv show ?thesis by (auto simp: work_in_def begin_work_def intro!: slots_inv_update)
next
  case (WorkEffect k sv)
  with inv show ?thesis
    by (auto simp: work_in_def work_effect_def split: prod.split intro!: slots_inv_update)
next
  case (CheckClosed k)
  with inv sem show ?thesis
    by (auto simp: work_in_def check_closed_def intro!: slots_inv_update slots_inv_finish)
next
  case (LateCleanup k)
  with inv sem show ?thesis
    by (auto simp: work_in_def late_cleanup_def intro!: slots_inv_finish)
next
  case (Reply k)
  with inv show ?thesis by (auto simp: work_in_def intro!: slots_inv_answer)
next
  case (DeadlinePasses k)
  with inv show ?thesis by (auto simp: awaited_def intro!: slots_inv_answer)
next
  case CloseStep
  with inv slots_inv_abort [OF sem inv] show ?thesis
    by (simp add: close_step_def split: connection_phase.split)
next
  case DropConnection
  with inv slots_inv_abort [OF sem inv] show ?thesis by (simp add: drop_connection_def)
next
  case GuardRuns
  with inv show ?thesis by (simp add: guard_runs_def)
qed (use inv in simp_all)

section \<open>Settling\<close>

text \<open>An effect on the service that no later \<open>disconnected\<close> has followed.\<close>

definition unsettled :: "service_event list \<Rightarrow> bool" where
  "unsettled trace \<longleftrightarrow> (\<exists>e \<in> set (takeWhile (\<lambda>e. e \<noteq> Disconnected) (rev trace)). e \<noteq> Disconnected)"

lemma unsettled_simps [simp]:
  "\<not> unsettled []" "unsettled (tr @ [Effect k reqs])" "\<not> unsettled (tr @ [Disconnected])"
  by (simp_all add: unsettled_def)

definition works_end :: "'s connection \<Rightarrow> bool" where
  "works_end c \<longleftrightarrow> (\<exists>k < length (cn_works c). wk_phase (cn_works c ! k) \<in> {Returned, Cleaning})"

definition settle_inv :: "'s connection \<Rightarrow> bool" where
  "settle_inv c \<longleftrightarrow>
     (unsettled (cn_trace c) \<longrightarrow> cn_phase c \<noteq> Over \<or> cn_guard c \<or> works_end c)
     \<and> (cn_phase c \<in> {Aborting, Disconnecting, Over} \<longrightarrow> cn_closed c)"

lemma works_end_update:
  assumes "k < length (cn_works c)"
  shows "works_end (update_work k f c) \<longleftrightarrow>
    wk_phase (f (cn_works c ! k)) \<in> {Returned, Cleaning}
    \<or> (\<exists>j < length (cn_works c). j \<noteq> k \<and> wk_phase (cn_works c ! j) \<in> {Returned, Cleaning})"
  using assms by (auto simp: works_end_def update_work_def nth_list_update)

lemma works_end_kept:
  assumes "works_end c" "k < length (cn_works c)"
    and "wk_phase (cn_works c ! k) \<in> {Returned, Cleaning} \<longrightarrow> wk_phase (f (cn_works c ! k)) \<in> {Returned, Cleaning}"
  shows "works_end (update_work k f c)"
  unfolding works_end_update [OF assms(2)] using assms(1,3) by (auto simp: works_end_def)

lemma works_end_fields [simp]:
  "works_end (c\<lparr>cn_phase := a\<rparr>) = works_end c" "works_end (c\<lparr>cn_closed := b\<rparr>) = works_end c"
  "works_end (c\<lparr>cn_open := b\<rparr>) = works_end c" "works_end (c\<lparr>cn_sent := d\<rparr>) = works_end c"
  "works_end (c\<lparr>cn_trace := e\<rparr>) = works_end c" "works_end (c\<lparr>cn_guard := b\<rparr>) = works_end c"
  by (simp_all add: works_end_def)

lemma update_work_fields [simp]:
  "cn_trace (update_work k f c) = cn_trace c" "cn_phase (update_work k f c) = cn_phase c"
  "cn_guard (update_work k f c) = cn_guard c" "cn_closed (update_work k f c) = cn_closed c"
  "cn_sent (update_work k f c) = cn_sent c" "cn_open (update_work k f c) = cn_open c"
  "cn_slots (update_work k f c) = cn_slots c" "length (cn_works (update_work k f c)) = length (cn_works c)"
  by (simp_all add: update_work_def)

lemma settle_inv_update:
  assumes "settle_inv c" "k < length (cn_works c)"
    and "wk_phase (cn_works c ! k) \<in> {Returned, Cleaning} \<longrightarrow> wk_phase (f (cn_works c ! k)) \<in> {Returned, Cleaning}"
  shows "settle_inv (update_work k f c)"
  using assms works_end_kept [of c k f] by (auto simp: settle_inv_def)

lemma settle_inv_live:
  "cn_phase c \<notin> {Aborting, Disconnecting, Over} \<Longrightarrow> settle_inv c"
  by (simp add: settle_inv_def)

lemma settle_inv_step:
  assumes inv: "settle_inv c"
  shows "settle_inv (connection_step sem parse byte_limit ev c)"
proof (cases ev)
  case (FrameRead f)
  have "cn_phase (read_frame sem parse byte_limit f c) \<notin> {Aborting, Disconnecting, Over}" if "cn_phase c = Reading"
    using that
    by (simp add: read_frame_def send_or_leave_def admit_request_def
        split: next_result.split frame.split parsed.split client_request.split option.split)
  with FrameRead inv show ?thesis by (auto intro: settle_inv_live)
next
  case DrainDone
  then show ?thesis using inv
    by (auto simp: drain_done_def intro: settle_inv_live split: option.split)
next
  case (Launch k)
  with inv show ?thesis by (auto simp: work_in_def intro!: settle_inv_update)
next
  case (BeginWork k)
  with inv show ?thesis by (auto simp: work_in_def begin_work_def intro!: settle_inv_update)
next
  case (WorkEffect k sv)
  show ?thesis
  proof (cases "work_in k Running c")
    case True
    then have "works_end (work_effect k sv c)"
      by (auto simp: work_in_def work_effect_def works_end_def update_work_def split: prod.split)
    moreover have "cn_phase (work_effect k sv c) = cn_phase c" "cn_closed (work_effect k sv c) = cn_closed c"
      by (simp_all add: work_effect_def split: prod.split)
    ultimately show ?thesis using WorkEffect True inv by (simp add: settle_inv_def)
  qed (use WorkEffect inv in simp)
next
  case (CheckClosed k)
  show ?thesis
  proof (cases "work_in k Returned c \<and> \<not> cn_closed c")
    case True
    then have "cn_phase c \<notin> {Aborting, Disconnecting, Over}" using inv by (auto simp: settle_inv_def)
    then show ?thesis using CheckClosed True
      by (simp add: check_closed_def finish_work_def settle_inv_def)
  next
    case False
    with CheckClosed inv show ?thesis
      by (auto simp: check_closed_def work_in_def intro!: settle_inv_update)
  qed
next
  case (LateCleanup k)
  with inv show ?thesis by (auto simp: late_cleanup_def finish_work_def settle_inv_def)
next
  case (Reply k)
  with inv show ?thesis
    by (auto simp: work_in_def answer_request_def Let_def settle_inv_def intro!: works_end_kept)
next
  case (DeadlinePasses k)
  with inv show ?thesis
    by (auto simp: awaited_def answer_request_def Let_def settle_inv_def intro!: works_end_kept)
next
  case CloseStep
  with inv show ?thesis
    by (auto simp: close_step_def settle_inv_def abort_waiters_def split: connection_phase.split)
next
  case DropConnection
  with inv show ?thesis by (auto simp: drop_connection_def settle_inv_def)
next
  case GuardRuns
  with inv show ?thesis by (auto simp: guard_runs_def settle_inv_def works_end_def)
next
  case (EventSent stream event)
  with inv show ?thesis by (auto simp: settle_inv_def works_end_def)
next
  case SessionRetired
  with inv show ?thesis by (auto simp: settle_inv_def works_end_def)
next
  case OutputEnds
  with inv show ?thesis by (auto simp: settle_inv_def works_end_def)
next
  case Leave
  with inv show ?thesis by (auto simp: settle_inv_def works_end_def)
qed

interpretation slots: step_invariant "connection_step sem parse byte_limit"
    "\<lambda>c. semaphore_laws sem \<and> slots_inv sem bound c" for sem parse byte_limit bound
  by unfold_locales (simp add: slots_inv_step)

interpretation settled: step_invariant "connection_step sem parse byte_limit" settle_inv for sem parse byte_limit
  by unfold_locales (rule settle_inv_step)

definition run_connection ::
  "'s semaphore \<Rightarrow> (ustring \<Rightarrow> ustring + client_message) \<Rightarrow> socket_config \<Rightarrow> connection_event list \<Rightarrow> 's connection"
where
  "run_connection sem parse config evs =
     fold (connection_step sem parse (maximum_request_bytes config)) evs (connection_new sem config)"

lemma connection_new_slots:
  "semaphore_laws sem \<Longrightarrow> slots_inv sem (max_in_flight_requests config) (connection_new sem config)"
  by (simp add: slots_inv_def connection_new_def slots_new_def lane_slots_def semaphore_laws_def split: lane.split)

lemma connection_new_settled: "settle_inv (connection_new sem config)"
  by (simp add: settle_inv_def connection_new_def)

text \<open>A work that has not begun when the session closes never reaches the service.\<close>

lemma closed_begins_nothing:
  assumes "cn_closed c" "work_in k Running (connection_step sem parse byte_limit ev c)"
  shows "work_in k Running c"
proof -
  have frame: "cn_works (read_frame sem parse byte_limit f c) = cn_works c
      \<or> (\<exists>m. cn_works (read_frame sem parse byte_limit f c) = cn_works c @
          [\<lparr>wk_message = m, wk_phase = Unlaunched, wk_waiter = Awaiting, wk_result = None\<rparr>])" for f
    by (auto simp: read_frame_def send_or_leave_def admit_request_def
        split: next_result.split frame.split parsed.split client_request.split option.split)
  show ?thesis
  proof (cases ev)
    case (FrameRead f)
    with assms(2) frame [of f] show ?thesis
      by (auto simp: work_in_def nth_append split: if_splits)
  qed (use assms in \<open>auto simp: awaited_def work_in_def drain_done_def send_or_leave_def begin_work_def
      work_effect_def check_closed_def late_cleanup_def finish_work_def answer_request_def Let_def
      update_work_def nth_list_update close_step_def abort_waiters_def drop_connection_def guard_runs_def
      split: if_splits option.splits prod.splits connection_phase.splits\<close>)
qed

text \<open>
  C18. A lost connection leaks nothing. Whatever the interleaving of reading, work, deadlines, failures
  and the end of the connection, by its own clean-up or because its task was dropped: once the
  connection is over and every work it admitted has ended, the last thing the service experienced is
  not an effect but \<open>disconnected\<close>, so what a late work did is cleaned up too; and from the moment the
  session is closed no work begins that had not begun before.
\<close>

theorem disconnect_settles:
  assumes "c = run_connection sem parse config evs"
  shows "(cn_phase c = Over \<and> \<not> cn_guard c \<and> (\<forall>w \<in> set (cn_works c). wk_phase w = Gone) \<longrightarrow>
            \<not> unsettled (cn_trace c))
    \<and> (cn_phase c = Over \<longrightarrow> cn_closed c)
    \<and> (cn_closed c \<longrightarrow>
         (\<forall>ev k. work_in k Running (connection_step sem parse (maximum_request_bytes config) ev c)
            \<longrightarrow> work_in k Running c))"
proof -
  have "settle_inv c"
    unfolding assms run_connection_def by (rule settled.run_inv [OF connection_new_settled])
  then show ?thesis
    using closed_begins_nothing [of c] by (auto simp: settle_inv_def works_end_def)
qed

text \<open>
  The work of a connection is bounded, detached work included. At any time the calls and
  subscriptions that have been admitted and have not ended, whether or not anyone still waits for them,
  together with the free permits make up \<open>max_in_flight_requests\<close>, and the control requests make up
  their own sixteen: no deadline frees a permit before its work has ended, and none is lost.
\<close>

lemma connection_work_bounded:
  assumes "semaphore_laws sem" "c = run_connection sem parse config evs"
  shows "lane_slots sem CallLane (cn_slots c) + in_flight CallLane (cn_works c) = max_in_flight_requests config
    \<and> lane_slots sem ControlLane (cn_slots c) + in_flight ControlLane (cn_works c) = control_capacity"
proof -
  have "semaphore_laws sem \<and> slots_inv sem (max_in_flight_requests config) c"
    unfolding assms(2) run_connection_def
    using slots.run_inv [of sem "max_in_flight_requests config" "connection_new sem config"]
      assms(1) connection_new_slots by blast
  then show ?thesis by (simp add: slots_inv_def)
qed

section \<open>Answers\<close>

fun effect_of :: "nat \<Rightarrow> service_event \<Rightarrow> service_request list list" where
  "effect_of k (Effect j reqs) = (if j = k then [reqs] else [])"
| "effect_of k Disconnected = []"

definition effects_of :: "nat \<Rightarrow> 's connection \<Rightarrow> service_request list list" where
  "effects_of k c = concat (map (effect_of k) (cn_trace c))"

definition answers_of :: "nat \<Rightarrow> 's connection \<Rightarrow> output_command list" where
  "answers_of k c = map snd (filter (\<lambda>e. fst e = Some k) (cn_sent c))"

text \<open>The history of one request, against the effects and the answers it has had.\<close>

definition history_ok :: "work \<Rightarrow> service_request list list \<Rightarrow> output_command list \<Rightarrow> bool" where
  "history_ok w effs answs \<longleftrightarrow>
     (wk_phase w \<in> {Unlaunched, Queued, Running} \<longrightarrow> wk_result w = None \<and> effs = [])
     \<and> (effs = [] \<or> (\<exists>sv reqs cmds r. effs = [reqs] \<and> dispatch_request sv False (wk_message w) = (reqs, cmds, r)
            \<and> wk_result w = Some r))
     \<and> (succeeded (wk_result w) \<longrightarrow> effs \<noteq> [])
     \<and> (wk_waiter w \<noteq> Answered \<longrightarrow> answs = [])
     \<and> (answs = [] \<or> answs = [reply_command (wk_message w) None]
        \<or> (wk_phase w = Gone \<and> answs = [reply_command (wk_message w) (wk_result w)]))"

definition history_inv :: "'s connection \<Rightarrow> bool" where
  "history_inv c \<longleftrightarrow>
     (\<forall>k. if k < length (cn_works c) then history_ok (cn_works c ! k) (effects_of k c) (answers_of k c)
          else effects_of k c = [] \<and> answers_of k c = [])"

lemma history_frame:
  assumes "history_inv c" "cn_works c' = cn_works c"
    and "\<And>k. effects_of k c' = effects_of k c" "\<And>k. answers_of k c' = answers_of k c"
  shows "history_inv c'"
  using assms by (simp add: history_inv_def)

lemma history_update:
  assumes "history_inv c" "k < length (cn_works c)"
    and "history_ok (f (cn_works c ! k)) (effects_of k c') (answers_of k c')"
    and "cn_works c' = (cn_works c)[k := f (cn_works c ! k)]"
    and "\<And>j. j \<noteq> k \<Longrightarrow> effects_of j c' = effects_of j c" "\<And>j. j \<noteq> k \<Longrightarrow> answers_of j c' = answers_of j c"
  shows "history_inv c'"
  unfolding history_inv_def
proof
  fix j
  show "if j < length (cn_works c') then history_ok (cn_works c' ! j) (effects_of j c') (answers_of j c')
          else effects_of j c' = [] \<and> answers_of j c' = []"
    using assms by (cases "j = k") (auto simp: history_inv_def)
qed

lemma effects_of_fields [simp]:
  "effects_of k (c\<lparr>cn_phase := a\<rparr>) = effects_of k c" "effects_of k (c\<lparr>cn_closed := b\<rparr>) = effects_of k c"
  "effects_of k (c\<lparr>cn_open := b\<rparr>) = effects_of k c" "effects_of k (c\<lparr>cn_sent := d\<rparr>) = effects_of k c"
  "effects_of k (c\<lparr>cn_slots := s\<rparr>) = effects_of k c" "effects_of k (c\<lparr>cn_works := ws\<rparr>) = effects_of k c"
  "effects_of k (c\<lparr>cn_guard := b\<rparr>) = effects_of k c" "effects_of k (update_work j f c) = effects_of k c"
  "effects_of k (c\<lparr>cn_trace := tr\<rparr>) = concat (map (effect_of k) tr)"
  by (simp_all add: effects_of_def)

lemma answers_of_fields [simp]:
  "answers_of k (c\<lparr>cn_phase := a\<rparr>) = answers_of k c" "answers_of k (c\<lparr>cn_closed := b\<rparr>) = answers_of k c"
  "answers_of k (c\<lparr>cn_open := b\<rparr>) = answers_of k c" "answers_of k (c\<lparr>cn_trace := tr\<rparr>) = answers_of k c"
  "answers_of k (c\<lparr>cn_slots := s\<rparr>) = answers_of k c" "answers_of k (c\<lparr>cn_works := ws\<rparr>) = answers_of k c"
  "answers_of k (c\<lparr>cn_guard := b\<rparr>) = answers_of k c" "answers_of k (update_work j f c) = answers_of k c"
  "answers_of k (c\<lparr>cn_sent := sent\<rparr>) = map snd (filter (\<lambda>e. fst e = Some k) sent)"
  by (simp_all add: answers_of_def)

lemma no_answers_None [simp]: "filter (\<lambda>e. fst e = Some k) (map (Pair None) cmds) = []"
  by (induction cmds) simp_all

lemma history_inv_fields [simp]:
  "history_inv (c\<lparr>cn_phase := a\<rparr>) = history_inv c" "history_inv (c\<lparr>cn_closed := b\<rparr>) = history_inv c"
  "history_inv (c\<lparr>cn_open := b\<rparr>) = history_inv c" "history_inv (c\<lparr>cn_guard := b\<rparr>) = history_inv c"
  "history_inv (c\<lparr>cn_slots := s\<rparr>) = history_inv c"
  by (simp_all add: history_inv_def)

lemma history_sent_None:
  "history_inv c \<Longrightarrow> history_inv (c\<lparr>cn_sent := cn_sent c @ [(None, cmd)]\<rparr>)"
  by (rule history_frame) (simp_all add: answers_of_def)

lemma history_disconnected:
  "history_inv c \<Longrightarrow> history_inv (c\<lparr>cn_trace := cn_trace c @ [Disconnected]\<rparr>)"
  by (rule history_frame) (simp_all add: effects_of_def)

lemma history_send [simp]: "history_inv c \<Longrightarrow> history_inv (send_or_leave cmd c)"
  by (simp add: send_or_leave_def history_sent_None)

lemma history_admit:
  assumes "history_inv c" shows "history_inv (admit_request sem m c)"
proof (cases "acquire_slot sem (request m) (cn_slots c)")
  case None
  with assms show ?thesis by (simp add: admit_request_def)
next
  case (Some s)
  have ok: "if k < length (cn_works c) then history_ok (cn_works c ! k) (effects_of k c) (answers_of k c)
          else effects_of k c = [] \<and> answers_of k c = []" for k
    using assms by (simp add: history_inv_def)
  show ?thesis
    unfolding history_inv_def
  proof
    fix k
    show "if k < length (cn_works (admit_request sem m c))
        then history_ok (cn_works (admit_request sem m c) ! k) (effects_of k (admit_request sem m c))
          (answers_of k (admit_request sem m c))
        else effects_of k (admit_request sem m c) = [] \<and> answers_of k (admit_request sem m c) = []"
      using ok [of k] Some
      by (cases "k < length (cn_works c)"; cases "k = length (cn_works c)")
         (simp_all add: admit_request_def nth_append history_ok_def)
  qed
qed

text \<open>A step on one work, with what it adds for that work only.\<close>

lemma history_phase:
  assumes "history_inv c" "k < length (cn_works c)"
    and "\<And>effs answs. history_ok (cn_works c ! k) effs answs \<Longrightarrow> history_ok (f (cn_works c ! k)) effs answs"
  shows "history_inv (update_work k f c)"
proof (rule history_update [OF assms(1,2)])
  have "history_ok (cn_works c ! k) (effects_of k c) (answers_of k c)"
    using assms(1,2) by (auto simp: history_inv_def split: if_splits)
  then show "history_ok (f (cn_works c ! k)) (effects_of k (update_work k f c)) (answers_of k (update_work k f c))"
    using assms(3) by simp
qed (simp_all add: update_work_def)

lemma history_effect:
  assumes inv: "history_inv c" and k: "work_in k Running c"
  shows "history_inv (work_effect k sv c)"
proof -
  obtain reqs cmds r where d: "dispatch_request sv False (wk_message (cn_works c ! k)) = (reqs, cmds, r)"
    by (metis prod.exhaust)
  have len: "k < length (cn_works c)" and running: "wk_phase (cn_works c ! k) = Running"
    using k by (simp_all add: work_in_def)
  have old: "history_ok (cn_works c ! k) (effects_of k c) (answers_of k c)"
    using inv len by (auto simp: history_inv_def split: if_splits)
  show ?thesis
  proof (rule history_update [OF inv len])
    show "cn_works (work_effect k sv c)
        = (cn_works c)[k := (cn_works c ! k)\<lparr>wk_phase := Returned, wk_result := Some r\<rparr>]"
      by (simp add: work_effect_def d update_work_def)
    show "history_ok ((cn_works c ! k)\<lparr>wk_phase := Returned, wk_result := Some r\<rparr>)
        (effects_of k (work_effect k sv c)) (answers_of k (work_effect k sv c))"
      using old running d
      by (auto simp: history_ok_def work_effect_def effects_of_def answers_of_def)
  qed (simp_all add: work_effect_def d effects_of_def answers_of_def)
qed

lemma history_answer:
  assumes inv: "history_inv c" and k: "awaited k c"
    and r: "r = None \<or> (work_in k Gone c \<and> r = wk_result (cn_works c ! k))"
  shows "history_inv (answer_request k r c)"
proof -
  have len: "k < length (cn_works c)" and waits: "wk_waiter (cn_works c ! k) = Awaiting"
    using k by (simp_all add: awaited_def)
  have old: "history_ok (cn_works c ! k) (effects_of k c) (answers_of k c)"
    using inv len by (auto simp: history_inv_def split: if_splits)
  show ?thesis
  proof (rule history_update [OF inv len])
    show "cn_works (answer_request k r c) = (cn_works c)[k := (cn_works c ! k)\<lparr>wk_waiter := Answered\<rparr>]"
      by (simp add: answer_request_def Let_def update_work_def)
    show "history_ok ((cn_works c ! k)\<lparr>wk_waiter := Answered\<rparr>)
        (effects_of k (answer_request k r c)) (answers_of k (answer_request k r c))"
      using old waits r by (auto simp: history_ok_def answer_request_def Let_def answers_of_def work_in_def)
  qed (simp_all add: answer_request_def Let_def answers_of_def)
qed

lemma history_abort:
  assumes "history_inv c" shows "history_inv (abort_waiters sem c)"
proof -
  have "history_ok (abort_waiter w) effs answs" if "history_ok w effs answs" for w effs answs
    using that by (auto simp: history_ok_def)
  with assms show ?thesis by (simp add: history_inv_def abort_waiters_def del: abort_waiter.simps)
qed

lemma history_inv_step:
  assumes inv: "history_inv c"
  shows "history_inv (connection_step sem parse byte_limit ev c)"
proof (cases ev)
  case (FrameRead f)
  with inv history_admit [OF inv] show ?thesis
    by (simp add: read_frame_def split: next_result.split frame.split parsed.split client_request.split)
next
  case DrainDone
  with inv show ?thesis by (simp add: drain_done_def split: option.split)
next
  case (Launch k)
  with inv show ?thesis by (auto simp: work_in_def history_ok_def intro!: history_phase)
next
  case (BeginWork k)
  with inv show ?thesis by (auto simp: work_in_def begin_work_def history_ok_def intro!: history_phase)
next
  case (WorkEffect k sv)
  with inv show ?thesis by (simp add: history_effect)
next
  case (CheckClosed k)
  with inv show ?thesis
    by (auto simp: work_in_def check_closed_def finish_work_def history_ok_def intro!: history_phase)
next
  case (LateCleanup k)
  with inv show ?thesis
    by (auto simp: work_in_def late_cleanup_def finish_work_def history_ok_def
        intro!: history_phase history_disconnected)
next
  case (Reply k)
  with inv show ?thesis by (simp add: history_answer)
next
  case (DeadlinePasses k)
  with inv show ?thesis by (simp add: history_answer)
next
  case (EventSent stream event)
  with inv show ?thesis by (simp add: history_sent_None)
next
  case CloseStep
  with inv history_abort [OF inv, of sem] history_disconnected [OF inv] show ?thesis
    by (simp add: close_step_def split: connection_phase.split)
next
  case DropConnection
  with inv history_abort [OF inv, of sem] show ?thesis by (simp add: drop_connection_def)
next
  case GuardRuns
  with inv history_disconnected [OF inv] show ?thesis by (simp add: guard_runs_def)
qed (use inv in simp_all)

interpretation histories: step_invariant "connection_step sem parse byte_limit" history_inv for sem parse byte_limit
  by unfold_locales (rule history_inv_step)


section \<open>A run\<close>

text \<open>
  One call slot. The first call outlives its deadline and keeps the permit, so the second is refused;
  the client goes away; the late work takes effect and is cleaned up.
\<close>

definition demo_message :: "ustring \<Rightarrow> client_message" where
  "demo_message rid = \<lparr>request = Call rid ''hold'' JNull, route = None\<rparr>"

definition demo_parse :: "ustring \<Rightarrow> ustring + client_message" where
  "demo_parse l = Inr (demo_message l)"

definition demo_answers :: service_answers where
  "demo_answers = \<lparr>sv_call = (\<lambda>_ _. Inr (JBool True)), sv_subscribe = (\<lambda>_. Inr JNull), sv_cancel = (\<lambda>_. Inr JNull),
     sv_owned = (\<lambda>_. []), sv_output_open = True\<rparr>"

definition demo_socket_config :: socket_config where
  "demo_socket_config =
     \<lparr>max_connections = 1, max_in_flight_requests = 1, maximum_request_bytes = 64, maximum_response_bytes = 64,
      sc_output_capacity = 4, pending_event_limit = 4, sc_request_timeout = 30, sc_write_timeout = 5\<rparr>"

definition demo_connection_events :: "connection_event list" where
  "demo_connection_events =
     [FrameRead (Got (Line ''a'')), Launch 0, BeginWork 0, DeadlinePasses 0, FrameRead (Got (Line ''b'')),
      FrameRead EndOfStream, CloseStep, CloseStep, CloseStep, WorkEffect 0 demo_answers, CheckClosed 0, LateCleanup 0]"

definition demo_connection :: "nat connection" where
  "demo_connection = run_connection nat_semaphore demo_parse demo_socket_config demo_connection_events"

lemma demo_connection_run:
  "cn_trace demo_connection = [Disconnected, Effect 0 [ServiceCall ''hold'' JNull], Disconnected]"
  "cn_phase demo_connection = Over" "\<not> cn_guard demo_connection"
  "map wk_phase (cn_works demo_connection) = [Gone]"
  "map (outcome_unknown \<circ> snd) (cn_sent demo_connection) = [True, False]"
  by code_simp+

theorem disconnect_settles_witness: "\<not> unsettled (cn_trace demo_connection)"
proof -
  have "\<forall>w \<in> set (cn_works demo_connection). wk_phase w = Gone"
    using demo_connection_run(4) by auto
  then show ?thesis
    using disconnect_settles [OF demo_connection_def] demo_connection_run(2,3) by blast
qed

theorem connection_work_bounded_witness:
  "lane_slots nat_semaphore CallLane (cn_slots demo_connection) + in_flight CallLane (cn_works demo_connection) = 1"
  using connection_work_bounded [OF nat_semaphore_laws demo_connection_def]
  by (simp add: demo_socket_config_def)


end
