(* ===== verification/Owner_Watch.thy ===== *)
theory Owner_Watch
  imports Socket_Session "HOL-Library.Sublist"
begin

text \<open>
  \<open>shelllist-daemon-tokio/src/owner.rs\<close>, \<open>forward.rs\<close> and \<open>event.rs\<close>: the monitor that tells when a
  D-Bus client is gone, the forwarding of watch and broadcast channels, and the destination of events.

  Tokio's broadcast channel is known by what its receiver gets: items in order, or a report that it
  has been overtaken by a number of them (\<open>accounts_for\<close>). What the bus answers to \<open>NameHasOwner\<close> and
  which signals it sends are the environment.
\<close>

section \<open>Broadcast channels\<close>

datatype 'a received = Item 'a | LaggedBy nat | ChannelClosed

text \<open>What a receiver got accounts for everything that was sent since it subscribed.\<close>

fun accounts_for :: "'a received list \<Rightarrow> 'a list \<Rightarrow> bool" where
  "accounts_for [] sent \<longleftrightarrow> sent = []"
| "accounts_for (Item x # rs) sent \<longleftrightarrow> (case sent of [] \<Rightarrow> False | y # ys \<Rightarrow> x = y \<and> accounts_for rs ys)"
| "accounts_for (LaggedBy n # rs) sent \<longleftrightarrow> n \<le> length sent \<and> accounts_for rs (drop n sent)"
| "accounts_for (ChannelClosed # rs) sent \<longleftrightarrow> sent = []"

fun forward_broadcast :: "'a received list \<Rightarrow> 'a received list" where
  "forward_broadcast [] = []"
| "forward_broadcast (Item x # rs) = Item x # forward_broadcast rs"
| "forward_broadcast (LaggedBy n # rs) = LaggedBy n # forward_broadcast rs"
| "forward_broadcast (ChannelClosed # rs) = []"

text \<open>Forwarding hides nothing: what the destination gets accounts for what was sent, too.\<close>

lemma forward_accounts: "accounts_for rs sent \<Longrightarrow> accounts_for (forward_broadcast rs) sent"
  by (induction rs arbitrary: sent rule: forward_broadcast.induct) (auto split: list.splits)

section \<open>Watch channels\<close>

datatype watch_phase = InitialValue | ChangedValue

text \<open>
  The value, whether the receiver has not seen it yet, and what \<open>forward_watch\<close> has emitted. A sender
  replaces the value at any time; a turn of the receiver is one round of its loop.
\<close>

record 'a watch_forward =
  wf_value :: 'a
  wf_unseen :: bool
  wf_emitted :: "('a \<times> watch_phase) list"

definition forward_start :: "'a \<Rightarrow> 'a watch_forward" where
  "forward_start v = \<lparr>wf_value = v, wf_unseen = False, wf_emitted = [(v, InitialValue)]\<rparr>"

datatype 'a watch_op = Publish 'a | ReceiverTurn

fun watch_step :: "'a watch_op \<Rightarrow> 'a watch_forward \<Rightarrow> 'a watch_forward" where
  "watch_step (Publish v) w = w\<lparr>wf_value := v, wf_unseen := True\<rparr>"
| "watch_step ReceiverTurn w =
     (if wf_unseen w
      then w\<lparr>wf_unseen := False, wf_emitted := wf_emitted w @ [(wf_value w, ChangedValue)]\<rparr> else w)"

fun published :: "'a watch_op list \<Rightarrow> 'a list" where
  "published [] = []"
| "published (Publish v # ops) = v # published ops"
| "published (ReceiverTurn # ops) = published ops"

lemma published_append [simp]: "published (xs @ ys) = published xs @ published ys"
  by (induction xs rule: published.induct) simp_all

lemma watch_forward_inv:
  "fold watch_step ops (forward_start v) = w \<Longrightarrow>
    subseq (map fst (wf_emitted w)) (v # published ops) \<and> wf_value w = last (v # published ops)
    \<and> wf_emitted w \<noteq> []
    \<and> (if wf_unseen w then subseq (map fst (wf_emitted w)) (butlast (v # published ops))
       else fst (last (wf_emitted w)) = wf_value w)"
proof (induction ops arbitrary: w rule: rev_induct)
  case Nil
  then show ?case by (auto simp: forward_start_def)
next
  case (snoc op ops)
  let ?u = "fold watch_step ops (forward_start v)"
  note IH = snoc.IH [OF refl]
  have w: "w = watch_step op ?u" using snoc.prems by simp
  show ?case
  proof (cases op)
    case (Publish x)
    then have "subseq (map fst (wf_emitted ?u)) ((v # published ops) @ [x])"
      using IH by (simp only: list_emb_prefix)
    then show ?thesis using w Publish IH by simp
  next
    case ReceiverTurn
    show ?thesis
    proof (cases "wf_unseen ?u")
      case True
      have "v # published ops = butlast (v # published ops) @ [last (v # published ops)]" by simp
      then have "subseq (map fst (wf_emitted ?u) @ [wf_value ?u]) (v # published ops)"
        using IH True by (metis (no_types, lifting) list_emb_append_mono subseq_order.order_refl)
      then show ?thesis using w ReceiverTurn True IH by simp
    next
      case False
      then show ?thesis using w ReceiverTurn IH by simp
    qed
  qed
qed

text \<open>
  A watch is forwarded without invention and without losing the end. The values handed on are some of the
  values the channel held, the initial one first, in order; and whenever the receiver has had its turn
  since the last change, the last value handed on is the current one.
\<close>

lemma watch_ends_current:
  assumes "fold watch_step ops (forward_start v) = w"
  shows "subseq (map fst (wf_emitted w)) (v # published ops)
    \<and> hd (wf_emitted w) = (v, InitialValue)
    \<and> (let w' = watch_step ReceiverTurn w
       in fst (last (wf_emitted w')) = last (v # published ops) \<and> wf_value w' = last (v # published ops))"
proof -
  note inv = watch_forward_inv [OF assms]
  have "\<exists>rest. wf_emitted w = (v, InitialValue) # rest"
    unfolding assms [symmetric]
  proof (induction ops rule: rev_induct)
    case (snoc op ops)
    then show ?case by (cases op) auto
  qed (simp add: forward_start_def)
  with inv show ?thesis by (auto simp: Let_def)
qed

lemma demo_watch:
  "fold watch_step [Publish 2, Publish 3, ReceiverTurn, Publish (4::nat)] (forward_start 1)
     = \<lparr>wf_value = 4, wf_unseen = True, wf_emitted = [(1, InitialValue), (3, ChangedValue)]\<rparr>"
  by (simp add: forward_start_def)

theorem watch_ends_current_witness: "subseq [1, 3] [1, 2, 3, (4::nat)]"
  using watch_ends_current [OF demo_watch] by simp


section \<open>Losing an owner\<close>

text \<open>The monitor's task: a unique name that has lost its owner. \<open>None\<close> is a message that does not decode.\<close>

fun owner_loss :: "(ustring \<times> ustring \<times> ustring) option \<Rightarrow> ustring option" where
  "owner_loss None = None"
| "owner_loss (Some (name, old, new)) =
     (if name \<noteq> [] \<and> hd name = CHR '':'' \<and> old \<noteq> [] \<and> new = [] then Some name else None)"

definition published_losses :: "(ustring \<times> ustring \<times> ustring) option list \<Rightarrow> ustring list" where
  "published_losses changes = List.map_filter owner_loss changes"

datatype owner_loss_error = LossesLagged nat | MonitorStopped

text \<open>
  One \<open>recv\<close>: whether the monitor has stopped before, whether it stops while the receiver waits (the
  \<open>select!\<close> prefers that), and what the channel gives.
\<close>

fun recv_loss :: "bool \<Rightarrow> bool \<Rightarrow> ustring received \<Rightarrow> owner_loss_error + ustring" where
  "recv_loss stopped stops r =
     (if stopped \<or> stops then err MonitorStopped
      else (case r of Item name \<Rightarrow> ok name | LaggedBy n \<Rightarrow> err (LossesLagged n) | ChannelClosed \<Rightarrow> err MonitorStopped))"

fun owner_error_text :: "owner_loss_error \<Rightarrow> ustring" where
  "owner_error_text (LossesLagged n) = ''missed '' @ decimal n @ '' D-Bus owner losses''"
| "owner_error_text MonitorStopped = ''D-Bus owner monitor stopped''"

text \<open>A round of \<open>wait\<close>, with what \<open>NameHasOwner\<close> would answer at that time.\<close>

record wait_round =
  wr_stopped :: bool
  wr_stops :: bool
  wr_received :: "ustring received"
  wr_has_owner :: "ustring + bool"

datatype wait_result = StillWaits | OwnerGone | WaitFailed ustring

fun wait_loop :: "ustring \<Rightarrow> wait_round list \<Rightarrow> wait_result" where
  "wait_loop owner [] = StillWaits"
| "wait_loop owner (r # rs) =
     (case recv_loss (wr_stopped r) (wr_stops r) (wr_received r) of
        Inr lost \<Rightarrow> if lost = owner then OwnerGone else wait_loop owner rs
      | Inl (LossesLagged n) \<Rightarrow>
          (case wr_has_owner r of
             Inl e \<Rightarrow> WaitFailed e
           | Inr owned \<Rightarrow> if \<not> owned then OwnerGone else wait_loop owner rs)
      | Inl MonitorStopped \<Rightarrow> WaitFailed (owner_error_text MonitorStopped))"

definition wait_owner :: "ustring + unit \<Rightarrow> ustring + bool \<Rightarrow> ustring \<Rightarrow> wait_round list \<Rightarrow> wait_result" where
  "wait_owner subscribed has_owner owner rounds =
     (case subscribed of
        Inl e \<Rightarrow> WaitFailed e
      | Inr _ \<Rightarrow>
          (case has_owner of
             Inl e \<Rightarrow> WaitFailed e
           | Inr owned \<Rightarrow> if \<not> owned then OwnerGone else wait_loop owner rounds))"

text \<open>
  The bus answers truthfully: asked after the loss of a unique name was published, it does not say that
  the name is owned, for unique names are not reused.
\<close>

fun bus_truthful :: "ustring \<Rightarrow> wait_round list \<Rightarrow> ustring list \<Rightarrow> bool" where
  "bus_truthful owner [] losses \<longleftrightarrow> True"
| "bus_truthful owner (r # rs) losses \<longleftrightarrow>
     (case wr_received r of
        LaggedBy n \<Rightarrow> (owner \<in> set (take n losses) \<longrightarrow> wr_has_owner r \<noteq> Inr True) \<and> bus_truthful owner rs (drop n losses)
      | _ \<Rightarrow> bus_truthful owner rs (tl losses))"

lemma wait_loop_returns:
  assumes "accounts_for (map wr_received rounds) losses" "bus_truthful owner rounds losses" "owner \<in> set losses"
  shows "wait_loop owner rounds \<noteq> StillWaits"
  using assms
proof (induction rounds arbitrary: losses)
  case (Cons r rounds)
  show ?case
  proof (cases "wr_stopped r \<or> wr_stops r")
    case True
    then show ?thesis by auto
  next
    case False
    show ?thesis
    proof (cases "wr_received r")
      case (Item x)
      then obtain ys where "losses = x # ys" "accounts_for (map wr_received rounds) ys"
        using Cons.prems(1) by (auto split: list.splits)
      then show ?thesis using Cons.IH [of ys] Cons.prems(2,3) Item False by auto
    next
      case (LaggedBy n)
      show ?thesis
      proof (cases "wr_has_owner r = Inr True")
        case True
        then have "owner \<notin> set (take n losses)" using Cons.prems(2) LaggedBy by simp
        moreover have "set losses = set (take n losses) \<union> set (drop n losses)"
          by (metis append_take_drop_id set_append)
        ultimately have "owner \<in> set (drop n losses)" using Cons.prems(3) by simp
        then show ?thesis using Cons.IH [of "drop n losses"] Cons.prems(1,2) LaggedBy False True by simp
      next
        case other: False
        then show ?thesis using LaggedBy False by (cases "wr_has_owner r") auto
      qed
    next
      case ChannelClosed
      then show ?thesis using False by simp
    qed
  qed
qed simp

lemma wait_loop_sound:
  "wait_loop owner rounds = OwnerGone \<Longrightarrow>
    Item owner \<in> set (map wr_received rounds) \<or> (\<exists>r \<in> set rounds. wr_has_owner r = Inr False)"
  by (induction rounds) (auto split: if_splits sum.splits owner_loss_error.splits received.splits)

text \<open>
  A lost client is never waited for in vain, and never reported lost without cause. When the loss
  of the client was published after the subscription, and the receiver's rounds account for all the
  losses, the wait has returned by then, also when the loss itself was among the ones skipped by a lag;
  and it returns success only when the loss was received or the bus denied that the name is owned.
\<close>

lemma owner_loss_not_missed:
  assumes "accounts_for (map wr_received rounds) (published_losses changes)"
    and "bus_truthful owner rounds (published_losses changes)"
    and "Some (owner, old, []) \<in> set changes" and "old \<noteq> []" and "hd owner = CHR '':''" and "owner \<noteq> []"
  shows "wait_owner subscribed has_owner owner rounds \<noteq> StillWaits
    \<and> (wait_owner subscribed has_owner owner rounds = OwnerGone \<longrightarrow>
         has_owner = Inr False \<or> Item owner \<in> set (map wr_received rounds)
         \<or> (\<exists>r \<in> set rounds. wr_has_owner r = Inr False))"
proof -
  have "owner_loss (Some (owner, old, [])) = Some owner" using assms(4-6) by simp
  then have "owner \<in> set (published_losses changes)"
    using assms(3) unfolding published_losses_def by (force simp: List.map_filter_def)
  then have "wait_loop owner rounds \<noteq> StillWaits"
    by (rule wait_loop_returns [OF assms(1,2)])
  then show ?thesis
    using wait_loop_sound [of owner rounds]
    by (auto simp: wait_owner_def split: sum.splits)
qed

definition demo_rounds :: "wait_round list" where
  "demo_rounds =
     [\<lparr>wr_stopped = False, wr_stops = False, wr_received = Item '':1.7'', wr_has_owner = Inr True\<rparr>,
      \<lparr>wr_stopped = False, wr_stops = False, wr_received = LaggedBy 2, wr_has_owner = Inr False\<rparr>]"

definition demo_changes :: "(ustring \<times> ustring \<times> ustring) option list" where
  "demo_changes = [Some ('':1.7'', '':1.7'', ''''), None, Some ('':1.8'', '':1.8'', ''''),
     Some (''org.x'', '':1.8'', ''''), Some ('':1.9'', '':1.9'', '''')]"

theorem owner_loss_not_missed_witness:
  "wait_owner (Inr ()) (Inr True) '':1.8'' demo_rounds \<noteq> StillWaits"
proof -
  have "accounts_for (map wr_received demo_rounds) (published_losses demo_changes)"
    "bus_truthful '':1.8'' demo_rounds (published_losses demo_changes)"
    "Some ('':1.8'', '':1.8'', []) \<in> set demo_changes"
    by (simp_all add: demo_rounds_def demo_changes_def published_losses_def List.map_filter_def)
  from owner_loss_not_missed [OF this] show ?thesis by simp
qed

section \<open>Replacement of a well-known name\<close>

text \<open>The bridge waits for another owner of the daemon's name; \<open>Inl\<close> is a message that does not decode.\<close>

fun wait_for_name_replacement :: "ustring \<Rightarrow> (ustring + ustring \<times> ustring \<times> ustring) list \<Rightarrow> ustring + unit" where
  "wait_for_name_replacement watched [] = err ''D-Bus owner-change stream ended''"
| "wait_for_name_replacement watched (Inl e # ms) = err ''decode owner change''"
| "wait_for_name_replacement watched (Inr (name, old, new) # ms) =
     (if name = watched \<and> old \<noteq> [] \<and> old \<noteq> new then ok () else wait_for_name_replacement watched ms)"

lemma replacement_reported:
  "wait_for_name_replacement watched ms = Inr u \<Longrightarrow>
    \<exists>old new. Inr (watched, old, new) \<in> set ms \<and> old \<noteq> [] \<and> old \<noteq> new"
  by (induction watched ms rule: wait_for_name_replacement.induct) (auto split: if_splits)

section \<open>Event destinations\<close>

text \<open>The D-Bus emission is zbus', the parameter \<open>dbus\<close>: whether a signal could be emitted.\<close>

datatype event_emitter = DbusEmitter | SocketEmitter socket_session

fun emitter_closed :: "event_emitter \<Rightarrow> bool" where
  "emitter_closed DbusEmitter = False"
| "emitter_closed (SocketEmitter s) = ss_closed s"

fun emitter_emit ::
  "(ustring \<Rightarrow> ustring \<Rightarrow> json \<Rightarrow> ustring + unit) \<Rightarrow> ustring \<Rightarrow> ustring \<Rightarrow> json \<Rightarrow> event_emitter
    \<Rightarrow> ((ustring + unit) \<times> event_emitter) option"
where
  "emitter_emit dbus iface stream event DbusEmitter = Some (dbus iface stream event, DbusEmitter)"
| "emitter_emit dbus iface stream event (SocketEmitter s) =
     map_option (\<lambda>(r, s'). (r, SocketEmitter s')) (emit stream event s)"

fun emitter_emit_sync ::
  "(ustring \<Rightarrow> ustring \<Rightarrow> json \<Rightarrow> ustring + unit) \<Rightarrow> ustring \<Rightarrow> ustring \<Rightarrow> json \<Rightarrow> event_emitter
    \<Rightarrow> (ustring + unit) \<times> event_emitter"
where
  "emitter_emit_sync dbus iface stream event DbusEmitter = (dbus iface stream event, DbusEmitter)"
| "emitter_emit_sync dbus iface stream event (SocketEmitter s) =
     (case try_emit stream event s of (r, s') \<Rightarrow> (r, SocketEmitter s'))"

text \<open>A synchronous producer whose event could not be queued on a socket has retired the destination.\<close>

lemma emit_sync_fails_closed:
  "emitter_emit_sync dbus iface stream event (SocketEmitter s) = (Inl e, d) \<Longrightarrow> emitter_closed d"
  by (auto simp: try_emit_def close_session_def split: if_splits sum.splits prod.splits)

end
