(* ===== verification/Resume.thy ===== *)
theory Resume
  imports Prelude "HOL-Library.Signed_Division"
begin

text \<open>
  \<open>shelllist-daemon-tokio/src/resume.rs\<close>: the detection of resumes from suspend. The offset between
  the boot-time clock, which counts suspend, and the monotonic one, which does not, grows by the time
  spent suspended; logind announces the end of a suspend as well. The detector merges both sources.

  Nanoseconds are integers: the code's \<open>i128\<close> cannot overflow on clock values. A clock reading is the
  pair of \<open>tv_sec\<close> and \<open>tv_nsec\<close>. The loop of \<open>monitor_resumes\<close> is a run over the ticks and the
  signals it receives, each with the offset sampled then.
\<close>

section \<open>The detector\<close>

type_synonym timespec = "int \<times> int"

definition timespec_ns :: "timespec \<Rightarrow> int" where
  "timespec_ns t = fst t * 1000000000 + snd t"

definition suspend_offset :: "timespec \<Rightarrow> timespec \<Rightarrow> timespec \<Rightarrow> int option" where
  "suspend_offset before boot after =
     (if timespec_ns after - timespec_ns before < 50000000
      then Some (timespec_ns boot - (timespec_ns before + timespec_ns after) sdiv 2) else None)"

record resume_detector =
  rd_offset :: "int option"
  rd_reported :: bool

definition resume_detector_default :: resume_detector where
  "resume_detector_default = \<lparr>rd_offset = None, rd_reported = False\<rparr>"

definition offset_changed :: "int option \<Rightarrow> resume_detector \<Rightarrow> bool \<times> resume_detector" where
  "offset_changed sample d =
     (case sample of
        None \<Rightarrow> (False, d)
      | Some x \<Rightarrow>
          ((case rd_offset d of None \<Rightarrow> False | Some previous \<Rightarrow> x - previous > 250000000),
           d\<lparr>rd_offset := Some x\<rparr>))"

definition detector_poll :: "int option \<Rightarrow> resume_detector \<Rightarrow> bool \<times> resume_detector" where
  "detector_poll sample d =
     (case offset_changed sample d of (changed, d1) \<Rightarrow> (changed, d1\<lparr>rd_reported := rd_reported d1 \<or> changed\<rparr>))"

definition detector_signal :: "int option \<Rightarrow> resume_detector \<Rightarrow> bool \<times> resume_detector" where
  "detector_signal sample d =
     (case offset_changed sample d of (changed, d1) \<Rightarrow> (changed \<or> \<not> rd_reported d1, d1\<lparr>rd_reported := False\<rparr>))"

section \<open>The monitor\<close>

datatype resume_input = Tick "int option" | LogindSignal "int option"

fun detector_step :: "resume_input \<Rightarrow> resume_detector \<Rightarrow> bool \<times> resume_detector" where
  "detector_step (Tick sample) d = detector_poll sample d"
| "detector_step (LogindSignal sample) d = detector_signal sample d"

fun detect :: "resume_input list \<Rightarrow> resume_detector \<Rightarrow> (resume_input \<times> bool) list \<times> resume_detector" where
  "detect [] d = ([], d)"
| "detect (i # is) d =
     (case detector_step i d of
        (b, d1) \<Rightarrow> (case detect is d1 of (log, d2) \<Rightarrow> ((i, b) # log, d2)))"

definition u64_max :: nat where
  "u64_max = 2 ^ 64 - 1"

definition bump :: "nat \<Rightarrow> bool \<Rightarrow> nat" where
  "bump generation announce = (if announce then min (generation + 1) u64_max else generation)"

text \<open>The generation after the inputs received until the last consumer left.\<close>

definition monitor_resumes :: "resume_input list \<Rightarrow> nat \<Rightarrow> nat" where
  "monitor_resumes inputs generation =
     foldl (\<lambda>g entry. bump g (snd entry)) generation (fst (detect inputs resume_detector_default))"

text \<open>The logind stream: \<open>PrepareForSleep(false)\<close> is a resume.\<close>

fun logind_signals :: "bool list \<Rightarrow> unit list" where
  "logind_signals [] = []"
| "logind_signals (preparing # rest) = (if preparing then logind_signals rest else () # logind_signals rest)"

section \<open>What is announced\<close>

text \<open>The detector's memory, read off the log.\<close>

fun sample_of :: "resume_input \<Rightarrow> int option" where
  "sample_of (Tick sample) = sample"
| "sample_of (LogindSignal sample) = sample"

fun is_signal :: "resume_input \<Rightarrow> bool" where
  "is_signal (LogindSignal _) = True"
| "is_signal (Tick _) = False"

definition last_sample :: "(resume_input \<times> bool) list \<Rightarrow> int option" where
  "last_sample log = fold (\<lambda>e s. case sample_of (fst e) of None \<Rightarrow> s | Some x \<Rightarrow> Some x) log None"

definition jumped :: "(resume_input \<times> bool) list \<Rightarrow> resume_input \<Rightarrow> bool" where
  "jumped log i \<longleftrightarrow>
     (\<exists>x p. sample_of i = Some x \<and> last_sample log = Some p \<and> x - p > 250000000)"

definition since_signal :: "(resume_input \<times> bool) list \<Rightarrow> (resume_input \<times> bool) list" where
  "since_signal log = rev (takeWhile (\<lambda>e. \<not> is_signal (fst e)) (rev log))"

definition reported :: "(resume_input \<times> bool) list \<Rightarrow> bool" where
  "reported log \<longleftrightarrow> (\<exists>e \<in> set (since_signal log). snd e)"

text \<open>When an input is announced, as a function of what came before.\<close>

definition announced :: "(resume_input \<times> bool) list \<Rightarrow> resume_input \<Rightarrow> bool" where
  "announced log i \<longleftrightarrow> jumped log i \<or> (is_signal i \<and> \<not> reported log)"

lemma last_sample_snoc [simp]:
  "last_sample [] = None"
  "last_sample (log @ [(i, b)]) = (case sample_of i of None \<Rightarrow> last_sample log | Some x \<Rightarrow> Some x)"
  by (simp_all add: last_sample_def split: option.split)

lemma reported_snoc [simp]:
  "\<not> reported []"
  "reported (log @ [(i, b)]) \<longleftrightarrow> \<not> is_signal i \<and> (b \<or> reported log)"
  by (cases "is_signal i"; simp add: reported_def since_signal_def)+

definition remembers :: "(resume_input \<times> bool) list \<Rightarrow> resume_detector \<Rightarrow> bool" where
  "remembers log d \<longleftrightarrow> rd_offset d = last_sample log \<and> rd_reported d = reported log"

lemma detector_step_announced:
  assumes "remembers log d" "detector_step i d = (b, d')"
  shows "b = announced log i \<and> remembers (log @ [(i, b)]) d'"
  using assms
  by (cases i)
     (auto simp: detector_poll_def detector_signal_def offset_changed_def remembers_def announced_def jumped_def
        split: option.splits prod.splits)

lemma detect_announced:
  "remembers log d \<Longrightarrow> detect inputs d = (log', d') \<Longrightarrow>
    remembers (log @ log') d' \<and> map fst log' = inputs
    \<and> (\<forall>pre i b post. log' = pre @ (i, b) # post \<longrightarrow> b = announced (log @ pre) i)"
proof (induction inputs arbitrary: log d log' d')
  case (Cons i inputs)
  obtain b d1 where s: "detector_step i d = (b, d1)" by fastforce
  obtain log1 d2 where r: "detect inputs d1 = (log1, d2)" by fastforce
  have eq: "log' = (i, b) # log1" "d' = d2" using Cons.prems(2) s r by simp_all
  note st = detector_step_announced [OF Cons.prems(1) s]
  have IH: "remembers ((log @ [(i, b)]) @ log1) d2 \<and> map fst log1 = inputs
      \<and> (\<forall>pre i' b' post. log1 = pre @ (i', b') # post \<longrightarrow> b' = announced ((log @ [(i, b)]) @ pre) i')"
    by (rule Cons.IH [OF conjunct2 [OF st] r])
  have "b' = announced (log @ pre) i'" if "log' = pre @ (i', b') # post" for pre i' b' post
    using that eq st IH by (cases pre) auto
  then show ?case using eq IH by simp
qed simp

text \<open>
  C24. The detector is its specification, on any interleaving of clock samples and logind signals. A tick is
  announced exactly when the offset has grown by more than a quarter of a second since the last sample
  that could be taken: no stall and no clock adjustment is a resume. A signal is announced unless a
  tick has been announced since the previous signal, and always when the offset has jumped. So no
  signal is lost: between two signals, the later one included, something has been announced.
\<close>

theorem resumes_detected:
  assumes "detect inputs resume_detector_default = (log, d)" and "log = pre @ (i, b) # post"
  shows "b = announced pre i
    \<and> (is_signal i \<longrightarrow> b \<or> (\<exists>e \<in> set (since_signal pre). snd e))"
proof -
  have "remembers [] resume_detector_default"
    by (simp add: remembers_def resume_detector_default_def)
  from detect_announced [OF this assms(1)] assms(2) have "b = announced pre i" by simp
  then show ?thesis by (auto simp: announced_def reported_def)
qed

definition demo_inputs :: "resume_input list" where
  "demo_inputs = [Tick (Some 0), Tick None, LogindSignal (Some 100000000), Tick (Some 5100000000),
     LogindSignal (Some 5100000000), LogindSignal (Some 10100000000)]"

lemma demo_detection:
  "detect demo_inputs resume_detector_default =
     ([(Tick (Some 0), False), (Tick None, False), (LogindSignal (Some 100000000), True), (Tick (Some 5100000000), True)]
        @ (LogindSignal (Some 5100000000), False) # [(LogindSignal (Some 10100000000), True)],
      \<lparr>rd_offset = Some 10100000000, rd_reported = False\<rparr>)"
  by (simp add: demo_inputs_def detector_poll_def detector_signal_def offset_changed_def resume_detector_default_def)

theorem resumes_detected_witness:
  "\<exists>e \<in> set (since_signal [(Tick (Some 0), False), (Tick None, False), (LogindSignal (Some 100000000), True),
      (Tick (Some 5100000000), True)]). snd e"
  using resumes_detected [OF demo_detection refl] by simp

text \<open>The generation counts the announcements and saturates.\<close>

lemma monitor_counts:
  assumes "generation \<le> u64_max"
  shows "monitor_resumes inputs generation
    = min u64_max (generation + length (filter snd (fst (detect inputs resume_detector_default))))"
proof -
  have "foldl (\<lambda>g entry. bump g (snd entry)) g log = min u64_max (g + length (filter snd log))"
    if "g \<le> u64_max" for g and log :: "(resume_input \<times> bool) list"
    using that by (induction log arbitrary: g) (auto simp: bump_def min_def)
  then show ?thesis using assms by (simp add: monitor_resumes_def)
qed

end
