(* ===== verification/Bridge_Run.thy ===== *)
theory Bridge_Run
  imports Jsonl_Client "HOL-Library.Sublist"
begin

text \<open>
  \<open>shelllist-daemon-tokio/src/jsonl.rs\<close>: the bridge client as a whole, \<open>run_client_io\<close> with the tasks
  it starts. The main task reads frames, spawns a task for every request it admits, and at the end
  drains these, cancels what is still active, and shuts the output down; the event forwarder and the owner
  watcher share one connection to the daemon, which either of them may give up.

  The tasks interleave: an event of the machine is one step of one task with what its environment
  answers. A request task runs \<open>execute_request\<close> of \<open>Jsonl_Client\<close>; its D-Bus requests and its commands are
  taken one by one, in any order that keeps each of the two sequences and the final command last.
  \<open>br_sent\<close> holds the commands the output queue has accepted and \<open>br_requests\<close> the requests given to
  the bus; both are marked with the number of the request task they come from.
\<close>

section \<open>The shared connection\<close>

record reconnecting =
  rc_current :: "nat option"
  rc_ready :: bool
  rc_opened :: nat

definition reconnecting_new :: reconnecting where
  "reconnecting_new = \<lparr>rc_current = None, rc_ready = False, rc_opened = 0\<rparr>"

text \<open>
  \<open>get\<close>: the lock is held while a session is opened, so the whole of it is one step; \<open>session\<close> is what
  opening one would answer. A client is the number of the session it belongs to.
\<close>

definition client_get :: "ustring + unit \<Rightarrow> reconnecting \<Rightarrow> (ustring + nat) \<times> reconnecting" where
  "client_get session rc =
     (case rc_current rc of
        Some c \<Rightarrow> (ok c, rc)
      | None \<Rightarrow>
          (case session of
             Inl e \<Rightarrow> (err e, rc)
           | Inr _ \<Rightarrow> (ok (rc_opened rc), rc\<lparr>rc_current := Some (rc_opened rc), rc_opened := Suc (rc_opened rc)\<rparr>)))"

text \<open>The two halves of \<open>invalidate\<close>, with the wait for the lock between them.\<close>

definition set_ready :: "bool \<Rightarrow> reconnecting \<Rightarrow> reconnecting" where
  "set_ready b rc = rc\<lparr>rc_ready := b\<rparr>"

definition take_current :: "reconnecting \<Rightarrow> reconnecting" where
  "take_current rc = rc\<lparr>rc_current := None\<rparr>"

section \<open>The state\<close>

datatype forwarder_phase =
    FwStarting | FwSleeping | FwConnecting | FwOpening nat | FwReading nat
  | FwFailed ustring | FwReset ustring | FwClearing | FwTaking | FwStopped

datatype watcher_phase =
    OwSleeping | OwConnecting | OwWatching nat | OwClearing | OwTaking | OwResetting | OwReporting | OwStopped

datatype call_phase = CallRunning "dbus_request list" "output_command list" | CallSpawned | CallEnded | CallAborted

record bridge_call =
  bc_message :: client_message
  bc_phase :: call_phase

datatype main_phase =
    MainReading
  | MainDraining "ustring option"
  | MainCancelling "ustring option"
  | MainEnding "ustring option"
  | MainWaiting
  | MainReturned "ustring + unit"

record 's bridge =
  br_connection :: reconnecting
  br_forwarder :: forwarder_phase
  br_last_error :: "ustring option"
  br_delay :: nat
  br_watcher :: watcher_phase
  br_slots :: "'s request_slots"
  br_calls :: "bridge_call list"
  br_main :: main_phase
  br_open :: bool
  br_sent :: "(nat option \<times> output_command) list"
  br_requests :: "(nat option \<times> dbus_request) list"

record bridge_config =
  bg_endpoint :: ustring
  bg_max_in_flight :: nat
  bg_shutdown_timeout :: "nat option"
  bg_request_bytes :: nat

definition bridge_new :: "'s semaphore \<Rightarrow> bridge_config \<Rightarrow> 's bridge" where
  "bridge_new sem config =
     \<lparr>br_connection = reconnecting_new, br_forwarder = FwStarting, br_last_error = None,
      br_delay = initial_reconnect_delay, br_watcher = OwConnecting,
      br_slots = slots_new sem (max (bg_max_in_flight config) 1), br_calls = [], br_main = MainReading,
      br_open = True, br_sent = [], br_requests = []\<rparr>"

text \<open>A record limit outside its range is refused before anything is started.\<close>

definition start_bridge :: "'s semaphore \<Rightarrow> bridge_config \<Rightarrow> ustring + 's bridge" where
  "start_bridge sem config =
     (if valid_request_limit (bg_request_bytes config) then ok (bridge_new sem config)
      else err ''invalid JSONL request byte limit'')"

text \<open>A command given to the output: accepted while the output lives.\<close>

definition give :: "nat option \<Rightarrow> output_command \<Rightarrow> 's bridge \<Rightarrow> 's bridge" where
  "give who cmd b = (if br_open b then b\<lparr>br_sent := br_sent b @ [(who, cmd)]\<rparr> else b)"

section \<open>The event forwarder\<close>

text \<open>A signal that carries a stream and a JSON text; a text that is no JSON is passed on raw.\<close>

fun event_command :: "(ustring \<Rightarrow> json option) \<Rightarrow> (ustring \<times> ustring) option \<Rightarrow> ustring + output_command" where
  "event_command parse_json None = err ''decode daemon event signal''"
| "event_command parse_json (Some (stream, t)) =
     ok (Event stream (case parse_json t of Some v \<Rightarrow> v | None \<Rightarrow> jobj [(''raw'', JString t)]))"

definition forward_signal ::
  "(ustring \<Rightarrow> json option) \<Rightarrow> (ustring \<times> ustring) option \<Rightarrow> 's bridge \<Rightarrow> 's bridge"
where
  "forward_signal parse_json signal b =
     (case event_command parse_json signal of
        Inl e \<Rightarrow> b\<lparr>br_forwarder := FwFailed e\<rparr>
      | Inr cmd \<Rightarrow> if br_open b then give None cmd b else b\<lparr>br_forwarder := FwFailed send_failed\<rparr>)"

datatype forwarder_event =
    FwWake | FwSession "ustring + unit" | FwEvents "ustring + unit"
  | FwSignal "(ustring \<times> ustring) option" | FwStreamEnds | FwContinue

definition forwarder_continue :: "'s bridge \<Rightarrow> 's bridge" where
  "forwarder_continue b =
     (case br_forwarder b of
        FwFailed m \<Rightarrow>
          if br_open b then (give None ResetCorrelation b)\<lparr>br_forwarder := FwReset m\<rparr>
          else b\<lparr>br_forwarder := FwStopped\<rparr>
      | FwReset m \<Rightarrow>
          (case report_transport_error (br_last_error b) m of
             (cmds, reported) \<Rightarrow>
               if cmds = [] \<or> br_open b
               then (fold (give None) cmds b)\<lparr>br_last_error := reported, br_forwarder := FwClearing\<rparr>
               else b\<lparr>br_last_error := reported, br_forwarder := FwStopped\<rparr>)
      | FwClearing \<Rightarrow> b\<lparr>br_connection := set_ready False (br_connection b), br_forwarder := FwTaking\<rparr>
      | FwTaking \<Rightarrow> b\<lparr>br_connection := take_current (br_connection b), br_forwarder := FwSleeping\<rparr>
      | _ \<Rightarrow> b)"

text \<open>The loop head withdraws readiness; only an open event stream grants it.\<close>

fun forwarder_step :: "(ustring \<Rightarrow> json option) \<Rightarrow> forwarder_event \<Rightarrow> 's bridge \<Rightarrow> 's bridge" where
  "forwarder_step parse_json FwWake b =
     (case br_forwarder b of
        FwStarting \<Rightarrow> b\<lparr>br_connection := set_ready False (br_connection b), br_forwarder := FwConnecting\<rparr>
      | FwSleeping \<Rightarrow> b\<lparr>br_connection := set_ready False (br_connection b), br_forwarder := FwConnecting,
            br_delay := next_delay (br_delay b)\<rparr>
      | _ \<Rightarrow> b)"
| "forwarder_step parse_json (FwSession session) b =
     (case br_forwarder b of
        FwConnecting \<Rightarrow>
          (case client_get session (br_connection b) of
             (Inl e, rc) \<Rightarrow> b\<lparr>br_connection := rc, br_forwarder := FwFailed e\<rparr>
           | (Inr c, rc) \<Rightarrow> b\<lparr>br_connection := rc, br_forwarder := FwOpening c\<rparr>)
      | _ \<Rightarrow> b)"
| "forwarder_step parse_json (FwEvents opened) b =
     (case br_forwarder b of
        FwOpening c \<Rightarrow>
          (case opened of
             Inl e \<Rightarrow> b\<lparr>br_forwarder := FwFailed e\<rparr>
           | Inr _ \<Rightarrow> b\<lparr>br_connection := set_ready True (br_connection b), br_forwarder := FwReading c\<rparr>)
      | _ \<Rightarrow> b)"
| "forwarder_step parse_json (FwSignal signal) b =
     (case br_forwarder b of FwReading c \<Rightarrow> forward_signal parse_json signal b | _ \<Rightarrow> b)"
| "forwarder_step parse_json FwStreamEnds b =
     (case br_forwarder b of
        FwReading c \<Rightarrow> b\<lparr>br_forwarder := FwFailed ''daemon event stream ended''\<rparr> | _ \<Rightarrow> b)"
| "forwarder_step parse_json FwContinue b = forwarder_continue b"

section \<open>The owner watcher\<close>

datatype watcher_event = OwWake | OwSession "ustring + unit" | OwWatched bool | OwContinue

fun watcher_step :: "ustring \<Rightarrow> watcher_event \<Rightarrow> 's bridge \<Rightarrow> 's bridge" where
  "watcher_step exe OwWake b =
     (case br_watcher b of OwSleeping \<Rightarrow> b\<lparr>br_watcher := OwConnecting\<rparr> | _ \<Rightarrow> b)"
| "watcher_step exe (OwSession session) b =
     (case br_watcher b of
        OwConnecting \<Rightarrow>
          (case client_get session (br_connection b) of
             (Inl e, rc) \<Rightarrow> b\<lparr>br_connection := rc, br_watcher := OwSleeping\<rparr>
           | (Inr c, rc) \<Rightarrow> b\<lparr>br_connection := rc, br_watcher := OwWatching c\<rparr>)
      | _ \<Rightarrow> b)"
| "watcher_step exe (OwWatched replaced) b =
     (case br_watcher b of
        OwWatching c \<Rightarrow> b\<lparr>br_watcher := (if replaced then OwClearing else OwSleeping)\<rparr> | _ \<Rightarrow> b)"
| "watcher_step exe OwContinue b =
     (case br_watcher b of
        OwClearing \<Rightarrow> b\<lparr>br_connection := set_ready False (br_connection b), br_watcher := OwTaking\<rparr>
      | OwTaking \<Rightarrow> b\<lparr>br_connection := take_current (br_connection b), br_watcher := OwResetting\<rparr>
      | OwResetting \<Rightarrow>
          if br_open b then (give None ResetCorrelation b)\<lparr>br_watcher := OwReporting\<rparr>
          else b\<lparr>br_watcher := OwStopped\<rparr>
      | OwReporting \<Rightarrow>
          if br_open b
          then (give None (TransportError (exe @ '' D-Bus owner changed'')) b)\<lparr>br_watcher := OwConnecting\<rparr>
          else b\<lparr>br_watcher := OwStopped\<rparr>
      | _ \<Rightarrow> b)"

section \<open>Request tasks\<close>

fun live_call :: "bridge_call \<Rightarrow> bool" where
  "live_call bc \<longleftrightarrow> bc_phase bc \<noteq> CallEnded \<and> bc_phase bc \<noteq> CallAborted"

definition set_call :: "nat \<Rightarrow> call_phase \<Rightarrow> 's bridge \<Rightarrow> 's bridge" where
  "set_call k ph b = b\<lparr>br_calls := (br_calls b)[k := (br_calls b ! k)\<lparr>bc_phase := ph\<rparr>]\<rparr>"

definition spawn_call :: "'s semaphore \<Rightarrow> client_message \<Rightarrow> 's bridge \<Rightarrow> 's bridge" where
  "spawn_call sem m b =
     (case acquire_slot sem (request m) (br_slots b) of
        None \<Rightarrow> give None (RequestError (req_id (request m)) ''rejected-before-dispatch''
                  ''bridge request capacity exceeded; request was not sent'' (route m)) b
      | Some s \<Rightarrow> b\<lparr>br_slots := s, br_calls := br_calls b @ [\<lparr>bc_message = m, bc_phase = CallSpawned\<rparr>]\<rparr>)"

definition start_call :: "environment \<Rightarrow> nat \<Rightarrow> 's bridge \<Rightarrow> 's bridge" where
  "start_call env k b =
     (let run = execute_request env (bc_message (br_calls b ! k))
      in set_call k (CallRunning (dispatched run) (emitted run @ [final run])) b)"

text \<open>The last command ends the task, which returns its permit; it comes after every request.\<close>

fun call_requests :: "nat \<Rightarrow> call_phase \<Rightarrow> 's bridge \<Rightarrow> 's bridge" where
  "call_requests k (CallRunning (r # rs) cmds) b =
     set_call k (CallRunning rs cmds) (b\<lparr>br_requests := br_requests b @ [(Some k, r)]\<rparr>)"
| "call_requests k _ b = b"

fun call_sends :: "'s semaphore \<Rightarrow> nat \<Rightarrow> call_phase \<Rightarrow> 's bridge \<Rightarrow> 's bridge" where
  "call_sends sem k (CallRunning rs (cmd # cmd' # cmds)) b =
     set_call k (CallRunning rs (cmd' # cmds)) (give (Some k) cmd b)"
| "call_sends sem k (CallRunning [] [cmd]) b =
     set_call k CallEnded
       ((give (Some k) cmd b)\<lparr>br_slots := release_slot sem (request (bc_message (br_calls b ! k))) (br_slots b)\<rparr>)"
| "call_sends sem k _ b = b"

text \<open>\<open>JoinSet::shutdown\<close>, and its drop.\<close>

definition abort_call :: "bridge_call \<Rightarrow> bridge_call" where
  "abort_call bc = (if live_call bc then bc\<lparr>bc_phase := CallAborted\<rparr> else bc)"

definition abort_calls :: "'s semaphore \<Rightarrow> 's bridge \<Rightarrow> 's bridge" where
  "abort_calls sem b =
     b\<lparr>br_slots := fold (\<lambda>bc. release_slot sem (request (bc_message bc))) (filter live_call (br_calls b)) (br_slots b),
       br_calls := map abort_call (br_calls b)\<rparr>"

section \<open>The main task\<close>

text \<open>An early return drops the request tasks, both connection tasks and the output.\<close>

definition leave :: "'s semaphore \<Rightarrow> ustring + unit \<Rightarrow> 's bridge \<Rightarrow> 's bridge" where
  "leave sem result b =
     (abort_calls sem b)\<lparr>br_main := MainReturned result, br_open := False,
        br_forwarder := FwStopped, br_watcher := OwStopped\<rparr>"

definition send_or_fail :: "'s semaphore \<Rightarrow> output_command \<Rightarrow> 's bridge \<Rightarrow> 's bridge" where
  "send_or_fail sem cmd b = (if br_open b then give None cmd b else leave sem (err send_failed) b)"

definition read_request ::
  "'s semaphore \<Rightarrow> (ustring \<Rightarrow> ustring + client_message) \<Rightarrow> nat \<Rightarrow> next_result \<Rightarrow> 's bridge \<Rightarrow> 's bridge"
where
  "read_request sem parse byte_limit f b =
     (case f of
        Got fr \<Rightarrow>
          if \<not> br_open b then leave sem (err ''JSONL output closed before dispatch'') b
          else
            (case fr of
               TooLarge \<Rightarrow>
                 send_or_fail sem (ProtocolError (''JSONL request exceeds '' @ decimal byte_limit @ '' bytes'')) b
             | Line l \<Rightarrow>
                 (case parse_request parse l of
                    Skip \<Rightarrow> b
                  | Malformed e \<Rightarrow> send_or_fail sem (ProtocolError e) b
                  | Parsed m \<Rightarrow>
                      (case request m of
                         Shutdown rid \<Rightarrow> b\<lparr>br_main := MainDraining (Some rid)\<rparr>
                       | _ \<Rightarrow> spawn_call sem m b)))
      | EndOfStream \<Rightarrow> b\<lparr>br_main := MainDraining None\<rparr>
      | Dropped \<Rightarrow> b
      | _ \<Rightarrow> leave sem (err ''read JSONL request'') b)"

text \<open>Draining ends when every request task has ended, or at its deadline, if there is one.\<close>

definition drain_calls :: "'s semaphore \<Rightarrow> nat option \<Rightarrow> bool \<Rightarrow> 's bridge \<Rightarrow> 's bridge" where
  "drain_calls sem timeout expired b =
     (case br_main b of
        MainDraining rid \<Rightarrow>
          if \<forall>bc \<in> set (br_calls b). \<not> live_call bc then b\<lparr>br_main := MainCancelling rid\<rparr>
          else if expired \<and> timeout \<noteq> None then (abort_calls sem b)\<lparr>br_main := MainCancelling rid\<rparr>
          else b
      | _ \<Rightarrow> b)"

definition cancel_step :: "environment \<Rightarrow> ustring list \<Rightarrow> 's bridge \<Rightarrow> 's bridge" where
  "cancel_step env ids b =
     (case br_main b of
        MainCancelling rid \<Rightarrow>
          b\<lparr>br_requests := br_requests b @ map (Pair None) (cancel_active env ids), br_main := MainEnding rid\<rparr>
      | _ \<Rightarrow> b)"

definition end_step :: "'s semaphore \<Rightarrow> 's bridge \<Rightarrow> 's bridge" where
  "end_step sem b =
     (case br_main b of
        MainEnding None \<Rightarrow> b\<lparr>br_main := MainWaiting\<rparr>
      | MainEnding (Some rid) \<Rightarrow>
          if br_open b then (give None (OutShutdown rid) b)\<lparr>br_main := MainWaiting\<rparr>
          else leave sem (err send_failed) b
      | _ \<Rightarrow> b)"

section \<open>The machine\<close>

datatype bridge_event =
    BridgeFrame next_result
  | OutputGone
  | OutputObserved "ustring + unit"
  | ForwarderMoves forwarder_event
  | WatcherMoves watcher_event
  | StartCall nat environment
  | CallRequests nat
  | CallSends nat
  | DrainCalls bool
  | CancelActive environment "ustring list"
  | EndBridge
  | OutputFinished "ustring + unit"
  | TasksAborted

fun past_ending :: "main_phase \<Rightarrow> bool" where
  "past_ending MainWaiting = True"
| "past_ending (MainReturned _) = True"
| "past_ending _ = False"

definition call_in :: "nat \<Rightarrow> 's bridge \<Rightarrow> call_phase option" where
  "call_in k b = (if k < length (br_calls b) then Some (bc_phase (br_calls b ! k)) else None)"

fun bridge_step ::
  "'s semaphore \<Rightarrow> (ustring \<Rightarrow> ustring + client_message) \<Rightarrow> (ustring \<Rightarrow> json option) \<Rightarrow> bridge_config
     \<Rightarrow> bridge_event \<Rightarrow> 's bridge \<Rightarrow> 's bridge"
where
  "bridge_step sem parse parse_json config (BridgeFrame f) b =
     (if br_main b = MainReading then read_request sem parse (bg_request_bytes config) f b else b)"
| "bridge_step sem parse parse_json config OutputGone b = b\<lparr>br_open := False\<rparr>"
| "bridge_step sem parse parse_json config (OutputObserved r) b =
     (if br_main b = MainReading \<and> \<not> br_open b then leave sem r b else b)"
| "bridge_step sem parse parse_json config (ForwarderMoves ev) b = forwarder_step parse_json ev b"
| "bridge_step sem parse parse_json config (WatcherMoves ev) b = watcher_step (bg_endpoint config) ev b"
| "bridge_step sem parse parse_json config (StartCall k env) b =
     (if call_in k b = Some CallSpawned then start_call env k b else b)"
| "bridge_step sem parse parse_json config (CallRequests k) b =
     (case call_in k b of None \<Rightarrow> b | Some ph \<Rightarrow> call_requests k ph b)"
| "bridge_step sem parse parse_json config (CallSends k) b =
     (case call_in k b of None \<Rightarrow> b | Some ph \<Rightarrow> call_sends sem k ph b)"
| "bridge_step sem parse parse_json config (DrainCalls expired) b =
     drain_calls sem (bg_shutdown_timeout config) expired b"
| "bridge_step sem parse parse_json config (CancelActive env ids) b = cancel_step env ids b"
| "bridge_step sem parse parse_json config EndBridge b = end_step sem b"
| "bridge_step sem parse parse_json config (OutputFinished r) b =
     (if br_main b = MainWaiting then leave sem r b else b)"
| "bridge_step sem parse parse_json config TasksAborted b =
     (if past_ending (br_main b) then b\<lparr>br_forwarder := FwStopped, br_watcher := OwStopped\<rparr> else b)"

definition run_bridge ::
  "'s semaphore \<Rightarrow> (ustring \<Rightarrow> ustring + client_message) \<Rightarrow> (ustring \<Rightarrow> json option) \<Rightarrow> bridge_config
     \<Rightarrow> bridge_event list \<Rightarrow> 's bridge"
where
  "run_bridge sem parse parse_json config evs = fold (bridge_step sem parse parse_json config) evs (bridge_new sem config)"

section \<open>What a step adds\<close>

definition told :: "nat \<Rightarrow> 's bridge \<Rightarrow> output_command list" where
  "told k b = map snd (filter (\<lambda>e. fst e = Some k) (br_sent b))"

definition asked :: "nat \<Rightarrow> 's bridge \<Rightarrow> dbus_request list" where
  "asked k b = map snd (filter (\<lambda>e. fst e = Some k) (br_requests b))"

fun ends_output :: "nat option \<times> output_command \<Rightarrow> bool" where
  "ends_output (None, OutShutdown _) = True"
| "ends_output _ = False"

text \<open>A step of the connection tasks: they only talk to the output, and never end it.\<close>

definition quiet :: "'s bridge \<Rightarrow> 's bridge \<Rightarrow> bool" where
  "quiet b b' \<longleftrightarrow> br_calls b' = br_calls b \<and> br_slots b' = br_slots b \<and> br_main b' = br_main b
     \<and> br_open b' = br_open b \<and> br_requests b' = br_requests b
     \<and> (\<exists>cmds. br_sent b' = br_sent b @ map (Pair None) cmds \<and> (\<forall>c \<in> set cmds. \<not> ends_output (None, c)))"

lemma quiet_fields [simp]:
  "quiet b (b'\<lparr>br_connection := rc\<rparr>) = quiet b b'" "quiet b (b'\<lparr>br_forwarder := fw\<rparr>) = quiet b b'"
  "quiet b (b'\<lparr>br_last_error := e\<rparr>) = quiet b b'" "quiet b (b'\<lparr>br_delay := d\<rparr>) = quiet b b'"
  "quiet b (b'\<lparr>br_watcher := w\<rparr>) = quiet b b'"
  by (simp_all add: quiet_def)

lemma quiet_refl [simp]: "quiet b b"
  by (auto simp: quiet_def intro: exI [of _ "[]"])

lemma quiet_give [simp]: "\<not> ends_output (None, cmd) \<Longrightarrow> quiet b (give None cmd b)"
  by (auto simp: quiet_def give_def intro: exI [of _ "[]"] exI [of _ "[cmd]"])

lemma quiet_forwarder: "quiet b (forwarder_step parse_json ev b)"
proof (cases ev)
  case (FwSignal signal)
  have "quiet b (forward_signal parse_json signal b)"
    by (cases "(parse_json, signal)" rule: event_command.cases) (simp_all add: forward_signal_def)
  with FwSignal show ?thesis by (simp split: forwarder_phase.split)
next
  case FwContinue
  then show ?thesis
    by (simp add: forwarder_continue_def report_transport_error_def split: forwarder_phase.split)
qed (simp_all split: forwarder_phase.split prod.split sum.split)

lemma quiet_watcher: "quiet b (watcher_step exe ev b)"
  by (cases ev) (simp_all split: watcher_phase.split prod.split sum.split)

declare execute_request.simps [simp del]

text \<open>The history of one request task, as long as the output has lived and after it.\<close>

definition all_commands :: "request_run \<Rightarrow> output_command list" where
  "all_commands run = emitted run @ [final run]"

definition call_ok :: "bridge_call \<Rightarrow> dbus_request list \<Rightarrow> output_command list \<Rightarrow> bool \<Rightarrow> bool" where
  "call_ok bc rs cs lives \<longleftrightarrow> \<not> is_shutdown (request (bc_message bc)) \<and>
     (case bc_phase bc of
        CallSpawned \<Rightarrow> rs = [] \<and> cs = []
      | CallRunning rs' cs' \<Rightarrow> cs' \<noteq> [] \<and>
          (\<exists>env pre. rs @ rs' = dispatched (execute_request env (bc_message bc))
             \<and> pre @ cs' = all_commands (execute_request env (bc_message bc)) \<and> prefix cs pre \<and> (lives \<longrightarrow> cs = pre))
      | CallEnded \<Rightarrow>
          (\<exists>env. rs = dispatched (execute_request env (bc_message bc))
             \<and> prefix cs (all_commands (execute_request env (bc_message bc)))
             \<and> (lives \<longrightarrow> cs = all_commands (execute_request env (bc_message bc))))
      | CallAborted \<Rightarrow>
          (\<exists>env. prefix rs (dispatched (execute_request env (bc_message bc)))
             \<and> prefix cs (emitted (execute_request env (bc_message bc)))))"

definition calls_inv :: "'s bridge \<Rightarrow> bool" where
  "calls_inv b \<longleftrightarrow>
     (\<forall>k. if k < length (br_calls b) then call_ok (br_calls b ! k) (asked k b) (told k b) (br_open b)
          else asked k b = [] \<and> told k b = [])"

lemma call_ok_closed: "call_ok bc rs cs lives \<Longrightarrow> call_ok bc rs cs False"
  by (auto simp: call_ok_def split: call_phase.splits)

lemma unfinished_prefix:
  assumes "pre @ cs = all_commands run" "cs \<noteq> []" shows "prefix pre (emitted run)"
proof -
  have "emitted run = butlast (pre @ cs)" by (simp add: assms(1) all_commands_def)
  also have "\<dots> = pre @ butlast cs" using assms(2) by (simp add: butlast_append)
  finally show ?thesis by (rule prefixI)
qed

lemma call_ok_abort:
  assumes "call_ok bc rs cs lives" "lives' \<longrightarrow> lives"
  shows "call_ok (abort_call bc) rs cs lives'"
proof (cases "bc_phase bc")
  case (CallRunning rs' cs')
  then obtain env pre where run: "rs @ rs' = dispatched (execute_request env (bc_message bc))"
      "pre @ cs' = all_commands (execute_request env (bc_message bc))" "prefix cs pre" "cs' \<noteq> []"
    using assms by (auto simp: call_ok_def)
  then have "prefix cs (emitted (execute_request env (bc_message bc)))"
    using prefix_order.trans [OF run(3) unfinished_prefix] by blast
  moreover have "prefix rs (dispatched (execute_request env (bc_message bc)))"
    using run(1) by (metis prefixI)
  ultimately show ?thesis using assms CallRunning by (auto simp: abort_call_def call_ok_def)
qed (use assms in \<open>auto simp: abort_call_def call_ok_def\<close>)

lemma told_fields [simp]:
  "told k (b\<lparr>br_connection := rc\<rparr>) = told k b" "told k (b\<lparr>br_forwarder := fw\<rparr>) = told k b"
  "told k (b\<lparr>br_watcher := w\<rparr>) = told k b" "told k (b\<lparr>br_slots := s\<rparr>) = told k b"
  "told k (b\<lparr>br_calls := cs\<rparr>) = told k b" "told k (b\<lparr>br_main := m\<rparr>) = told k b"
  "told k (b\<lparr>br_open := x\<rparr>) = told k b" "told k (b\<lparr>br_requests := rs\<rparr>) = told k b"
  "told k (set_call j ph b) = told k b"
  by (simp_all add: told_def set_call_def)

lemma asked_fields [simp]:
  "asked k (b\<lparr>br_connection := rc\<rparr>) = asked k b" "asked k (b\<lparr>br_forwarder := fw\<rparr>) = asked k b"
  "asked k (b\<lparr>br_watcher := w\<rparr>) = asked k b" "asked k (b\<lparr>br_slots := s\<rparr>) = asked k b"
  "asked k (b\<lparr>br_calls := cs\<rparr>) = asked k b" "asked k (b\<lparr>br_main := m\<rparr>) = asked k b"
  "asked k (b\<lparr>br_open := x\<rparr>) = asked k b" "asked k (b\<lparr>br_sent := ss\<rparr>) = asked k b"
  "asked k (set_call j ph b) = asked k b" "asked k (give who cmd b) = asked k b"
  by (simp_all add: asked_def set_call_def give_def)

lemma told_give:
  "told k (give who cmd b) = told k b @ (if br_open b \<and> who = Some k then [cmd] else [])"
  by (simp add: told_def give_def)

lemma tagged_None [simp]: "filter (\<lambda>e. fst e = Some k) (map (Pair None) xs) = []"
  by (induction xs) simp_all

lemma give_fields [simp]:
  "br_calls (give who cmd b) = br_calls b" "br_open (give who cmd b) = br_open b"
  "br_main (give who cmd b) = br_main b" "br_slots (give who cmd b) = br_slots b"
  "br_requests (give who cmd b) = br_requests b"
  by (simp_all add: give_def)

lemma calls_inv_quiet:
  assumes "quiet b b'" "calls_inv b" shows "calls_inv b'"
proof -
  have "asked k b' = asked k b" "told k b' = told k b" for k
    using assms(1) by (auto simp: quiet_def asked_def told_def)
  with assms show ?thesis by (simp add: quiet_def calls_inv_def)
qed

lemma calls_inv_fields [simp]:
  "calls_inv (b\<lparr>br_main := m\<rparr>) = calls_inv b" "calls_inv (b\<lparr>br_slots := s\<rparr>) = calls_inv b"
  "calls_inv (b\<lparr>br_forwarder := fw\<rparr>) = calls_inv b" "calls_inv (b\<lparr>br_watcher := w\<rparr>) = calls_inv b"
  by (simp_all add: calls_inv_def)

lemma calls_inv_give: "calls_inv (give None cmd b) = calls_inv b"
  by (simp add: calls_inv_def told_give)


lemma calls_invD: "calls_inv b \<Longrightarrow> k < length (br_calls b) \<Longrightarrow>
    call_ok (br_calls b ! k) (asked k b) (told k b) (br_open b)"
  unfolding calls_inv_def by meson

lemma calls_inv_map:
  assumes "calls_inv b" "br_calls b' = map f (br_calls b)" "\<And>k. asked k b' = asked k b" "\<And>k. told k b' = told k b"
    and "\<And>bc rs cs. call_ok bc rs cs (br_open b) \<Longrightarrow> call_ok (f bc) rs cs (br_open b')"
  shows "calls_inv b'"
  unfolding calls_inv_def
proof
  fix k
  show "if k < length (br_calls b') then call_ok (br_calls b' ! k) (asked k b') (told k b') (br_open b')
      else asked k b' = [] \<and> told k b' = []"
    using assms(1) [unfolded calls_inv_def, THEN spec, of k] assms(2-5) by (cases "k < length (br_calls b)") simp_all
qed

lemma calls_inv_closed: "calls_inv b \<Longrightarrow> calls_inv (b\<lparr>br_open := False\<rparr>)"
  by (erule calls_inv_map [where f = "\<lambda>bc. bc"]) (simp_all add: call_ok_closed)

lemma calls_inv_abort: "calls_inv b \<Longrightarrow> calls_inv (abort_calls sem b)"
  by (erule calls_inv_map [where f = abort_call]) (simp_all add: abort_calls_def call_ok_abort)

lemma calls_inv_leave: "calls_inv b \<Longrightarrow> calls_inv (leave sem r b)"
  by (erule calls_inv_map [where f = abort_call]) (simp_all add: leave_def abort_calls_def call_ok_abort)

lemma calls_inv_spawn:
  assumes "calls_inv b" "\<not> is_shutdown (request m)" shows "calls_inv (spawn_call sem m b)"
proof (cases "acquire_slot sem (request m) (br_slots b)")
  case None
  with assms show ?thesis by (simp add: spawn_call_def calls_inv_give)
next
  case (Some s)
  have ok: "if k < length (br_calls b) then call_ok (br_calls b ! k) (asked k b) (told k b) (br_open b)
          else asked k b = [] \<and> told k b = []" for k
    using assms(1) by (simp add: calls_inv_def)
  have new: "call_ok \<lparr>bc_message = m, bc_phase = CallSpawned\<rparr> [] [] lives" for lives
    using assms(2) by (simp add: call_ok_def)
  have "if k < length (br_calls b @ [\<lparr>bc_message = m, bc_phase = CallSpawned\<rparr>])
      then call_ok ((br_calls b @ [\<lparr>bc_message = m, bc_phase = CallSpawned\<rparr>]) ! k) (asked k b) (told k b) (br_open b)
      else asked k b = [] \<and> told k b = []" for k
    using ok [of k] new by (cases "k < length (br_calls b)"; cases "k = length (br_calls b)") (simp_all add: nth_append)
  with Some show ?thesis by (simp add: spawn_call_def calls_inv_def)
qed

text \<open>One request task moves: its own history is carried on, the others keep theirs.\<close>

lemma calls_inv_move:
  assumes "calls_inv b" "k < length (br_calls b)"
    and "call_ok ((br_calls b ! k)\<lparr>bc_phase := ph\<rparr>) (asked k b') (told k b') (br_open b)"
    and "\<And>j. j \<noteq> k \<Longrightarrow> asked j b' = asked j b \<and> told j b' = told j b"
    and "br_calls b' = br_calls b" "br_open b' = br_open b"
  shows "calls_inv (set_call k ph b')"
proof -
  have "if j < length (br_calls b) then call_ok ((br_calls b)[k := (br_calls b ! k)\<lparr>bc_phase := ph\<rparr>] ! j)
      (asked j b') (told j b') (br_open b) else asked j b' = [] \<and> told j b' = []" for j
    using assms by (cases "j = k") (auto simp: calls_inv_def)
  then show ?thesis
    unfolding calls_inv_def told_fields asked_fields using assms(5,6) by (simp add: set_call_def)
qed

lemma call_in_Some: "call_in k b = Some ph \<longleftrightarrow> k < length (br_calls b) \<and> bc_phase (br_calls b ! k) = ph"
  by (auto simp: call_in_def)

lemma calls_inv_start:
  assumes "calls_inv b" "call_in k b = Some CallSpawned" shows "calls_inv (start_call env k b)"
proof -
  have k: "k < length (br_calls b)" and "bc_phase (br_calls b ! k) = CallSpawned"
    using assms(2) by (simp_all add: call_in_Some)
  then have "asked k b = []" "told k b = []" "\<not> is_shutdown (request (bc_message (br_calls b ! k)))"
    using calls_invD [OF assms(1) k] by (simp_all add: call_ok_def)
  then show ?thesis
    unfolding start_call_def Let_def
    by (intro calls_inv_move [OF assms(1) k]) (auto simp: call_ok_def all_commands_def)
qed

lemma running_history:
  assumes "calls_inv b" "call_in k b = Some (CallRunning rs cs)"
  obtains env pre where "asked k b @ rs = dispatched (execute_request env (bc_message (br_calls b ! k)))"
    "pre @ cs = all_commands (execute_request env (bc_message (br_calls b ! k)))" "cs \<noteq> []"
    "prefix (told k b) pre" "br_open b \<longrightarrow> told k b = pre"
    "\<not> is_shutdown (request (bc_message (br_calls b ! k)))"
proof -
  have "call_ok (br_calls b ! k) (asked k b) (told k b) (br_open b)" "bc_phase (br_calls b ! k) = CallRunning rs cs"
    using assms calls_invD [of b k] by (simp_all add: call_in_Some)
  then show ?thesis using that by (auto simp: call_ok_def)
qed

lemma asked_request:
  "asked j (b\<lparr>br_requests := br_requests b @ [(Some k, r)]\<rparr>) = asked j b @ (if j = k then [r] else [])"
  by (simp add: asked_def)

lemma calls_inv_requests:
  assumes "calls_inv b" "call_in k b = Some ph" shows "calls_inv (call_requests k ph b)"
proof (cases "(k, ph, b)" rule: call_requests.cases)
  case (1 k' r rs cs b')
  then have ph: "ph = CallRunning (r # rs) cs" by simp
  obtain env pre where h: "asked k b @ r # rs = dispatched (execute_request env (bc_message (br_calls b ! k)))"
    "pre @ cs = all_commands (execute_request env (bc_message (br_calls b ! k)))" "cs \<noteq> []"
    "prefix (told k b) pre" "br_open b \<longrightarrow> told k b = pre"
    "\<not> is_shutdown (request (bc_message (br_calls b ! k)))"
    using running_history [OF assms(1)] assms(2) ph by blast
  let ?b = "b\<lparr>br_requests := br_requests b @ [(Some k, r)]\<rparr>"
  have "calls_inv (set_call k (CallRunning rs cs) ?b)"
  proof (rule calls_inv_move [OF assms(1)])
    show "call_ok ((br_calls b ! k)\<lparr>bc_phase := CallRunning rs cs\<rparr>) (asked k ?b) (told k ?b) (br_open b)"
      using h by (auto simp: call_ok_def asked_request intro!: exI [of _ env] exI [of _ pre])
  qed (use assms(2) in \<open>simp_all add: call_in_Some asked_request\<close>)
  then show ?thesis by (simp add: ph)
qed (use assms(1) in simp_all)


lemma prefix_told: "prefix cs pre \<Longrightarrow> prefix cs (pre @ xs)"
  by (simp add: prefix_prefix)

lemma calls_inv_sends:
  assumes "calls_inv b" "call_in k b = Some ph" shows "calls_inv (call_sends sem k ph b)"
proof (cases "(sem, k, ph, b)" rule: call_sends.cases)
  case (1 sem' k' rs cmd cmd' cmds b')
  then have ph: "ph = CallRunning rs (cmd # cmd' # cmds)" by simp
  obtain env pre where h: "asked k b @ rs = dispatched (execute_request env (bc_message (br_calls b ! k)))"
    "pre @ cmd # cmd' # cmds = all_commands (execute_request env (bc_message (br_calls b ! k)))"
    "prefix (told k b) pre" "br_open b \<longrightarrow> told k b = pre"
    "\<not> is_shutdown (request (bc_message (br_calls b ! k)))"
    using running_history [OF assms(1)] assms(2) ph by blast
  have "calls_inv (set_call k (CallRunning rs (cmd' # cmds)) (give (Some k) cmd b))"
  proof (rule calls_inv_move [OF assms(1)])
    show "call_ok ((br_calls b ! k)\<lparr>bc_phase := CallRunning rs (cmd' # cmds)\<rparr>)
        (asked k (give (Some k) cmd b)) (told k (give (Some k) cmd b)) (br_open b)"
      using h by (auto simp: call_ok_def told_give prefix_told intro!: exI [of _ env] exI [of _ "pre @ [cmd]"])
  qed (use assms(2) in \<open>simp_all add: call_in_Some told_give\<close>)
  then show ?thesis by (simp add: ph)
next
  case (2 sem' k' cmd b')
  then have ph: "ph = CallRunning [] [cmd]" by simp
  obtain env pre where h: "asked k b = dispatched (execute_request env (bc_message (br_calls b ! k)))"
    "pre @ [cmd] = all_commands (execute_request env (bc_message (br_calls b ! k)))"
    "prefix (told k b) pre" "br_open b \<longrightarrow> told k b = pre"
    "\<not> is_shutdown (request (bc_message (br_calls b ! k)))"
    using running_history [OF assms(1)] assms(2) ph by (metis append_Nil2)
  let ?b = "(give (Some k) cmd b)\<lparr>br_slots := release_slot sem (request (bc_message (br_calls b ! k))) (br_slots b)\<rparr>"
  have "calls_inv (set_call k CallEnded ?b)"
  proof (rule calls_inv_move [OF assms(1)])
    show "call_ok ((br_calls b ! k)\<lparr>bc_phase := CallEnded\<rparr>) (asked k ?b) (told k ?b) (br_open b)"
      using h(1,3,4,5)
      by (auto simp: call_ok_def told_give h(2) [symmetric] prefix_told intro!: exI [of _ env])
  qed (use assms(2) in \<open>simp_all add: call_in_Some told_give\<close>)
  then show ?thesis by (simp add: ph)
qed (use assms(1) in simp_all)

lemma calls_inv_read:
  assumes "calls_inv b" shows "calls_inv (read_request sem parse byte_limit f b)"
proof -
  have "calls_inv (send_or_fail sem cmd b)" for cmd
    using assms calls_inv_leave [OF assms] by (simp add: send_or_fail_def calls_inv_give)
  then show ?thesis
    using assms calls_inv_leave [OF assms] calls_inv_spawn [OF assms]
    by (simp add: read_request_def is_shutdown_def split: next_result.split frame.split parsed.split client_request.split)
qed

lemma calls_inv_step:
  assumes inv: "calls_inv b" shows "calls_inv (bridge_step sem parse parse_json config ev b)"
proof (cases ev)
  case (BridgeFrame f)
  with inv show ?thesis by (simp add: calls_inv_read)
next
  case OutputGone
  with inv show ?thesis by (simp add: calls_inv_closed)
next
  case (ForwarderMoves e)
  with calls_inv_quiet [OF quiet_forwarder inv] show ?thesis by simp
next
  case (WatcherMoves e)
  with calls_inv_quiet [OF quiet_watcher inv] show ?thesis by simp
next
  case (StartCall k env)
  with inv show ?thesis by (simp add: calls_inv_start)
next
  case (CallRequests k)
  with inv show ?thesis by (simp add: calls_inv_requests split: option.split)
next
  case (CallSends k)
  with inv show ?thesis by (simp add: calls_inv_sends split: option.split)
next
  case (DrainCalls expired)
  with inv show ?thesis by (simp add: drain_calls_def calls_inv_abort split: main_phase.split)
next
  case (CancelActive env ids)
  have "calls_inv (b\<lparr>br_requests := br_requests b @ map (Pair None) rs, br_main := m\<rparr>)" for rs m
    by (rule calls_inv_map [OF inv, where f = "\<lambda>bc. bc"]) (simp_all add: asked_def)
  with CancelActive inv show ?thesis by (simp add: cancel_step_def split: main_phase.split)
next
  case EndBridge
  with inv show ?thesis
    by (simp add: end_step_def calls_inv_give calls_inv_leave split: main_phase.split option.split)
qed (use inv in \<open>simp_all add: calls_inv_leave\<close>)

section \<open>Ending\<close>

definition settled_calls :: "'s bridge \<Rightarrow> bool" where
  "settled_calls b \<longleftrightarrow> (\<forall>bc \<in> set (br_calls b). \<not> live_call bc)"

fun past_draining :: "main_phase \<Rightarrow> bool" where
  "past_draining MainReading = False"
| "past_draining (MainDraining _) = False"
| "past_draining _ = True"

fun returned :: "main_phase \<Rightarrow> bool" where
  "returned (MainReturned _) = True"
| "returned _ = False"

definition answered_fully :: "nat \<Rightarrow> 's bridge \<Rightarrow> bool" where
  "answered_fully k b \<longleftrightarrow> (\<exists>env. told k b = all_commands (execute_request env (bc_message (br_calls b ! k))))"

definition ending_inv :: "nat option \<Rightarrow> 's bridge \<Rightarrow> bool" where
  "ending_inv timeout b \<longleftrightarrow>
     (past_draining (br_main b) \<longrightarrow> settled_calls b)
     \<and> (timeout = None \<and> \<not> returned (br_main b) \<longrightarrow> (\<forall>bc \<in> set (br_calls b). bc_phase bc \<noteq> CallAborted))
     \<and> ((\<exists>e \<in> set (br_sent b). ends_output e) \<longrightarrow> past_ending (br_main b)
          \<and> (timeout = None \<longrightarrow> (\<forall>k < length (br_calls b). answered_fully k b)))
     \<and> (\<forall>e \<in> set (dropWhile (\<lambda>e. \<not> ends_output e) (br_sent b)). fst e = None)"

lemma ends_output_None: "ends_output e \<Longrightarrow> fst e = None"
  by (cases e rule: ends_output.cases) simp_all

lemma past_ending_draining: "past_ending m \<Longrightarrow> past_draining m" "returned m \<Longrightarrow> past_ending m"
  by (cases m; simp)+

lemma never_ended: "\<forall>e \<in> set xs. \<not> ends_output e \<Longrightarrow> dropWhile (\<lambda>e. \<not> ends_output e) xs = []"
  by (induction xs) simp_all

lemma dropWhile_untagged:
  assumes "\<forall>e \<in> set (dropWhile (\<lambda>e. \<not> ends_output e) xs). fst e = None"
    and "(\<exists>e \<in> set xs. ends_output e) \<longrightarrow> (\<forall>e \<in> set ys. fst e = None)" and "\<forall>e \<in> set ys. ends_output e \<longrightarrow> ys = [e]"
  shows "\<forall>e \<in> set (dropWhile (\<lambda>e. \<not> ends_output e) (xs @ ys)). fst e = None"
proof (cases "\<exists>e \<in> set xs. ends_output e")
  case True
  then show ?thesis using assms(1,2) by (auto simp: dropWhile_append)
next
  case False
  then have "dropWhile (\<lambda>e. \<not> ends_output e) (xs @ ys) = dropWhile (\<lambda>e. \<not> ends_output e) ys"
    by (simp add: dropWhile_append)
  moreover have "\<forall>e \<in> set (dropWhile (\<lambda>e. \<not> ends_output e) ys). fst e = None"
  proof (cases "\<exists>e \<in> set ys. ends_output e")
    case True
    then obtain e where "ys = [e]" "ends_output e" using assms(3) by blast
    then show ?thesis by (simp add: ends_output_None)
  next
    case False
    then have "dropWhile (\<lambda>e. \<not> ends_output e) ys = []" by (intro never_ended) blast
    then show ?thesis by (metis empty_iff empty_set)
  qed
  ultimately show ?thesis by simp
qed


lemma answered_fully_same:
  "told k b' = told k b \<Longrightarrow> bc_message (br_calls b' ! k) = bc_message (br_calls b ! k) \<Longrightarrow>
    answered_fully k b' = answered_fully k b"
  by (simp add: answered_fully_def)

lemma ending_inv_quiet:
  assumes "quiet b b'" "ending_inv timeout b" shows "ending_inv timeout b'"
proof -
  obtain cmds where q: "br_calls b' = br_calls b" "br_main b' = br_main b"
      "br_sent b' = br_sent b @ map (Pair None) cmds" "\<forall>c \<in> set cmds. \<not> ends_output (None, c)"
    using assms(1) by (auto simp: quiet_def)
  have told: "told k b' = told k b" for k by (simp add: told_def q(3))
  have "(\<exists>e \<in> set (br_sent b'). ends_output e) = (\<exists>e \<in> set (br_sent b). ends_output e)"
    using q(3,4) by auto
  moreover have "\<forall>e \<in> set (dropWhile (\<lambda>e. \<not> ends_output e) (br_sent b')). fst e = None"
    unfolding q(3) by (rule dropWhile_untagged) (use assms(2) q(4) in \<open>auto simp: ending_inv_def\<close>)
  moreover have "answered_fully k b' = answered_fully k b" for k
    by (rule answered_fully_same) (simp_all add: told q(1))
  ultimately show ?thesis using assms(2) q(1,2) by (simp add: ending_inv_def settled_calls_def)
qed

lemma settled_abort: "settled_calls (abort_calls sem b)"
  by (auto simp: settled_calls_def abort_calls_def abort_call_def)

lemma abort_call_message [simp]: "bc_message (abort_call bc) = bc_message bc"
  by (simp add: abort_call_def)

lemma abort_calls_fields [simp]:
  "br_sent (abort_calls sem b) = br_sent b" "length (br_calls (abort_calls sem b)) = length (br_calls b)"
  "br_main (abort_calls sem b) = br_main b" "br_open (abort_calls sem b) = br_open b"
  by (simp_all add: abort_calls_def)

lemma abort_calls_answered [simp]:
  "k < length (br_calls b) \<Longrightarrow> answered_fully k (abort_calls sem b) = answered_fully k b"
  by (rule answered_fully_same) (simp_all add: abort_calls_def)

lemma answered_fields [simp]:
  "answered_fully k (b\<lparr>br_main := m\<rparr>) = answered_fully k b" "answered_fully k (b\<lparr>br_open := x\<rparr>) = answered_fully k b"
  "answered_fully k (b\<lparr>br_forwarder := fw\<rparr>) = answered_fully k b"
  "answered_fully k (b\<lparr>br_watcher := w\<rparr>) = answered_fully k b"
  "answered_fully k (b\<lparr>br_requests := rs\<rparr>) = answered_fully k b"
  by (simp_all add: answered_fully_def)

lemma settled_fields [simp]:
  "settled_calls (b\<lparr>br_main := m\<rparr>) = settled_calls b" "settled_calls (b\<lparr>br_open := x\<rparr>) = settled_calls b"
  "settled_calls (b\<lparr>br_forwarder := fw\<rparr>) = settled_calls b" "settled_calls (b\<lparr>br_watcher := w\<rparr>) = settled_calls b"
  "settled_calls (b\<lparr>br_requests := rs\<rparr>) = settled_calls b" "settled_calls (give who cmd b) = settled_calls b"
  by (simp_all add: settled_calls_def)

lemma ending_inv_leave:
  assumes "ending_inv timeout b" shows "ending_inv timeout (leave sem r b)"
  using assms by (auto simp: ending_inv_def leave_def settled_abort)

lemma ending_inv_main:
  assumes "ending_inv timeout b" "past_draining m \<longrightarrow> settled_calls b" "past_ending (br_main b) \<longrightarrow> past_ending m"
    and "returned (br_main b) \<longrightarrow> returned m"
  shows "ending_inv timeout (b\<lparr>br_main := m\<rparr>)"
  using assms by (auto simp: ending_inv_def)

text \<open>Nothing has ended the output while a request task lives.\<close>

lemma live_not_ended:
  assumes "ending_inv timeout b" "call_in k b = Some ph" "ph \<noteq> CallEnded" "ph \<noteq> CallAborted"
  shows "\<not> past_draining (br_main b) \<and> (\<forall>e \<in> set (br_sent b). \<not> ends_output e)"
proof -
  have "live_call (br_calls b ! k)" "br_calls b ! k \<in> set (br_calls b)"
    using assms(2-4) by (auto simp: call_in_Some)
  then have "\<not> settled_calls b" by (auto simp: settled_calls_def)
  then have "\<not> past_draining (br_main b)" using assms(1) by (auto simp: ending_inv_def)
  then show ?thesis
    using assms(1) past_ending_draining(1) by (auto simp: ending_inv_def)
qed

lemma ending_inv_move:
  assumes inv: "ending_inv timeout b" and live: "call_in k b = Some ph" "ph \<noteq> CallEnded" "ph \<noteq> CallAborted"
    and moved: "br_calls b' = (br_calls b)[k := (br_calls b ! k)\<lparr>bc_phase := ph'\<rparr>]" "ph' \<noteq> CallAborted"
      "br_main b' = br_main b" "\<exists>cmds. br_sent b' = br_sent b @ map (Pair (Some k)) cmds"
  shows "ending_inv timeout b'"
proof -
  obtain cmds where sent: "br_sent b' = br_sent b @ map (Pair (Some k)) cmds" using moved(4) by blast
  have none: "\<not> past_draining (br_main b)" "\<forall>e \<in> set (br_sent b). \<not> ends_output e"
    using live_not_ended [OF inv live] by blast+
  have tagged: "\<not> ends_output (Some k, c)" for c by simp
  have "\<forall>e \<in> set (br_sent b'). \<not> ends_output e" using none(2) sent tagged by auto
  moreover have "\<forall>bc \<in> set (br_calls b'). bc_phase bc \<noteq> CallAborted"
    if "timeout = None \<and> \<not> returned (br_main b)"
    using that inv moved(1,2) by (auto simp: ending_inv_def dest!: subsetD [OF set_update_subset_insert])
  ultimately show ?thesis
    using none(1) moved(3) by (simp add: ending_inv_def never_ended [of "br_sent b'"] del: dropWhile_eq_Nil_conv)
qed


lemma ending_inv_spawn:
  assumes inv: "ending_inv timeout b" and reading: "br_main b = MainReading"
  shows "ending_inv timeout (spawn_call sem m b)"
proof (cases "acquire_slot sem (request m) (br_slots b)")
  case None
  with ending_inv_quiet [OF quiet_give inv] show ?thesis by (simp add: spawn_call_def)
next
  case (Some s)
  have "\<forall>e \<in> set (br_sent b). \<not> ends_output e" using inv reading by (auto simp: ending_inv_def)
  with Some inv reading show ?thesis by (auto simp: spawn_call_def ending_inv_def)
qed

lemma ending_inv_read:
  assumes inv: "ending_inv timeout b" and reading: "br_main b = MainReading"
  shows "ending_inv timeout (read_request sem parse byte_limit f b)"
proof -
  have "ending_inv timeout (send_or_fail sem (ProtocolError e) b)" for e
    using ending_inv_quiet [OF quiet_give inv] ending_inv_leave [OF inv] by (simp add: send_or_fail_def)
  moreover have "ending_inv timeout (b\<lparr>br_main := MainDraining rid\<rparr>)" for rid
    using inv reading by (intro ending_inv_main) simp_all
  ultimately show ?thesis
    using inv ending_inv_leave [OF inv] ending_inv_spawn [OF inv reading]
    by (simp add: read_request_def split: next_result.split frame.split parsed.split client_request.split)
qed

lemma ending_inv_requests:
  assumes inv: "ending_inv timeout b" and k: "call_in k b = Some ph"
  shows "ending_inv timeout (call_requests k ph b)"
proof (cases "(k, ph, b)" rule: call_requests.cases)
  case (1 k' r rs cs b')
  have "ending_inv timeout (call_requests k (CallRunning (r # rs) cs) b)"
    by (rule ending_inv_move [OF inv k, where ph' = "CallRunning rs cs"])
       (use 1 in \<open>simp_all add: set_call_def\<close>)
  with 1 show ?thesis by simp
qed (use inv in simp_all)

lemma ending_inv_sends:
  assumes inv: "ending_inv timeout b" and k: "call_in k b = Some ph"
  shows "ending_inv timeout (call_sends sem k ph b)"
proof -
  have sent: "\<exists>cmds. br_sent (give (Some k) cmd b) = br_sent b @ map (Pair (Some k)) cmds" for cmd
    by (auto simp: give_def intro: exI [of _ "[]"] exI [of _ "[cmd]"])
  show ?thesis
  proof (cases "(sem, k, ph, b)" rule: call_sends.cases)
    case (1 sem' k' rs cmd cmd' cmds b')
    have "ending_inv timeout (call_sends sem k (CallRunning rs (cmd # cmd' # cmds)) b)"
      by (rule ending_inv_move [OF inv k, where ph' = "CallRunning rs (cmd' # cmds)"])
         (use 1 sent in \<open>simp_all add: set_call_def\<close>)
    with 1 show ?thesis by simp
  next
    case (2 sem' k' cmd b')
    have "ending_inv timeout (call_sends sem k (CallRunning [] [cmd]) b)"
      by (rule ending_inv_move [OF inv k, where ph' = CallEnded])
         (use 2 sent in \<open>simp_all add: set_call_def\<close>)
    with 2 show ?thesis by simp
  qed (use inv in simp_all)
qed

text \<open>The shutdown command goes out with every request answered, unless a deadline has cut the draining short.\<close>

lemma ending_inv_shutdown:
  assumes calls: "calls_inv b" and inv: "ending_inv timeout b" and main: "br_main b = MainEnding rid" and lives: "br_open b"
  shows "ending_inv timeout ((give None (OutShutdown i) b)\<lparr>br_main := MainWaiting\<rparr>)"
proof -
  have settled: "settled_calls b" and none: "\<forall>e \<in> set (br_sent b). \<not> ends_output e"
    using inv main by (auto simp: ending_inv_def)
  have "answered_fully k b" if "timeout = None" "k < length (br_calls b)" for k
  proof -
    have "br_calls b ! k \<in> set (br_calls b)" using that(2) by simp
    then have "bc_phase (br_calls b ! k) = CallEnded"
      using settled inv main that(1) by (auto simp: settled_calls_def ending_inv_def)
    then show ?thesis using calls_invD [OF calls that(2)] lives by (auto simp: call_ok_def answered_fully_def)
  qed
  moreover have "told k (give None (OutShutdown i) b) = told k b" for k by (simp add: told_give)
  ultimately have "timeout = None \<longrightarrow> (\<forall>k < length (br_calls b). answered_fully k (give None (OutShutdown i) b))"
    by (simp add: answered_fully_def)
  moreover have "\<forall>e \<in> set (dropWhile (\<lambda>e. \<not> ends_output e) (br_sent (give None (OutShutdown i) b))). fst e = None"
    using none lives by (simp add: give_def dropWhile_append never_ended del: dropWhile_eq_Nil_conv)
  ultimately show ?thesis
    using settled inv main by (auto simp: ending_inv_def)
qed

lemma ending_inv_step:
  assumes calls: "calls_inv b" and inv: "ending_inv (bg_shutdown_timeout config) b"
  shows "ending_inv (bg_shutdown_timeout config) (bridge_step sem parse parse_json config ev b)"
proof (cases ev)
  case (BridgeFrame f)
  with inv show ?thesis by (simp add: ending_inv_read)
next
  case OutputGone
  with inv show ?thesis by (auto simp: ending_inv_def)
next
  case (ForwarderMoves e)
  with ending_inv_quiet [OF quiet_forwarder inv] show ?thesis by simp
next
  case (WatcherMoves e)
  with ending_inv_quiet [OF quiet_watcher inv] show ?thesis by simp
next
  case (StartCall k env)
  show ?thesis
  proof (cases "call_in k b = Some CallSpawned")
    case True
    have "ending_inv (bg_shutdown_timeout config) (start_call env k b)"
      by (rule ending_inv_move [OF inv True]) (auto simp: start_call_def Let_def set_call_def)
    with StartCall True show ?thesis by simp
  qed (use StartCall inv in simp)
next
  case (CallRequests k)
  with inv show ?thesis by (simp add: ending_inv_requests split: option.split)
next
  case (CallSends k)
  with inv show ?thesis by (simp add: ending_inv_sends split: option.split)
next
  case (DrainCalls expired)
  show ?thesis
  proof (cases "br_main b")
    case (MainDraining rid)
    have "ending_inv (bg_shutdown_timeout config) (b\<lparr>br_main := MainCancelling rid\<rparr>)" if "settled_calls b"
      using that inv MainDraining by (intro ending_inv_main) simp_all
    moreover have "ending_inv (bg_shutdown_timeout config) ((abort_calls sem b)\<lparr>br_main := MainCancelling rid\<rparr>)"
      if "bg_shutdown_timeout config \<noteq> None"
      using that inv MainDraining by (auto simp: ending_inv_def settled_abort)
    ultimately show ?thesis
      using DrainCalls MainDraining inv by (simp add: drain_calls_def settled_calls_def)
  qed (use DrainCalls inv in \<open>simp_all add: drain_calls_def\<close>)
next
  case (CancelActive env ids)
  have "ending_inv (bg_shutdown_timeout config) (b\<lparr>br_requests := rs, br_main := MainEnding rid\<rparr>)"
    if "br_main b = MainCancelling rid" for rs rid
    using inv that by (auto simp: ending_inv_def)
  with CancelActive inv show ?thesis by (simp add: cancel_step_def split: main_phase.split)
next
  case EndBridge
  have "ending_inv (bg_shutdown_timeout config) (b\<lparr>br_main := MainWaiting\<rparr>)" if "br_main b = MainEnding rid" for rid
    using inv that by (intro ending_inv_main) (auto simp: ending_inv_def)
  with EndBridge inv ending_inv_shutdown [OF calls inv] ending_inv_leave [OF inv] show ?thesis
    by (simp add: end_step_def split: main_phase.split option.split)
next
  case TasksAborted
  with inv show ?thesis by (auto simp: ending_inv_def)
qed (use inv in \<open>simp_all add: ending_inv_leave\<close>)

interpretation bridge: step_invariant "bridge_step sem parse parse_json config"
    "\<lambda>b. calls_inv b \<and> ending_inv (bg_shutdown_timeout config) b" for sem parse parse_json config
  by unfold_locales (simp add: calls_inv_step ending_inv_step)


section \<open>Every request settles\<close>

definition answers_to :: "nat \<Rightarrow> 's bridge \<Rightarrow> output_command list" where
  "answers_to k b = filter (\<lambda>c. command_id c \<noteq> None) (told k b)"

lemma release_loop_anonymous:
  "release_loop env n ids = (ds, es, a) \<Longrightarrow> c \<in> set es \<Longrightarrow> command_id c = None"
  by (induction ids arbitrary: ds es a) (auto split: answer.splits if_splits prod.splits)

lemma with_transport_timeout_anonymous:
  "c \<in> set (fst (with_transport_timeout lives t a)) \<Longrightarrow> command_id c = None"
  by (auto simp: with_transport_timeout_cases split: answer.splits if_splits)

lemma release_consumer_anonymous:
  assumes "c \<in> set (fst (snd (release_consumer env rt)))" shows "command_id c = None"
proof (cases rt)
  case (Some r)
  obtain ds es a where loop: "release_loop env (length (env_owned env r)) (env_owned env r) = (ds, es, a)"
    by (metis prod.exhaust)
  have "c \<in> set es \<or> c \<in> set (fst (with_transport_timeout (env_output_open env) control_timeout a))"
    using assms Some loop by (simp add: release_consumer_def case_prod_beta)
  then show ?thesis using release_loop_anonymous [OF loop] with_transport_timeout_anonymous by blast
qed (use assms in \<open>simp add: release_consumer_def\<close>)

lemma emitted_anonymous:
  assumes "c \<in> set (emitted (execute_request env m))" shows "command_id c = None"
proof (cases "request m")
  case (Release rid)
  with assms release_consumer_anonymous show ?thesis by (simp add: execute_request.simps case_prod_beta)
next
  case (Subscribe rid streams)
  with assms show ?thesis
    by (auto simp: execute_request.simps Let_def case_prod_beta split: if_splits
        intro: with_transport_timeout_anonymous)
next
  case (Cancel rid request_id)
  with assms show ?thesis
    by (auto simp: execute_request.simps Let_def case_prod_beta intro: with_transport_timeout_anonymous)
qed (use assms in \<open>simp_all add: execute_request.simps split: if_splits\<close>)

lemma call_settles:
  assumes "calls_inv b" "k < length (br_calls b)"
  obtains env where "prefix (asked k b) (dispatched (execute_request env (bc_message (br_calls b ! k))))"
    "(told k b = all_commands (execute_request env (bc_message (br_calls b ! k)))
        \<and> asked k b = dispatched (execute_request env (bc_message (br_calls b ! k))))
      \<or> prefix (told k b) (emitted (execute_request env (bc_message (br_calls b ! k))))"
    "\<not> is_shutdown (request (bc_message (br_calls b ! k)))"
proof -
  let ?run = "\<lambda>env. execute_request env (bc_message (br_calls b ! k))"
  have ok: "call_ok (br_calls b ! k) (asked k b) (told k b) (br_open b)"
    using assms by (rule calls_invD)
  show ?thesis
  proof (cases "bc_phase (br_calls b ! k)")
    case (CallRunning rs' cs')
    then obtain env pre where e: "asked k b @ rs' = dispatched (?run env)" "pre @ cs' = all_commands (?run env)"
      "cs' \<noteq> []" "prefix (told k b) pre" "\<not> is_shutdown (request (bc_message (br_calls b ! k)))"
      using ok by (auto simp: call_ok_def)
    show ?thesis
    proof (rule that [of env])
      show "prefix (asked k b) (dispatched (?run env))" unfolding e(1) [symmetric] by simp
    qed (use e(5) prefix_order.trans [OF e(4) unfinished_prefix [OF e(2,3)]] in simp_all)
  next
    case CallSpawned
    with ok that show ?thesis by (simp add: call_ok_def)
  next
    case CallEnded
    then obtain env where e: "asked k b = dispatched (?run env)" "prefix (told k b) (all_commands (?run env))"
      "\<not> is_shutdown (request (bc_message (br_calls b ! k)))"
      using ok by (auto simp: call_ok_def)
    then show ?thesis by (intro that [of env]) (auto simp: all_commands_def)
  next
    case CallAborted
    with ok that show ?thesis by (auto simp: call_ok_def)
  qed
qed


lemma ended_output_split:
  assumes "ends_output x" shows "set (x # post) \<subseteq> set (dropWhile (\<lambda>e. \<not> ends_output e) (pre @ x # post))"
  using assms by (induction pre) auto

lemma bridge_invariants:
  "calls_inv (run_bridge sem parse parse_json config evs)
    \<and> ending_inv (bg_shutdown_timeout config) (run_bridge sem parse parse_json config evs)"
  unfolding run_bridge_def
  by (rule bridge.run_inv)
     (simp add: bridge_new_def calls_inv_def ending_inv_def asked_def told_def)

text \<open>
  C16. Every request the bridge admits settles, once. Whatever the interleaving of the reading loop, the
  request tasks, the event forwarder, the owner watcher and the end of the output, a request task gives
  at most one answer; the answer carries the request's own ID and route, and it says
  \<open>rejected-before-dispatch\<close> only when nothing was sent to the daemon; apart from a release a
  request sends at most one D-Bus request. When the shutdown command goes out, no task
  says anything after it, and, unless a drain deadline is configured, every admitted request has been
  answered before it.
\<close>

theorem bridge_settles_requests:
  assumes "b = run_bridge sem parse parse_json config evs" and "k < length (br_calls b)"
  shows "let m = bc_message (br_calls b ! k) in
    length (answers_to k b) \<le> 1 \<and> (\<not> is_release (request m) \<longrightarrow> length (asked k b) \<le> 1)
    \<and> (\<forall>cmd \<in> set (answers_to k b). command_id cmd = Some (req_id (request m)) \<and> command_route cmd = route m
         \<and> (rejected_unsent cmd \<longrightarrow> asked k b = []))
    \<and> (\<forall>pre rid post. br_sent b = pre @ (None, OutShutdown rid) # post \<longrightarrow>
         Some k \<notin> fst ` set post \<and> (bg_shutdown_timeout config = None \<longrightarrow> length (answers_to k b) = 1))"
proof -
  have inv: "calls_inv b" "ending_inv (bg_shutdown_timeout config) b"
    unfolding assms(1) using bridge_invariants by blast+
  let ?m = "bc_message (br_calls b ! k)"
  obtain env where env: "prefix (asked k b) (dispatched (execute_request env ?m))"
    "(told k b = all_commands (execute_request env ?m) \<and> asked k b = dispatched (execute_request env ?m))
      \<or> prefix (told k b) (emitted (execute_request env ?m))" "\<not> is_shutdown (request ?m)"
    using call_settles [OF inv(1) assms(2)] by blast
  have silent: "filter (\<lambda>c. command_id c \<noteq> None) cs = []" if "prefix cs (emitted (execute_request e ?m))" for cs e
    using that emitted_anonymous set_mono_prefix by (fastforce simp: filter_empty_conv)
  have full: "answers_to k b = [final (execute_request e ?m)]" if "told k b = all_commands (execute_request e ?m)" for e
    using silent [of "emitted (execute_request e ?m)" e]
    by (simp add: answers_to_def that all_commands_def execute_request_id del: not_None_eq)
  have one: "answers_to k b = [] \<or> (answers_to k b = [final (execute_request env ?m)] \<and> asked k b = dispatched (execute_request env ?m))"
    using env(2) full silent by (auto simp: answers_to_def)
  have "length (asked k b) \<le> 1" if "\<not> is_release (request ?m)"
    using execute_request_once [OF that, of env] prefix_length_le [OF env(1)] by simp
  moreover have "\<forall>cmd \<in> set (answers_to k b). command_id cmd = Some (req_id (request ?m)) \<and> command_route cmd = route ?m
         \<and> (rejected_unsent cmd \<longrightarrow> asked k b = [])"
    using one execute_request_id [of env ?m] execute_request_route [OF env(3), of env]
      execute_request_unsent [of env ?m] by (elim disjE) simp_all
  moreover have "Some k \<notin> fst ` set post \<and> (bg_shutdown_timeout config = None \<longrightarrow> length (answers_to k b) = 1)"
    if sent: "br_sent b = pre @ (None, OutShutdown rid) # post" for pre rid post
  proof -
    have "\<forall>e \<in> set (dropWhile (\<lambda>e. \<not> ends_output e) (br_sent b)). fst e = None"
      using inv(2) unfolding ending_inv_def by blast
    moreover have "set post \<subseteq> set (dropWhile (\<lambda>e. \<not> ends_output e) (br_sent b))"
      using ended_output_split [of "(None, OutShutdown rid)" post pre] unfolding sent by simp
    ultimately have "\<forall>e \<in> set post. fst e = None" by blast
    moreover have "\<exists>e \<in> set (br_sent b). ends_output e" unfolding sent by simp
    then have "answered_fully k b" if "bg_shutdown_timeout config = None"
      using inv(2) assms(2) that unfolding ending_inv_def by blast
    ultimately show ?thesis using full by (fastforce simp: answered_fully_def)
  qed
  ultimately show ?thesis using one unfolding Let_def by (elim disjE) simp_all
qed

text \<open>A call is answered while the bridge drains, and the shutdown follows; nothing remains.\<close>

definition demo_bridge_config :: bridge_config where
  "demo_bridge_config = \<lparr>bg_endpoint = ''d'', bg_max_in_flight = 1, bg_shutdown_timeout = None, bg_request_bytes = 64\<rparr>"

definition demo_lines :: "ustring \<Rightarrow> ustring + client_message" where
  "demo_lines l = Inr (if l = ''q'' then \<lparr>request = Shutdown ''q'', route = None\<rparr> else demo_call)"

definition demo_bridge_env :: environment where
  "demo_bridge_env = demo_env\<lparr>env_call := (\<lambda>_ _. Answer JNull)\<rparr>"

definition demo_bridge_events :: "bridge_event list" where
  "demo_bridge_events =
     [BridgeFrame (Got (Line ''c'')), BridgeFrame (Got (Line ''q'')), StartCall 0 demo_bridge_env, CallRequests 0,
      ForwarderMoves FwWake, ForwarderMoves (FwSession (Inr ())), CallSends 0, DrainCalls False,
      CancelActive demo_bridge_env [], EndBridge]"

definition demo_bridge :: "nat bridge" where
  "demo_bridge = run_bridge nat_semaphore demo_lines (\<lambda>_. None) demo_bridge_config demo_bridge_events"

lemmas demo_bridge_defs = demo_bridge_def run_bridge_def demo_bridge_events_def bridge_new_def demo_bridge_config_def
  read_request_def parse_request_def demo_lines_def demo_call_def demo_env_def demo_bridge_env_def validate_def
  spawn_call_def acquire_slot_def slots_new_def nat_semaphore_def call_in_def start_call_def
  execute_request.simps set_call_def Let_def give_def reconnecting_new_def client_get_def set_ready_def
  response_command_def drain_calls_def cancel_step_def cancel_active_def end_step_def release_slot_def byte_in_def

lemma demo_bridge_run:
  "length (br_calls demo_bridge) = 1" "map fst (br_sent demo_bridge) = [Some 0, None]"
  "br_sent demo_bridge = take 1 (br_sent demo_bridge) @ (None, OutShutdown ''q'') # []"
  by (simp_all add: demo_bridge_defs)

theorem bridge_settles_requests_witness: "length (answers_to 0 demo_bridge) = 1"
proof -
  have "bg_shutdown_timeout demo_bridge_config = None" "0 < length (br_calls demo_bridge)"
    by (simp_all add: demo_bridge_config_def demo_bridge_run(1))
  then show ?thesis
    using bridge_settles_requests [OF demo_bridge_def, of 0] demo_bridge_run(3) unfolding Let_def by blast
qed

end
