(* ===== verification/Bridge_Recovery.thy ===== *)
theory Bridge_Recovery
  imports Bridge_Run
begin

text \<open>
  The recovery of the bridge client of \<open>Bridge_Run\<close>: when it tells its request tasks that events are
  forwarded, how long it waits between two sessions, and that a lost event stream is always
  replaced once the daemon answers again.
\<close>

section \<open>Readiness\<close>

text \<open>An event stream is open, or has failed and its failure is still being reported.\<close>

fun stream_held :: "forwarder_phase \<Rightarrow> bool" where
  "stream_held (FwReading c) = True"
| "stream_held (FwFailed m) = True"
| "stream_held (FwReset m) = True"
| "stream_held FwClearing = True"
| "stream_held FwStopped = True"
| "stream_held _ = False"

definition recovery_inv :: "'s bridge \<Rightarrow> bool" where
  "recovery_inv b \<longleftrightarrow> (rc_ready (br_connection b) \<longrightarrow> stream_held (br_forwarder b))
     \<and> initial_reconnect_delay \<le> br_delay b \<and> br_delay b \<le> max_reconnect_delay"

definition same_recovery :: "'s bridge \<Rightarrow> 's bridge \<Rightarrow> bool" where
  "same_recovery b b' \<longleftrightarrow> br_connection b' = br_connection b \<and> br_delay b' = br_delay b
     \<and> (br_forwarder b' = br_forwarder b \<or> br_forwarder b' = FwStopped)"

lemma recovery_inv_same: "same_recovery b b' \<Longrightarrow> recovery_inv b \<Longrightarrow> recovery_inv b'"
  by (auto simp: same_recovery_def recovery_inv_def)

lemma same_recovery_fields [simp]:
  "same_recovery b b" "same_recovery b (give who cmd b)" "same_recovery b (abort_calls sem b)"
  "same_recovery b (leave sem r b)" "same_recovery b (set_call k ph b') = same_recovery b b'"
  "same_recovery b (b'\<lparr>br_main := m\<rparr>) = same_recovery b b'"
  "same_recovery b (b'\<lparr>br_slots := s\<rparr>) = same_recovery b b'"
  "same_recovery b (b'\<lparr>br_calls := cs\<rparr>) = same_recovery b b'"
  "same_recovery b (b'\<lparr>br_open := x\<rparr>) = same_recovery b b'"
  "same_recovery b (b'\<lparr>br_requests := rs\<rparr>) = same_recovery b b'"
  "same_recovery b (b'\<lparr>br_watcher := w\<rparr>) = same_recovery b b'"
  by (simp_all add: same_recovery_def give_def abort_calls_def leave_def set_call_def)

lemma next_delay_bounds:
  "initial_reconnect_delay \<le> d \<Longrightarrow> initial_reconnect_delay \<le> next_delay d \<and> next_delay d \<le> max_reconnect_delay"
  by (simp add: next_delay_def initial_reconnect_delay_def max_reconnect_delay_def)

lemma client_get_ready [simp]: "rc_ready (snd (client_get session rc)) = rc_ready rc"
  by (simp add: client_get_def split: option.split sum.split)

lemma ready_fields [simp]:
  "rc_ready (set_ready x rc) = x" "rc_ready (take_current rc) = rc_ready rc"
  by (simp_all add: set_ready_def take_current_def)

lemma give_recovery [simp]:
  "br_connection (give who cmd b) = br_connection b" "br_delay (give who cmd b) = br_delay b"
  "br_forwarder (give who cmd b) = br_forwarder b" "br_last_error (give who cmd b) = br_last_error b"
  by (simp_all add: give_def)

lemma recovery_inv_forwarder:
  assumes "recovery_inv b" shows "recovery_inv (forwarder_step parse_json ev b)"
proof (cases ev)
  case FwWake
  with assms show ?thesis
    by (auto simp: recovery_inv_def next_delay_bounds split: forwarder_phase.split)
next
  case (FwSession session)
  have "\<not> rc_ready (br_connection b)" if "br_forwarder b = FwConnecting"
    using assms that by (auto simp: recovery_inv_def)
  moreover obtain r rc where "client_get session (br_connection b) = (r, rc)" by fastforce
  moreover from this have "rc_ready rc = rc_ready (br_connection b)"
    using client_get_ready [of session "br_connection b"] by simp
  ultimately show ?thesis
    using assms FwSession by (auto simp: recovery_inv_def split: forwarder_phase.split sum.split)
next
  case (FwEvents opened)
  with assms show ?thesis by (auto simp: recovery_inv_def split: forwarder_phase.split sum.split)
next
  case (FwSignal signal)
  with assms show ?thesis
    by (auto simp: recovery_inv_def forward_signal_def split: forwarder_phase.split sum.split)
next
  case FwStreamEnds
  with assms show ?thesis by (auto simp: recovery_inv_def split: forwarder_phase.split)
next
  case FwContinue
  with assms show ?thesis
    by (auto simp: recovery_inv_def forwarder_continue_def report_transport_error_def split: forwarder_phase.split)
qed

lemma recovery_inv_watcher:
  assumes "recovery_inv b" shows "recovery_inv (watcher_step exe ev b)"
proof (cases ev)
  case (OwSession session)
  obtain r rc where "client_get session (br_connection b) = (r, rc)" by fastforce
  moreover from this have "rc_ready rc = rc_ready (br_connection b)"
    using client_get_ready [of session "br_connection b"] by simp
  ultimately show ?thesis
    using assms OwSession by (auto simp: recovery_inv_def split: watcher_phase.split sum.split)
qed (use assms in \<open>auto simp: recovery_inv_def split: watcher_phase.split\<close>)

lemma recovery_inv_step:
  assumes inv: "recovery_inv b" shows "recovery_inv (bridge_step sem parse parse_json config ev b)"
proof -
  have read: "same_recovery b (read_request sem parse n f b)" for n f
    by (simp add: read_request_def send_or_fail_def spawn_call_def
        split: next_result.split frame.split parsed.split client_request.split option.split)
  have requests: "same_recovery b (call_requests k ph b)" for k ph
    by (cases "(k, ph, b)" rule: call_requests.cases) simp_all
  have sends: "same_recovery b (call_sends sem k ph b)" for k ph
    by (cases "(sem, k, ph, b)" rule: call_sends.cases) simp_all
  have other: "same_recovery b (bridge_step sem parse parse_json config ev b)"
    if "(\<forall>e. ev \<noteq> ForwarderMoves e) \<and> (\<forall>e. ev \<noteq> WatcherMoves e)"
  proof (cases ev)
    case TasksAborted
    then show ?thesis by (simp add: same_recovery_def)
  qed (use that read requests sends in \<open>simp_all add: start_call_def Let_def drain_calls_def cancel_step_def
      end_step_def split: option.split main_phase.split\<close>)
  show ?thesis
  proof (cases "(\<forall>e. ev \<noteq> ForwarderMoves e) \<and> (\<forall>e. ev \<noteq> WatcherMoves e)")
    case True
    with recovery_inv_same [OF other inv] show ?thesis by blast
  next
    case False
    with recovery_inv_forwarder [OF inv] recovery_inv_watcher [OF inv] show ?thesis by auto
  qed
qed

interpretation recovery: step_invariant "bridge_step sem parse parse_json config" recovery_inv
  for sem parse parse_json config
  by unfold_locales (rule recovery_inv_step)


section \<open>Recovery\<close>

text \<open>The stream ends, the failure is reported, the client is given up, and the daemon answers again.\<close>

definition daemon_back :: "forwarder_event list" where
  "daemon_back = [FwStreamEnds, FwContinue, FwContinue, FwContinue, FwContinue, FwWake,
     FwSession (Inr ()), FwEvents (Inr ())]"

lemma client_get_answers:
  obtains c rc where "client_get (Inr ()) r = (Inr c, rc)"
  by (cases "rc_current r") (simp_all add: client_get_def)

definition reading :: "'s bridge \<Rightarrow> bool" where
  "reading b \<longleftrightarrow> rc_ready (br_connection b) \<and> (\<exists>c. br_forwarder b = FwReading c)"

lemma recovers_from_connecting:
  assumes "br_forwarder b = FwConnecting"
  shows "reading (forwarder_step parse_json (FwEvents (Inr ())) (forwarder_step parse_json (FwSession (Inr ())) b))"
proof -
  obtain c rc where "client_get (Inr ()) (br_connection b) = (Inr c, rc)" by (rule client_get_answers)
  with assms show ?thesis by (simp add: reading_def)
qed

lemma recovers_from_sleeping:
  assumes "br_forwarder b = FwSleeping \<or> br_forwarder b = FwStarting"
  shows "reading (fold (forwarder_step parse_json) [FwWake, FwSession (Inr ()), FwEvents (Inr ())] b)"
proof -
  have "br_forwarder (forwarder_step parse_json FwWake b) = FwConnecting" using assms by auto
  from recovers_from_connecting [OF this, of parse_json] show ?thesis by (simp del: forwarder_step.simps)
qed

lemma recovers_from_clearing:
  assumes "br_forwarder b = FwClearing"
  shows "reading (fold (forwarder_step parse_json)
    [FwContinue, FwContinue, FwWake, FwSession (Inr ()), FwEvents (Inr ())] b)"
proof -
  have "br_forwarder (forwarder_continue (forwarder_continue b)) = FwSleeping"
    using assms by (simp add: forwarder_continue_def)
  from recovers_from_sleeping [OF disjI1 [OF this], of parse_json] show ?thesis by simp
qed

lemma continue_reset:
  assumes "br_forwarder b = FwReset m" "br_open b"
  shows "br_forwarder (forwarder_continue b) = FwClearing" "br_open (forwarder_continue b)"
  using assms by (simp_all add: forwarder_continue_def report_transport_error_def)

lemma continue_failed:
  assumes "br_forwarder b = FwFailed m" "br_open b"
  shows "br_forwarder (forwarder_continue b) = FwReset m" "br_open (forwarder_continue b)"
  using assms by (simp_all add: forwarder_continue_def)

lemma recovers_from_failed:
  assumes "br_forwarder b = FwFailed m" "br_open b"
  shows "reading (fold (forwarder_step parse_json) (drop 1 daemon_back) b)"
proof -
  note reset = continue_failed [OF assms]
  have "br_forwarder (forwarder_continue (forwarder_continue b)) = FwClearing"
    using continue_reset [OF reset] by simp
  from recovers_from_clearing [OF this, of parse_json] show ?thesis by (simp add: daemon_back_def)
qed

lemma recovers_from_reading:
  assumes "br_forwarder b = FwReading c" "br_open b"
  shows "reading (fold (forwarder_step parse_json) daemon_back b)"
proof -
  have "reading (fold (forwarder_step parse_json) (drop 1 daemon_back) (forwarder_step parse_json FwStreamEnds b))"
    by (rule recovers_from_failed [where m = "''daemon event stream ended''"]) (use assms in simp_all)
  then show ?thesis by (simp add: daemon_back_def)
qed

lemma recovers_from_anywhere:
  assumes "br_open b" "br_forwarder b \<noteq> FwStopped"
  shows "\<exists>moves. set moves \<subseteq> set daemon_back \<and> reading (fold (forwarder_step parse_json) moves b)"
proof -
  let ?run = "\<lambda>moves. reading (fold (forwarder_step parse_json) moves b)"
  have "\<exists>n. ?run (drop n daemon_back) \<or> ?run (FwContinue # drop n daemon_back)"
  proof (cases "br_forwarder b")
    case (FwReading c)
    from recovers_from_reading [OF this assms(1)] have "?run (drop 0 daemon_back)" by simp
    then show ?thesis by blast
  next
    case (FwFailed m)
    with recovers_from_failed [OF _ assms(1)] show ?thesis by blast
  next
    case (FwReset m)
    from recovers_from_clearing [OF continue_reset(1) [OF this assms(1)], of parse_json]
    have "?run (FwContinue # drop 3 daemon_back)" by (simp add: daemon_back_def)
    then show ?thesis by blast
  next
    case FwClearing
    from recovers_from_clearing [OF this, of parse_json]
    have "?run (drop 3 daemon_back)" by (simp add: daemon_back_def)
    then show ?thesis by blast
  next
    case FwTaking
    then have "br_forwarder (forwarder_continue b) = FwSleeping" by (simp add: forwarder_continue_def)
    from recovers_from_sleeping [OF disjI1 [OF this], of parse_json]
    have "?run (FwContinue # drop 5 daemon_back)" by (simp add: daemon_back_def)
    then show ?thesis by blast
  next
    case FwConnecting
    from recovers_from_connecting [OF this, of parse_json]
    have "?run (drop 6 daemon_back)" by (simp add: daemon_back_def)
    then show ?thesis by blast
  next
    case (FwOpening c)
    then have "?run (drop 7 daemon_back)" by (simp add: daemon_back_def reading_def)
    then show ?thesis by blast
  next
    case FwSleeping
    with recovers_from_sleeping [of b parse_json] have "?run (drop 5 daemon_back)" by (simp add: daemon_back_def)
    then show ?thesis by blast
  next
    case FwStarting
    with recovers_from_sleeping [of b parse_json] have "?run (drop 5 daemon_back)" by (simp add: daemon_back_def)
    then show ?thesis by blast
  next
    case FwStopped
    with assms(2) show ?thesis by simp
  qed
  then obtain n where n: "?run (drop n daemon_back) \<or> ?run (FwContinue # drop n daemon_back)" by blast
  have "set (drop n daemon_back) \<subseteq> set daemon_back" by (rule set_drop_subset)
  moreover have "FwContinue \<in> set daemon_back" by (simp add: daemon_back_def)
  ultimately show ?thesis using n by (metis insert_subset list.simps(15))
qed


lemma demo_bridge_recovery: "br_open demo_bridge" "br_forwarder demo_bridge = FwOpening 0"
  by (simp_all add: demo_bridge_defs)


end
