(* ===== verification/Method_Table.thy ===== *)
theory Method_Table
  imports Protocol
begin

text \<open>
  \<open>shelllist-daemon-core/src/contract.rs\<close>: the methods a daemon declares with \<open>declare_methods!\<close>. One
  declaration gives the wire name, the decoder, the handler, the reply, the policy and the registry
  entry; the registry is what the generator of \<open>Protocol\<close> reads. A declaration is a record; a method
  is its position in the list of declarations, as a variant of the generated enum is. The schemas
  of the parameter and result types are \<open>schemars'\<close>, the decoder and the handler are the daemon's: they
  are fields of the declaration. The parameter types of the variants are one type here, as are the
  result types.
\<close>

fun execution_text :: "execution_mode \<Rightarrow> ustring" where
  "execution_text ExecRead = ''read''"
| "execution_text ExecEffect = ''effect''"
| "execution_text ExecOperation = ''operation''"

fun sensitivity_text :: "sensitivity \<Rightarrow> ustring" where
  "sensitivity_text PublicRead = ''public''"
| "sensitivity_text SensitiveRead = ''sensitive-read''"
| "sensitivity_text SensitiveEffect = ''effect''"

text \<open>\<open>MethodPolicy\<close> serialised.\<close>

definition policy_json :: "method_policy \<Rightarrow> json" where
  "policy_json p = jobj
     [(''execution'', JString (execution_text (execution p))),
      (''sensitivity'', JString (sensitivity_text (policy_sensitivity p))),
      (''conflict_domain'', JString (conflict_domain p)),
      (''ack_budget_ms'', JNumber (PosInt (ack_budget_ms p))),
      (''request_bytes'', JNumber (PosInt (request_bytes p))),
      (''result_bytes'', JNumber (PosInt (result_bytes p))),
      (''max_in_flight'', JNumber (PosInt (max_in_flight p))),
      (''max_owner_in_flight'', JNumber (PosInt (max_owner_in_flight p)))]"

record ('p, 'r, 'e, 'reply, 's) method_decl =
  md_name :: ustring
  md_response_key :: ustring
  md_policy :: method_policy
  md_stream :: json
  md_example :: json
  md_pagination :: "json option"
  md_params_schema :: json
  md_result_schema :: json
  md_decode :: "json \<Rightarrow> 'e + 'p"
  md_handler :: "'p \<Rightarrow> ustring option \<Rightarrow> 's \<Rightarrow> ('e + 'r) \<times> 's"
  md_reply :: "'r \<Rightarrow> 'reply"

text \<open>\<open>METHODS\<close>, \<open>Method::ALL\<close> and \<open>Method::parse\<close>: the arms of the match, in order.\<close>

definition METHODS :: "('p, 'r, 'e, 'reply, 's) method_decl list \<Rightarrow> ustring list" where
  "METHODS ds = map md_name ds"

definition all_methods :: "('p, 'r, 'e, 'reply, 's) method_decl list \<Rightarrow> nat list" where
  "all_methods ds = [0..<length ds]"

fun parse_method :: "('p, 'r, 'e, 'reply, 's) method_decl list \<Rightarrow> ustring \<Rightarrow> nat option" where
  "parse_method [] n = None"
| "parse_method (d # ds) n = (if md_name d = n then Some 0 else map_option Suc (parse_method ds n))"

definition method_name :: "('p, 'r, 'e, 'reply, 's) method_decl list \<Rightarrow> nat \<Rightarrow> ustring" where
  "method_name ds m = md_name (ds ! m)"

definition method_schemas :: "json \<Rightarrow> json \<Rightarrow> json" where
  "method_schemas ps rs = jobj [(''params_schema'', ps), (''result_schema'', rs)]"

text \<open>\<open>entry["..."] = ...\<close>, one member after the other; \<open>None\<close> is the panic on a value that has no members.\<close>

fun set_members :: "(ustring \<times> json) list \<Rightarrow> json \<Rightarrow> json option" where
  "set_members [] j = Some j"
| "set_members ((k, v) # kvs) j = Option.bind (json_set k v j) (set_members kvs)"

definition registry_entry :: "('p, 'r, 'e, 'reply, 's) method_decl \<Rightarrow> json option" where
  "registry_entry d =
     set_members
       ([(''name'', JString (md_name d)), (''response_key'', JString (md_response_key d)),
         (''params_example'', md_example d), (''stream'', md_stream d), (''policy'', policy_json (md_policy d))]
        @ (case md_pagination d of None \<Rightarrow> [] | Some p \<Rightarrow> [(''pagination'', p)]))
       (method_schemas (md_params_schema d) (md_result_schema d))"

text \<open>\<open>Request::decode\<close> and \<open>Request::dispatch\<close>: a request is a method with its decoded parameters.\<close>

definition decode_request ::
  "(ustring \<Rightarrow> 'e) \<Rightarrow> ('p, 'r, 'e, 'reply, 's) method_decl list \<Rightarrow> ustring \<Rightarrow> json \<Rightarrow> 'e + nat \<times> 'p"
where
  "decode_request unsupported ds n params =
     (case parse_method ds n of
        None \<Rightarrow> err (unsupported n)
      | Some m \<Rightarrow> (case md_decode (ds ! m) params of Inl e \<Rightarrow> err e | Inr p \<Rightarrow> ok (m, p)))"

definition dispatch_decoded ::
  "('p, 'r, 'e, 'reply, 's) method_decl list \<Rightarrow> nat \<times> 'p \<Rightarrow> ustring option \<Rightarrow> 's \<Rightarrow> ('e + 'reply) \<times> 's"
where
  "dispatch_decoded ds = (\<lambda>(m, p) owner s.
     case md_handler (ds ! m) p owner s of
       (Inl e, s') \<Rightarrow> (err e, s')
     | (Inr r, s') \<Rightarrow> (ok (md_reply (ds ! m) r), s'))"

section \<open>The declaration and the contract a client is given\<close>

lemma parse_method_Some:
  "parse_method ds n = Some m \<Longrightarrow> m < length ds \<and> md_name (ds ! m) = n"
  by (induction ds arbitrary: m) (auto split: if_splits)

lemma parse_method_None: "parse_method ds n = None \<longleftrightarrow> n \<notin> set (METHODS ds)"
  by (induction ds) (auto simp: METHODS_def)

lemma parse_method_name:
  assumes "distinct (METHODS ds)" "m < length ds" shows "parse_method ds (method_name ds m) = Some m"
proof -
  have "method_name ds m \<in> set (METHODS ds)" using assms(2) by (simp add: METHODS_def method_name_def)
  then obtain i where i: "parse_method ds (method_name ds m) = Some i"
    using parse_method_None by fastforce
  have "i < length ds" "md_name (ds ! i) = md_name (ds ! m)"
    using parse_method_Some [OF i] by (simp_all add: method_name_def)
  then have "i = m" using assms nth_eq_iff_index_eq [of "METHODS ds" i m] by (simp add: METHODS_def)
  with i show ?thesis by simp
qed

lemma set_members_jobj: "set_members kvs (jobj ms) = Some (jobj (ms @ kvs))"
  by (induction kvs arbitrary: ms) (auto simp: json_set_jobj)

lemma registry_entry_members:
  "\<exists>entry. registry_entry d = Some entry
    \<and> json_get ''name'' entry = Some (JString (md_name d))
    \<and> json_get ''params_schema'' entry = Some (md_params_schema d)
    \<and> json_get ''result_schema'' entry = Some (md_result_schema d)
    \<and> json_get ''response_key'' entry = Some (JString (md_response_key d))
    \<and> json_get ''policy'' entry = Some (policy_json (md_policy d))"
  unfolding registry_entry_def method_schemas_def set_members_jobj
  by (cases "md_pagination d") simp_all

definition declared_contract :: "('p, 'r, 'e, 'reply, 's) method_decl \<Rightarrow> method_contract" where
  "declared_contract d =
     \<lparr>params_schema = md_params_schema d, contract_policy = policy_json (md_policy d),
      response_key = JString (md_response_key d), result_schema = md_result_schema d\<rparr>"

text \<open>The registry document: the entries of all methods, none of which panics.\<close>

definition registry_of :: "('p, 'r, 'e, 'reply, 's) method_decl list \<Rightarrow> json" where
  "registry_of ds = jobj [(''methods'', JArray (map (\<lambda>d. the (registry_entry d)) ds))]"

definition schemas_checked :: "('p, 'r, 'e, 'reply, 's) method_decl \<Rightarrow> bool" where
  "schemas_checked d \<longleftrightarrow> check_schema (md_params_schema d) = Inr () \<and> check_schema (md_result_schema d) = Inr ()"

lemma entry_contract:
  "contract_entry (the (registry_entry d)) = [(md_name d, declared_contract d)]"
  "contract_ready (the (registry_entry d)) = schemas_checked d"
proof -
  obtain entry where e: "registry_entry d = Some entry" "json_get ''name'' entry = Some (JString (md_name d))"
    "json_get ''params_schema'' entry = Some (md_params_schema d)"
    "json_get ''result_schema'' entry = Some (md_result_schema d)"
    "json_get ''response_key'' entry = Some (JString (md_response_key d))"
    "json_get ''policy'' entry = Some (policy_json (md_policy d))"
    using registry_entry_members by blast
  show "contract_entry (the (registry_entry d)) = [(md_name d, declared_contract d)]"
    using e by (simp add: contract_entry_def json_index_def declared_contract_def)
  show "contract_ready (the (registry_entry d)) = schemas_checked d"
    using e check_schema_ready by (simp add: contract_ready_def json_index_def schemas_checked_def)
qed

lemma map_of_declared:
  assumes "distinct (METHODS ds)"
  shows "map_of (map (\<lambda>d. (md_name d, declared_contract d)) ds) n
    = map_option (\<lambda>m. declared_contract (ds ! m)) (parse_method ds n)"
  using assms by (induction ds) (auto simp: METHODS_def option.map_comp comp_def)

text \<open>
  C8. One declaration drives both ends of the wire. When the names are distinct, which the compiler
  enforces, every method is parsed from its own name and no other name is; and the generator, run on the
  registry these declarations describe, succeeds exactly when all their schemas are supported, and then
  gives a client, for exactly the names the daemon parses, the schemas, the policy and the response key
  of the very declaration whose handler the daemon would run.
\<close>

theorem declaration_roundtrip:
  assumes "validate_unique_names (METHODS ds) = ok ()"
  shows "(\<forall>m \<in> set (all_methods ds). parse_method ds (method_name ds m) = Some m)
    \<and> (\<forall>n. parse_method ds n = None \<longleftrightarrow> n \<notin> set (METHODS ds))
    \<and> ((\<exists>table. method_contracts (registry_of ds) = Inr table) \<longleftrightarrow> list_all schemas_checked ds)
    \<and> (\<forall>table n. method_contracts (registry_of ds) = Inr table \<longrightarrow>
         map_of table n = map_option (\<lambda>m. declared_contract (ds ! m)) (parse_method ds n))"
proof -
  have dist: "distinct (METHODS ds)"
    using assms unique_names_distinct [of "METHODS ds"] by simp
  let ?table = "obj_of (map (\<lambda>d. (md_name d, declared_contract d)) ds)"
  have methods: "json_index ''methods'' (registry_of ds) = JArray (map (\<lambda>d. the (registry_entry d)) ds)"
    by (simp add: registry_of_def json_index_def)
  have "concat (map contract_entry (map (\<lambda>d. the (registry_entry d)) ds)) = map (\<lambda>d. (md_name d, declared_contract d)) ds"
    by (induction ds) (simp_all add: entry_contract)
  moreover have "list_all contract_ready (map (\<lambda>d. the (registry_entry d)) ds) = list_all schemas_checked ds"
    by (simp add: list_all_iff entry_contract)
  ultimately have table: "method_contracts (registry_of ds) = Inr t \<longleftrightarrow> list_all schemas_checked ds \<and> t = ?table" for t
    unfolding method_contracts_table methods by auto
  have "map_of (rev (map (\<lambda>d. (md_name d, declared_contract d)) ds))
      = map_of (map (\<lambda>d. (md_name d, declared_contract d)) ds)"
    using dist
    by (intro map_of_inject_set [THEN iffD2]) (simp_all add: METHODS_def comp_def rev_map [symmetric] del: rev_map)
  then have "map_of ?table n = map_option (\<lambda>m. declared_contract (ds ! m)) (parse_method ds n)" for n
    using map_of_declared [OF dist] by simp
  then show ?thesis
    using parse_method_name [OF dist] parse_method_None [of ds] table by (auto simp: all_methods_def)
qed

text \<open>What a named request runs: the handler of the declaration of that name, once, on what its decoder gave.\<close>

lemma dispatch_runs_declared:
  assumes "decode_request unsupported ds n params = Inr q"
  obtains m p where "q = (m, p)" "m < length ds" "md_name (ds ! m) = n" "md_decode (ds ! m) params = Inr p"
    "dispatch_decoded ds q owner s = (case md_handler (ds ! m) p owner s of
       (r, s') \<Rightarrow> (map_sum (\<lambda>e. e) (md_reply (ds ! m)) r, s'))"
proof -
  obtain m p where m: "parse_method ds n = Some m" "md_decode (ds ! m) params = Inr p" "q = (m, p)"
    using assms by (auto simp: decode_request_def split: option.splits sum.splits)
  show ?thesis
    by (rule that [OF m(3) _ _ m(2)])
       (use parse_method_Some [OF m(1)] in \<open>auto simp: dispatch_decoded_def m(3) split: prod.split sum.split\<close>)
qed

lemma decode_unsupported: "n \<notin> set (METHODS ds) \<Longrightarrow> decode_request unsupported ds n params = Inl (unsupported n)"
  by (simp add: decode_request_def parse_method_None [symmetric])

text \<open>The declaration of the module's own test.\<close>

definition demo_method :: "(nat, nat, ustring, json, unit) method_decl" where
  "demo_method =
     \<lparr>md_name = ''test.count'', md_response_key = ''count'', md_policy = method_policy_new ExecRead PublicRead ''test'',
      md_stream = JString ''test.changed'', md_example = jobj [(''count'', JNumber (PosInt 1))], md_pagination = None,
      md_params_schema = JBool True, md_result_schema = JBool True,
      md_decode = (\<lambda>v. case json_get ''count'' v of Some (JNumber (PosInt n)) \<Rightarrow> Inr n | _ \<Rightarrow> Inl ''invalid''),
      md_handler = (\<lambda>n owner s. (Inr n, s)), md_reply = (\<lambda>n. jobj [(''count'', JNumber (PosInt n))])\<rparr>"

theorem declaration_roundtrip_witness:
  "parse_method [demo_method] ''test.count'' = Some 0 \<and> parse_method [demo_method] ''missing'' = None"
proof -
  have "validate_unique_names (METHODS [demo_method]) = ok ()"
    by (simp add: validate_unique_names_def METHODS_def)
  from declaration_roundtrip [OF this] show ?thesis
    by (auto simp: all_methods_def method_name_def METHODS_def demo_method_def)
qed

end
