(* ===== verification/Owner_Tasks.thy ===== *)
theory Owner_Tasks
  imports Task_Registry Owner_Watch
begin

text \<open>
  \<open>subscription.rs\<close> and \<open>task.rs\<close> together with \<open>owner.rs\<close>: the body of an owned task, the task that ends
  with its bus owner, joining aborted workers, and what becomes of a panic. The registry and its
  workers are those of \<open>Task_Registry\<close>, the wait for an owner is that of \<open>Owner_Watch\<close>.
\<close>

section \<open>The body of an owned task\<close>

text \<open>The start signal, and what one poll of the task gives; the \<open>select!\<close> looks at \<open>stop\<close> first.\<close>

datatype start_signal = StartPending | StartSent | StartDropped

datatype task_poll = TaskPending | NeverStarted | TaskStopped | TaskCompleted

fun poll_owned_task :: "start_signal \<Rightarrow> bool \<Rightarrow> bool \<Rightarrow> task_poll" where
  "poll_owned_task StartPending stop events = TaskPending"
| "poll_owned_task StartDropped stop events = NeverStarted"
| "poll_owned_task StartSent stop events =
     (if stop then TaskStopped else if events then TaskCompleted else TaskPending)"

text \<open>\<open>spawn_for_owner\<close>: without an owner nothing stops the task; a failed wait ends it like a loss.\<close>

fun owner_stops :: "ustring option \<Rightarrow> wait_result \<Rightarrow> bool" where
  "owner_stops None w \<longleftrightarrow> False"
| "owner_stops (Some _) w \<longleftrightarrow> w \<noteq> StillWaits"

section \<open>Joining\<close>

text \<open>
  \<open>abort_and_join\<close>, as \<open>shutdown\<close> runs it: the whole batch is aborted before the first handle is awaited;
  a handle that is awaited is passed when its worker has ended. Other threads use the registry meanwhile.
\<close>

datatype join_event = JoinNext | Meanwhile registry_event

definition shutdown_handles :: "registry \<Rightarrow> nat list" where
  "shutdown_handles r = map (\<lambda>t. ot_task (op_value t)) (fst (drain (rg_tasks r)))"

fun join_step :: "join_event \<Rightarrow> registry \<times> nat list \<Rightarrow> registry \<times> nat list" where
  "join_step JoinNext (r, []) = (r, [])"
| "join_step JoinNext (r, h # hs) = (if w_ended (rg_workers r ! h) then (r, hs) else (r, h # hs))"
| "join_step (Meanwhile e) (r, hs) = (registry_step e r, hs)"

definition run_shutdown :: "join_event list \<Rightarrow> registry \<Rightarrow> registry \<times> nat list" where
  "run_shutdown es r = fold join_step es (shutdown r, shutdown_handles r)"

section \<open>Panics\<close>

datatype panic_payload = PanicStr ustring | PanicString ustring | PanicOther

datatype 'a future_end = Finished 'a | Panicked panic_payload

fun panic_text :: "panic_payload \<Rightarrow> ustring" where
  "panic_text (PanicStr s) = s"
| "panic_text (PanicString s) = s"
| "panic_text PanicOther = ''non-string panic''"

text \<open>\<open>catch_task\<close> turns a panic into an error; \<open>spawn_named\<close> reports one and lets it go on.\<close>

fun catch_task :: "ustring \<Rightarrow> (ustring + 'a) future_end \<Rightarrow> ustring + 'a" where
  "catch_task name (Finished r) = r"
| "catch_task name (Panicked p) = err (name @ '' panicked: '' @ panic_text p)"

datatype task_log = TaskStarted ustring | TaskEnded ustring | TaskPanicked ustring

fun spawn_named :: "ustring \<Rightarrow> unit future_end \<Rightarrow> task_log list \<times> (panic_payload + unit)" where
  "spawn_named name (Finished u) = ([TaskStarted name, TaskEnded name], ok ())"
| "spawn_named name (Panicked p) = ([TaskStarted name, TaskPanicked name], err p)"

lemma panic_is_never_success:
  "snd (spawn_named name f) = Inr () \<longleftrightarrow> f = Finished ()"
  "catch_task name g = Inr v \<Longrightarrow> g = Finished (Inr v)"
  by (cases f; simp) (cases g; simp)

section \<open>Shutdown ends every worker\<close>

text \<open>No step of the registry brings an ended worker back or forgets one.\<close>

definition keeps_ended :: "registry \<Rightarrow> registry \<Rightarrow> bool" where
  "keeps_ended r r' \<longleftrightarrow> length (rg_workers r) \<le> length (rg_workers r')
     \<and> (\<forall>n < length (rg_workers r). w_ended (rg_workers r ! n) \<longrightarrow> w_ended (rg_workers r' ! n))"

lemma keeps_ended_trans: "keeps_ended r r' \<Longrightarrow> keeps_ended r' r'' \<Longrightarrow> keeps_ended r r''"
  by (simp add: keeps_ended_def)

lemma keeps_ended_refl [simp]: "keeps_ended r r"
  by (simp add: keeps_ended_def)

lemma keeps_ended_workers: "rg_workers r' = rg_workers r \<Longrightarrow> keeps_ended r r'"
  by (simp add: keeps_ended_def)

lemma keeps_ended_abort: "keeps_ended r (abort_worker n r)"
  by (simp add: keeps_ended_def abort_worker_def update_worker_nth)

lemma keeps_ended_fold: "(\<And>x r. keeps_ended r (f x r)) \<Longrightarrow> keeps_ended r (fold f xs r)"
  by (induction xs arbitrary: r) (simp_all, blast intro: keeps_ended_trans)

lemma keeps_ended_step: "keeps_ended r (registry_step e r)"
proof (cases e)
  case (SpawnUntil i owner)
  show ?thesis
    by (cases rule: spawn_until_cases [where i = i and owner = owner and r = r])
       (simp_all add: SpawnUntil keeps_ended_def nth_append)
next
  case (CancelOwned i owner)
  have "keeps_ended r (abort_worker n (r\<lparr>rg_tasks := ts\<rparr>))" for n ts
    by (rule keeps_ended_trans [OF keeps_ended_workers keeps_ended_abort]) simp
  with CancelOwned show ?thesis
    by (simp add: cancel_owned_def keeps_ended_workers split: prod.split option.split)
next
  case ShutdownRegistry
  have "keeps_ended r (fold (\<lambda>t. abort_worker (ot_task (op_value t))) (fst (drain (rg_tasks r)))
      (r\<lparr>rg_closed := True, rg_tasks := snd (drain (rg_tasks r))\<rparr>))"
    by (rule keeps_ended_trans [OF keeps_ended_workers keeps_ended_fold]) (simp_all add: keeps_ended_abort)
  with ShutdownRegistry show ?thesis by (simp add: shutdown_def case_prod_beta)
next
  case (WorkerEnds m)
  have "rg_workers (drop_registration m r) = rg_workers r"
    by (simp add: drop_registration_def split: option.split)
  with WorkerEnds show ?thesis by (simp add: end_worker_def keeps_ended_def update_worker_nth)
next
  case DropRegistry
  have "keeps_ended r (fold (\<lambda>(_, t). abort_worker (ot_task (op_value t))) (ops_iter (rg_tasks r)) r)"
    by (rule keeps_ended_fold) (simp add: keeps_ended_abort split: prod.split)
  then show ?thesis
    unfolding DropRegistry registry_step.simps drop_registry_def Let_def
    by (rule keeps_ended_trans) (simp add: keeps_ended_workers)
qed

definition joined_inv :: "nat list \<Rightarrow> registry \<times> nat list \<Rightarrow> bool" where
  "joined_inv handles st \<longleftrightarrow> (\<forall>h \<in> set handles. h < length (rg_workers (fst st))
     \<and> (h \<in> set (snd st) \<or> w_ended (rg_workers (fst st) ! h)))"

interpretation joining: step_invariant join_step "joined_inv handles" for handles
proof
  fix e st assume inv: "joined_inv handles st"
  show "joined_inv handles (join_step e st)"
  proof (cases "(e, st)" rule: join_step.cases)
    case (3 ev r hs)
    with inv show ?thesis
      using keeps_ended_step [of r ev] by (auto simp: joined_inv_def keeps_ended_def dest: order.strict_trans2)
  qed (use inv in \<open>auto simp: joined_inv_def\<close>)
qed

lemma handles_in_range:
  assumes "registry_inv r" "h \<in> set (shutdown_handles r)" shows "h < length (rg_workers r)"
proof -
  obtain i e where e: "(i, e) \<in> set (active (rg_tasks r))" "h = ot_task (op_value e)"
    using assms(2) by (auto simp: shutdown_handles_def drain_def)
  have "map_ok (active (rg_tasks r))" using assms(1) by (simp add: registry_inv_def ops_inv_def)
  then have "ops_get_mut (rg_tasks r) i = Some (op_value e)" using e(1) by (simp add: map_ok_def ops_get_mut_def)
  with registry_inv_entry [OF assms(1)] e(2) show ?thesis by (fastforce simp: working_def)
qed

text \<open>
  Shutdown waits for every worker. Whatever the other threads do meanwhile, when \<open>shutdown\<close> returns every
  worker that was running when it was called has ended, and the registry admits nothing more.
\<close>

lemma shutdown_joins_workers:
  assumes "r = fold registry_step es (registry_with_limits first lim)" "run_shutdown js r = (r', [])"
    and "working r n"
  shows "w_ended (rg_workers r' ! n)"
proof -
  have inv: "registry_inv r" unfolding assms(1) by (rule registry.run_inv) (rule registry_inv_new)
  have "length (rg_workers (shutdown r)) = length (rg_workers r)" by (simp add: shutdown_def drain_def abort_all)
  then have "joined_inv (shutdown_handles r) (shutdown r, shutdown_handles r)"
    using handles_in_range [OF inv] by (auto simp: joined_inv_def)
  then have "joined_inv (shutdown_handles r) (r', [])"
    using joining.run_inv assms(2) unfolding run_shutdown_def by metis
  moreover have "n \<in> set (shutdown_handles r)"
    using all_aborted [OF inv assms(3)] by (force simp: shutdown_handles_def drain_def)
  ultimately show ?thesis by (simp add: joined_inv_def)
qed

section \<open>A lost owner\<close>

text \<open>
  C11. A client that goes away takes its tasks with it. Let a task be registered for an owner in any
  reachable state of the registry. If the loss of that owner was published after the wait had subscribed and
  the receiver's rounds account for all losses, skipped ones included, then the next poll of the task's
  body stops it; and when it has ended its ID is free again while every other entry is untouched. The
  wait is not over without cause: the loss was received, the bus denied the name, or the monitor failed.
\<close>

theorem lost_owner_frees_task:
  assumes "r = fold registry_step es (registry_with_limits first lim)"
    and "map_of (active (rg_tasks r)) i = Some e" "op_owner e = Some owner"
    and "accounts_for (map wr_received rounds) (published_losses changes)"
    and "bus_truthful owner rounds (published_losses changes)"
    and "Some (owner, old, []) \<in> set changes" "old \<noteq> []" "hd owner = CHR '':''" "owner \<noteq> []"
  shows "poll_owned_task StartSent (owner_stops (op_owner e) (wait_owner subscribed has_owner owner rounds)) finished
      = TaskStopped
    \<and> (let r' = end_worker (ot_task (op_value e)) r in
         ops_get_mut (rg_tasks r') i = None \<and> (\<forall>k. k \<noteq> i \<longrightarrow> ops_get_mut (rg_tasks r') k = ops_get_mut (rg_tasks r) k)
         \<and> w_ended (rg_workers r' ! ot_task (op_value e)))
    \<and> (wait_owner subscribed has_owner owner rounds = OwnerGone \<longrightarrow>
         has_owner = Inr False \<or> Item owner \<in> set (map wr_received rounds)
         \<or> (\<exists>round \<in> set rounds. wr_has_owner round = Inr False))"
proof -
  note wait = owner_loss_not_missed [OF assms(4-9), of subscribed has_owner]
  have inv: "registry_inv r" unfolding assms(1) by (rule registry.run_inv) (rule registry_inv_new)
  have "ops_get_mut (rg_tasks r) i = Some (op_value e)" using assms(2) by (simp add: ops_get_mut_def)
  from registry_inv_entry [OF inv this] obtain n where n: "op_value e = \<lparr>ot_task = n, ot_generation = n\<rparr>"
      "working r n" "w_id (rg_workers r ! n) = i" by blast
  then have live: "n < length (rg_workers r)" "\<not> w_ended (rg_workers r ! n)" by (simp_all add: working_def)
  have "rg_tasks (end_worker n r) = snd (claim (rg_tasks r) i)"
    using drop_registration_working [OF inv n(2)] live n(3) by (simp add: end_worker_def)
  then have "ops_get_mut (rg_tasks (end_worker n r)) k = (if k = i then None else ops_get_mut (rg_tasks r) k)" for k
    by (simp add: ops_table.lookup_remove)
  moreover have "w_ended (rg_workers (end_worker n r) ! n)"
    using live drop_registration_working [OF inv n(2)] by (simp add: end_worker_def update_worker_nth)
  ultimately show ?thesis using wait n(1) assms(3) by (simp add: Let_def)
qed

theorem lost_owner_frees_task_witness:
  "ops_get_mut (rg_tasks (end_worker 0 (fold registry_step [SpawnUntil ''id'' (Some '':1.8'')]
     (registry_with_limits 1 \<lparr>tl_total = 2, tl_per_owner = 2\<rparr>)))) ''id'' = None"
proof -
  let ?r = "fold registry_step [SpawnUntil ''id'' (Some '':1.8'')] (registry_with_limits 1 \<lparr>tl_total = 2, tl_per_owner = 2\<rparr>)"
  have entry: "map_of (active (rg_tasks ?r)) ''id''
      = Some \<lparr>op_owner = Some '':1.8'', op_value = \<lparr>ot_task = 0, ot_generation = 0\<rparr>\<rparr>" by code_simp
  have loss: "accounts_for (map wr_received demo_rounds) (published_losses demo_changes)"
    "bus_truthful '':1.8'' demo_rounds (published_losses demo_changes)"
    "Some ('':1.8'', '':1.8'', []) \<in> set demo_changes"
    by (simp_all add: demo_rounds_def demo_changes_def published_losses_def List.map_filter_def)
  from lost_owner_frees_task [OF refl entry _ loss] show ?thesis by (simp add: Let_def)
qed

end
