(* ===== verification/Owner_Monitor.thy ===== *)
theory Owner_Monitor
  imports Owner_Watch
begin

text \<open>
  \<open>shelllist-daemon-tokio/src/owner.rs\<close> as a machine: the bus, the monitor's task with its channel, and one
  waiter, interleaved. \<open>Owner_Watch\<close> has the waiter's loop over what it receives; here that follows from
  what the bus does and when. A subscription is the position in the channel's history from which the
  waiter receives; a lag skips some of it, as many as the channel likes. The other waiters of the shared monitor
  appear in that they may have started it. Signals reach the monitor in the order of the bus, and unique names are
  not reused.
\<close>

section \<open>The machine\<close>

datatype waiter_phase = WSubscribing | WChecking | WWaiting | WRechecking | WReturned "ustring + unit"

record owner_monitor =
  om_started :: bool
  om_stopped :: bool
  om_published :: "ustring list"
  om_signals :: "(ustring \<times> ustring \<times> ustring) option list"
  om_owned :: "ustring list"
  om_gone :: "ustring list"
  om_phase :: waiter_phase
  om_cursor :: nat

definition monitor_new :: "ustring list \<Rightarrow> owner_monitor" where
  "monitor_new owned =
     \<lparr>om_started = False, om_stopped = False, om_published = [], om_signals = [], om_owned = owned, om_gone = [],
      om_phase = WSubscribing, om_cursor = 0\<rparr>"

text \<open>The bus. Once the match rule is in place every change of an owner is queued for the monitor.\<close>

definition queue_signal :: "(ustring \<times> ustring \<times> ustring) option \<Rightarrow> owner_monitor \<Rightarrow> owner_monitor" where
  "queue_signal m s = (if om_started s then s\<lparr>om_signals := om_signals s @ [m]\<rparr> else s)"

definition name_vanishes :: "ustring \<Rightarrow> owner_monitor \<Rightarrow> owner_monitor" where
  "name_vanishes name s =
     (if name \<in> set (om_owned s)
      then queue_signal (Some (name, name, []))
             (s\<lparr>om_owned := removeAll name (om_owned s), om_gone := name # om_gone s\<rparr>)
      else s)"

text \<open>\<open>running\<close>: started once; a start that fails leaves the cell empty for the next waiter.\<close>

definition start_monitor :: "owner_monitor \<Rightarrow> owner_monitor" where
  "start_monitor s = (if om_started s then s else s\<lparr>om_started := True\<rparr>)"

text \<open>One message of the monitor's task. It publishes losses of unique names only.\<close>

definition monitor_step :: "owner_monitor \<Rightarrow> owner_monitor" where
  "monitor_step s =
     (case om_signals s of
        [] \<Rightarrow> s
      | m # ms \<Rightarrow>
          s\<lparr>om_signals := ms,
            om_published := om_published s @ (case owner_loss m of None \<Rightarrow> [] | Some name \<Rightarrow> [name])\<rparr>)"

text \<open>The waiter: subscribe, check, then receive; after a lag check again.\<close>

definition subscribe_losses :: "ustring + unit \<Rightarrow> owner_monitor \<Rightarrow> owner_monitor" where
  "subscribe_losses started s =
     (if om_started s then s\<lparr>om_cursor := length (om_published s), om_phase := WChecking\<rparr>
      else
        (case started of
           Inl e \<Rightarrow> s\<lparr>om_phase := WReturned (err e)\<rparr>
         | Inr _ \<Rightarrow> (start_monitor s)\<lparr>om_cursor := length (om_published s), om_phase := WChecking\<rparr>))"

definition check_owner :: "ustring \<Rightarrow> ustring option \<Rightarrow> owner_monitor \<Rightarrow> owner_monitor" where
  "check_owner owner failure s =
     (case failure of
        Some e \<Rightarrow> s\<lparr>om_phase := WReturned (err e)\<rparr>
      | None \<Rightarrow> s\<lparr>om_phase := (if owner \<in> set (om_owned s) then WWaiting else WReturned (ok ()))\<rparr>)"

definition receive_loss :: "ustring \<Rightarrow> nat \<Rightarrow> owner_monitor \<Rightarrow> owner_monitor" where
  "receive_loss owner skipped s =
     (if om_stopped s \<or> om_cursor s + skipped \<le> length (om_published s) \<and> om_cursor s < length (om_published s)
      then
        (case recv_loss (om_stopped s) False
                (if skipped = 0 then Item (om_published s ! om_cursor s) else LaggedBy skipped) of
           Inr lost \<Rightarrow>
             s\<lparr>om_cursor := Suc (om_cursor s), om_phase := (if lost = owner then WReturned (ok ()) else WWaiting)\<rparr>
         | Inl (LossesLagged n) \<Rightarrow> s\<lparr>om_cursor := om_cursor s + n, om_phase := WRechecking\<rparr>
         | Inl MonitorStopped \<Rightarrow> s\<lparr>om_phase := WReturned (err (owner_error_text MonitorStopped))\<rparr>)
      else s)"

datatype monitor_event =
    NameAppears ustring
  | NameVanishes ustring
  | OtherSignal "(ustring \<times> ustring \<times> ustring) option"
  | MonitorStarted
  | MonitorStep
  | MonitorEnds
  | SubscribeLosses "ustring + unit"
  | CheckOwner "ustring option"
  | ReceiveLoss nat

fun owner_step :: "ustring \<Rightarrow> monitor_event \<Rightarrow> owner_monitor \<Rightarrow> owner_monitor" where
  "owner_step owner (NameAppears name) s =
     (if name \<notin> set (om_gone s) then s\<lparr>om_owned := List.insert name (om_owned s)\<rparr> else s)"
| "owner_step owner (NameVanishes name) s = name_vanishes name s"
| "owner_step owner (OtherSignal m) s = (if owner_loss m = None then queue_signal m s else s)"
| "owner_step owner MonitorStarted s = start_monitor s"
| "owner_step owner MonitorStep s = (if om_stopped s then s else monitor_step s)"
| "owner_step owner MonitorEnds s = (if om_started s then s\<lparr>om_stopped := True\<rparr> else s)"
| "owner_step owner (SubscribeLosses started) s =
     (if om_phase s = WSubscribing then subscribe_losses started s else s)"
| "owner_step owner (CheckOwner failure) s =
     (if om_phase s = WChecking \<or> om_phase s = WRechecking then check_owner owner failure s else s)"
| "owner_step owner (ReceiveLoss skipped) s = (if om_phase s = WWaiting then receive_loss owner skipped s else s)"

section \<open>No loss falls between the check and the wait\<close>

definition loss_ahead :: "ustring \<Rightarrow> owner_monitor \<Rightarrow> bool" where
  "loss_ahead owner s \<longleftrightarrow> owner \<in> set (drop (om_cursor s) (om_published s))
     \<or> Some owner \<in> owner_loss ` set (om_signals s)"

definition waiting_inv :: "ustring \<Rightarrow> owner_monitor \<Rightarrow> bool" where
  "waiting_inv owner s \<longleftrightarrow>
     (om_phase s \<notin> {WSubscribing} \<and> (\<nexists>r. om_phase s = WReturned r) \<longrightarrow> om_started s)
     \<and> om_cursor s \<le> length (om_published s)
     \<and> set (om_owned s) \<inter> set (om_gone s) = {}
     \<and> set (om_published s) \<subseteq> set (om_gone s)
     \<and> (\<forall>m \<in> set (om_signals s). \<forall>name. owner_loss m = Some name \<longrightarrow> name \<in> set (om_gone s))
     \<and> (om_phase s = WWaiting \<and> owner \<notin> set (om_owned s) \<longrightarrow> loss_ahead owner s)"

lemma waiting_inv_new: "waiting_inv owner (monitor_new owned)"
  by (simp add: waiting_inv_def monitor_new_def)

lemma owner_loss_own: "owner_loss (Some (name, name, [])) = Some n \<Longrightarrow> n = name"
  by (simp split: if_splits)

lemma unique_loss: "name \<noteq> [] \<Longrightarrow> hd name = CHR '':'' \<Longrightarrow> owner_loss (Some (name, name, [])) = Some name"
  by simp


definition unique_name :: "ustring \<Rightarrow> bool" where
  "unique_name n \<longleftrightarrow> n \<noteq> [] \<and> hd n = CHR '':''"

text \<open>Each step, for the waiter's claim on the future and for the rest of the invariant.\<close>

lemma waiting_inv_vanish:
  assumes "unique_name owner" "waiting_inv owner s" shows "waiting_inv owner (name_vanishes name s)"
proof (cases "name \<in> set (om_owned s)")
  case True
  have key: "loss_ahead owner (name_vanishes name s)"
    if "om_phase s = WWaiting" "owner \<notin> set (removeAll name (om_owned s))"
  proof (cases "owner = name")
    case own: True
    have "om_started s" using assms(2) that(1) by (simp add: waiting_inv_def)
    with True own assms(1) show ?thesis
      by (simp add: name_vanishes_def queue_signal_def loss_ahead_def unique_name_def image_iff)
  next
    case False
    then have "loss_ahead owner s" using assms(2) that by (simp add: waiting_inv_def)
    then show ?thesis by (auto simp: name_vanishes_def queue_signal_def loss_ahead_def)
  qed
  have "om_phase (name_vanishes name s) = om_phase s" "om_owned (name_vanishes name s) = removeAll name (om_owned s)"
    using True by (simp_all add: name_vanishes_def queue_signal_def)
  with True assms(2) key show ?thesis
    by (auto simp: waiting_inv_def name_vanishes_def queue_signal_def simp del: owner_loss.simps dest: owner_loss_own)
qed (use assms(2) in \<open>simp add: name_vanishes_def\<close>)

lemma waiting_inv_monitor:
  assumes "waiting_inv owner s" shows "waiting_inv owner (monitor_step s)"
proof (cases "om_signals s")
  case (Cons m ms)
  have "loss_ahead owner (monitor_step s)" if "loss_ahead owner s"
    using that Cons assms by (auto simp: loss_ahead_def monitor_step_def waiting_inv_def split: option.splits)
  then show ?thesis
    using Cons assms by (auto simp: waiting_inv_def monitor_step_def split: option.splits)
qed (use assms in \<open>simp add: monitor_step_def\<close>)

lemma waiting_inv_receive:
  assumes "waiting_inv owner s" "om_phase s = WWaiting" shows "waiting_inv owner (receive_loss owner skipped s)"
proof (cases "\<not> om_stopped s \<and> skipped = 0 \<and> om_cursor s < length (om_published s)")
  case True
  then have split: "drop (om_cursor s) (om_published s)
      = om_published s ! om_cursor s # drop (Suc (om_cursor s)) (om_published s)"
    by (simp add: Cons_nth_drop_Suc)
  from True assms show ?thesis
    by (auto simp: waiting_inv_def receive_loss_def loss_ahead_def split)
qed (use assms in \<open>auto simp: waiting_inv_def receive_loss_def split: sum.split\<close>)

lemma waiting_inv_step:
  assumes "unique_name owner" "waiting_inv owner s" shows "waiting_inv owner (owner_step owner ev s)"
proof (cases ev)
  case (NameAppears name)
  with assms(2) show ?thesis by (auto simp: waiting_inv_def loss_ahead_def)
next
  case (NameVanishes name)
  with waiting_inv_vanish [OF assms] show ?thesis by simp
next
  case (OtherSignal m)
  with assms(2) show ?thesis
    by (auto simp: queue_signal_def waiting_inv_def loss_ahead_def simp del: owner_loss.simps)
next
  case MonitorStarted
  with assms(2) show ?thesis by (auto simp: start_monitor_def waiting_inv_def loss_ahead_def)
next
  case MonitorStep
  with waiting_inv_monitor [OF assms(2)] assms(2) show ?thesis by simp
next
  case MonitorEnds
  with assms(2) show ?thesis by (auto simp: waiting_inv_def loss_ahead_def)
next
  case (SubscribeLosses started)
  with assms(2) show ?thesis
    by (auto simp: subscribe_losses_def start_monitor_def waiting_inv_def split: sum.split)
next
  case (CheckOwner failure)
  with assms(2) show ?thesis by (auto simp: check_owner_def waiting_inv_def split: option.split)
next
  case (ReceiveLoss skipped)
  with waiting_inv_receive [OF assms(2)] assms(2) show ?thesis by simp
qed

interpretation waiting: step_invariant "owner_step owner" "\<lambda>s. unique_name owner \<and> waiting_inv owner s" for owner
  by unfold_locales (simp add: waiting_inv_step)

section \<open>The wait returns\<close>

lemma monitor_drains:
  assumes "\<not> om_stopped s"
  shows "fold (owner_step owner) (replicate (length (om_signals s)) MonitorStep) s
    = s\<lparr>om_signals := [], om_published := om_published s @ List.map_filter owner_loss (om_signals s)\<rparr>"
  using assms
proof (induction "om_signals s" arbitrary: s)
  case Nil
  then show ?case by (simp add: map_filter_simps)
next
  case (Cons m ms)
  have rest: "om_signals (monitor_step s) = ms" "\<not> om_stopped (monitor_step s)"
    using Cons.hyps(2) Cons.prems by (simp_all add: monitor_step_def Cons.hyps(2) [symmetric])
  have "fold (owner_step owner) (replicate (length (om_signals s)) MonitorStep) s
      = fold (owner_step owner) (replicate (length ms) MonitorStep) (monitor_step s)"
    using Cons.prems by (simp add: Cons.hyps(2) [symmetric])
  also have "\<dots> = (monitor_step s)\<lparr>om_signals := [],
      om_published := om_published (monitor_step s) @ List.map_filter owner_loss ms\<rparr>"
    using Cons.hyps(1) [of "monitor_step s"] rest by simp
  finally show ?case
    by (simp add: Cons.hyps(2) [symmetric] monitor_step_def map_filter_simps split: option.split)
qed

lemma returned_stays: "om_phase s = WReturned r \<Longrightarrow>
    om_phase (fold (owner_step owner) (replicate n (ReceiveLoss 0)) s) = WReturned r"
  by (induction n) simp_all

lemma receives_loss:
  assumes "om_phase s = WWaiting" "\<not> om_stopped s" "owner \<in> set (drop (om_cursor s) (om_published s))"
    and "length (om_published s) - om_cursor s \<le> n"
  shows "om_phase (fold (owner_step owner) (replicate n (ReceiveLoss 0)) s) = WReturned (ok ())"
  using assms
proof (induction n arbitrary: s)
  case (Suc n)
  have less: "om_cursor s < length (om_published s)" using Suc.prems(3) by (rule contrapos_pp) simp
  then have split: "drop (om_cursor s) (om_published s)
      = om_published s ! om_cursor s # drop (Suc (om_cursor s)) (om_published s)"
    by (simp add: Cons_nth_drop_Suc)
  let ?s = "owner_step owner (ReceiveLoss 0) s"
  have s: "?s = s\<lparr>om_cursor := Suc (om_cursor s),
      om_phase := (if om_published s ! om_cursor s = owner then WReturned (ok ()) else WWaiting)\<rparr>"
    using Suc.prems(1,2) less by (simp add: receive_loss_def)
  show ?case
  proof (cases "om_published s ! om_cursor s = owner")
    case True
    with s have "om_phase ?s = WReturned (ok ())" by simp
    from returned_stays [OF this, of owner n] show ?thesis by simp
  next
    case False
    have "om_phase (fold (owner_step owner) (replicate n (ReceiveLoss 0)) ?s) = WReturned (ok ())"
      by (rule Suc.IH) (use s False Suc.prems split in auto)
    then show ?thesis by simp
  qed
next
  case 0
  then show ?case by simp
qed


lemma returns_with_cause:
  assumes inv: "waiting_inv owner s" and before: "om_phase s \<noteq> WReturned (ok ())"
    and after: "om_phase (owner_step owner ev s) = WReturned (ok ())"
  shows "owner \<notin> set (om_owned (owner_step owner ev s))"
proof (cases ev)
  case (ReceiveLoss skipped)
  have gone: "om_published s ! om_cursor s \<in> set (om_gone s)" if "om_cursor s < length (om_published s)"
    using that inv by (meson nth_mem subsetD waiting_inv_def)
  have "set (om_owned s) \<inter> set (om_gone s) = {}" using inv by (simp add: waiting_inv_def)
  with ReceiveLoss before after gone show ?thesis
    by (auto simp: receive_loss_def split: if_splits sum.splits)
qed (use before after in \<open>auto simp: check_owner_def subscribe_losses_def start_monitor_def monitor_step_def
    queue_signal_def name_vanishes_def split: if_splits option.splits sum.splits list.splits\<close>)

text \<open>
  C12. No loss falls into the gap between the check and the wait. Whatever the interleaving of the bus, the
  monitor's task, the other waiters and this one, lags included: when the waiter waits and its owner is not on
  the bus any more, the loss is still ahead of it, so that once the monitor has taken what is queued and the
  waiter has received what was published, it returns. It returns success only when the owner is gone, and an
  error when the monitor has stopped.
\<close>

theorem owner_wait_has_no_race:
  assumes "unique_name owner" and "s = fold (owner_step owner) evs (monitor_new owned)"
  shows "(om_phase s = WWaiting \<and> owner \<notin> set (om_owned s) \<and> \<not> om_stopped s \<longrightarrow>
      om_phase (fold (owner_step owner) (replicate (length (om_signals s)) MonitorStep
        @ replicate (length (om_published s) + length (om_signals s)) (ReceiveLoss 0)) s) = WReturned (ok ()))
    \<and> (\<forall>ev. om_phase s \<noteq> WReturned (ok ()) \<and> om_phase (owner_step owner ev s) = WReturned (ok ()) \<longrightarrow>
         owner \<notin> set (om_owned (owner_step owner ev s)))
    \<and> (om_phase s = WWaiting \<and> om_stopped s \<longrightarrow>
         om_phase (owner_step owner (ReceiveLoss 0) s) = WReturned (err (owner_error_text MonitorStopped)))"
proof -
  have inv: "waiting_inv owner s"
    unfolding assms(2) using waiting.run_inv [of owner "monitor_new owned" evs] assms(1) waiting_inv_new by blast
  have "om_phase (fold (owner_step owner) (replicate (length (om_signals s)) MonitorStep
        @ replicate (length (om_published s) + length (om_signals s)) (ReceiveLoss 0)) s) = WReturned (ok ())"
    if w: "om_phase s = WWaiting" "owner \<notin> set (om_owned s)" "\<not> om_stopped s"
  proof -
    let ?losses = "List.map_filter owner_loss (om_signals s)"
    let ?s = "s\<lparr>om_signals := [], om_published := om_published s @ ?losses\<rparr>"
    have "loss_ahead owner s" using inv w by (simp add: waiting_inv_def)
    then have "owner \<in> set (drop (om_cursor s) (om_published s)) \<union> set ?losses"
      by (fastforce simp: loss_ahead_def in_map_filter simp del: owner_loss.simps)
    moreover have "om_cursor s \<le> length (om_published s)" using inv by (simp add: waiting_inv_def)
    ultimately have "owner \<in> set (drop (om_cursor ?s) (om_published ?s))" by simp
    moreover have "length ?losses \<le> length (om_signals s)" by (simp add: List.map_filter_def)
    ultimately have "om_phase (fold (owner_step owner) (replicate (length (om_published s) + length (om_signals s)) (ReceiveLoss 0)) ?s)
        = WReturned (ok ())"
      using w by (intro receives_loss) simp_all
    then show ?thesis using monitor_drains [OF w(3), of owner] by simp
  qed
  moreover have "om_phase (owner_step owner (ReceiveLoss 0) s) = WReturned (err (owner_error_text MonitorStopped))"
    if "om_phase s = WWaiting" "om_stopped s"
    using that by (simp add: receive_loss_def)
  ultimately show ?thesis using returns_with_cause [OF inv] by blast
qed

text \<open>The owner goes away right after the check, behind another client.\<close>

definition demo_race :: "monitor_event list" where
  "demo_race = [SubscribeLosses (Inr ()), NameVanishes '':1.7'', CheckOwner None, NameVanishes '':1.8'', MonitorStep]"

theorem owner_wait_has_no_race_witness:
  "om_phase (fold (owner_step '':1.8'') [MonitorStep, ReceiveLoss 0, ReceiveLoss 0]
     (fold (owner_step '':1.8'') demo_race (monitor_new ['':1.7'', '':1.8'']))) = WReturned (ok ())"
proof -
  let ?s = "fold (owner_step '':1.8'') demo_race (monitor_new ['':1.7'', '':1.8''])"
  have s: "om_phase ?s = WWaiting" "'':1.8'' \<notin> set (om_owned ?s)" "\<not> om_stopped ?s"
    "length (om_signals ?s) = 1" "length (om_published ?s) = 1" by code_simp+
  have "unique_name '':1.8''" by (simp add: unique_name_def)
  from owner_wait_has_no_race [OF this refl, of demo_race "['':1.7'', '':1.8'']"] s show ?thesis
    by (simp add: numeral_2_eq_2)
qed

end
